(* ===== verification/Prelude.thy ===== *)
theory Prelude
  imports Main "HOL-Library.Word" "HOL-Library.List_Lexorder"
begin

text \<open>
  The ground every component stands on: bytes and byte strings, Go's fixed-width
  integers, the error values of the library with the \<open>errors.Is\<close> chain they form,
  fallible computations, bounds-checked slices, little-endian fields and buffers that are
  written at an offset.

  Conventions. An on-disk or otherwise unsigned field is a word of its own width. A Go
  \<open>int\<close> or \<open>int64\<close> (64 bits on every supported platform) that holds an address, a
  size or an offset is an \<open>int\<close>, and every operation on it that could leave the
  64-bit range goes through \<open>i64\<close>, which wraps; an index into a buffer the code has
  already bounded is a \<open>nat\<close>. A Go string or byte slice is a list of bytes. A slice
  expression or an index outside the buffer is the value \<open>Panic\<close>.
\<close>

unbundle bit_operations_syntax

named_theorems wordB \<open>bounds of the words of the on-disk format\<close>

section \<open>Bytes and integers\<close>

type_synonym byte = "8 word"
type_synonym u16 = "16 word"
type_synonym u32 = "32 word"
type_synonym u64 = "64 word"
type_synonym bytes = "byte list"

text \<open>A string literal of the source as the bytes it denotes.\<close>

definition bs :: "string \<Rightarrow> bytes" where
  "bs s = map (\<lambda>c. of_nat (of_char c)) s"

lemma length_bs [simp]: "length (bs s) = length s"
  by (simp add: bs_def)

lemma bs_Nil [simp]: "bs [] = []"
  by (simp add: bs_def)

lemma bs_Cons [simp]: "bs (c # s) = of_nat (of_char c) # bs s"
  by (simp add: bs_def)

text \<open>Two's complement wrap-around of Go's \<open>int64\<close>.\<close>

definition i64 :: "int \<Rightarrow> int" where
  "i64 x = (x + 2 ^ 63) mod 2 ^ 64 - 2 ^ 63"

abbreviation MaxInt64 :: int where
  "MaxInt64 \<equiv> 9223372036854775807"

text \<open>Go's \<open>a / b\<close> for a positive \<open>b\<close>, which rounds toward zero.\<close>

definition go_div :: "int \<Rightarrow> int \<Rightarrow> int" where
  "go_div a b = (if a < 0 then - ((- a) div b) else a div b)"

lemma i64_id: "- (2 ^ 63) \<le> x \<Longrightarrow> x \<le> MaxInt64 \<Longrightarrow> i64 x = x"
  by (simp add: i64_def)

lemma i64_id_nonneg: "0 \<le> x \<Longrightarrow> x \<le> MaxInt64 \<Longrightarrow> i64 x = x"
  by (simp add: i64_id)

lemma i64_range: "- (2 ^ 63) \<le> i64 x \<and> i64 x \<le> MaxInt64"
proof -
  have "0 \<le> (x + 2 ^ 63) mod 2 ^ 64" and "(x + 2 ^ 63) mod 2 ^ 64 < 2 ^ 64"
    by simp_all
  then show ?thesis by (simp add: i64_def)
qed

lemma i64_over:
  assumes "MaxInt64 < x" and "x < 27670116110564327424"
  shows "i64 x = x - 18446744073709551616"
proof -
  have "(x + 2 ^ 63) mod 2 ^ 64 = (x + 2 ^ 63 - 2 ^ 64) mod 2 ^ 64"
    by (simp only: minus_mod_self2)
  also have "\<dots> = x + 2 ^ 63 - 2 ^ 64"
    using assms by (intro mod_pos_pos_trivial) simp_all
  finally show ?thesis by (simp add: i64_def)
qed

lemma i64_of_uint64: "i64 (uint (w :: u64)) = sint w"
proof -
  have "sint w = signed_take_bit 63 (uint w)"
    by (simp add: sint_uint)
  then show ?thesis
    by (simp add: i64_def signed_take_bit_eq_take_bit_shift take_bit_eq_mod)
qed

lemma uint_lt_u8 [wordB]: "uint (w :: byte) < 2 ^ 8" using uint_lt2p [of w] by simp
lemma uint_lt_u16 [wordB]: "uint (w :: u16) < 2 ^ 16" using uint_lt2p [of w] by simp
lemma uint_lt_u32 [wordB]: "uint (w :: u32) < 2 ^ 32" using uint_lt2p [of w] by simp
lemma uint_lt_u64 [wordB]: "uint (w :: u64) < 2 ^ 64" using uint_lt2p [of w] by simp
lemma unat_lt_u8 [wordB]: "unat (w :: byte) < 256" using unsigned_less [of w, where ?'a = nat] by simp
lemma unat_lt_u16 [wordB]: "unat (w :: u16) < 65536" using unsigned_less [of w, where ?'a = nat] by simp
lemma unat_lt_u32 [wordB]: "unat (w :: u32) < 4294967296" using unsigned_less [of w, where ?'a = nat] by simp

section \<open>Errors\<close>

text \<open>
  The sentinels a caller can test for, in the package and in the standard library it
  uses, and \<open>ReaderErr\<close> for whatever error a caller's own reader returns. The message
  text of an error is not modelled; which sentinels it wraps is. \<open>Panic\<close> is a run-time
  panic (an index or slice out of range), which no caller sees as an error value.
\<close>

datatype err =
    ErrInvalid | ErrCorrupt | ErrInvalidSuperblock | ErrNotImplemented
  | ErrNotDirectory | ErrIsDirectory | ErrLoop
  | ErrNotExist | ErrExist | ErrClosed | ErrDirNotEmpty | ErrFileOpen | ErrMetaOverrun
  | EOF | ErrUnexpectedEOF | ReaderErr nat | Panic

text \<open>The error a sentinel wraps: \<open>ErrInvalidSuperblock\<close> wraps \<open>ErrCorrupt\<close>, which
  like \<open>ErrLoop\<close> wraps \<open>ErrInvalid\<close>.\<close>

fun err_unwrap :: "err \<Rightarrow> err option" where
  "err_unwrap ErrInvalidSuperblock = Some ErrCorrupt"
| "err_unwrap ErrCorrupt = Some ErrInvalid"
| "err_unwrap ErrLoop = Some ErrInvalid"
| "err_unwrap _ = None"

text \<open>\<open>errors.Is\<close>: the target is the error or one that it wraps. No chain of the
  package is longer than three.\<close>

fun errors_Is_fuel :: "nat \<Rightarrow> err \<Rightarrow> err \<Rightarrow> bool" where
  "errors_Is_fuel 0 e t = False"
| "errors_Is_fuel (Suc n) e t =
     (e = t \<or> (case err_unwrap e of None \<Rightarrow> False | Some e' \<Rightarrow> errors_Is_fuel n e' t))"

definition errors_Is :: "err \<Rightarrow> err \<Rightarrow> bool" where
  "errors_Is e t = errors_Is_fuel 3 e t"

lemma errors_Is_simps [simp]:
  "errors_Is e e"
  "errors_Is ErrCorrupt t \<longleftrightarrow> t = ErrCorrupt \<or> t = ErrInvalid"
  "errors_Is ErrLoop t \<longleftrightarrow> t = ErrLoop \<or> t = ErrInvalid"
  "errors_Is ErrInvalidSuperblock t \<longleftrightarrow>
     t = ErrInvalidSuperblock \<or> t = ErrCorrupt \<or> t = ErrInvalid"
  by (auto simp: errors_Is_def eval_nat_numeral)

lemma errors_Is_EOF [simp]: "errors_Is e EOF \<longleftrightarrow> e = EOF"
  by (cases e) (auto simp: errors_Is_def eval_nat_numeral)

section \<open>Fallible computations\<close>

type_synonym 'a result = "err + 'a"

definition bindE :: "'e + 'a \<Rightarrow> ('a \<Rightarrow> 'e + 'b) \<Rightarrow> 'e + 'b" where
  "bindE m f = (case m of Inl e \<Rightarrow> Inl e | Inr x \<Rightarrow> f x)"

lemma bindE_simps [simp]:
  "bindE (Inl e) f = Inl e"
  "bindE (Inr x) f = f x"
  by (simp_all add: bindE_def)

lemma bindE_eq_Inr [simp]:
  "bindE m f = Inr y \<longleftrightarrow> (\<exists>x. m = Inr x \<and> f x = Inr y)"
  by (cases m) auto

lemma Inr_eq_bindE [simp]:
  "Inr y = bindE m f \<longleftrightarrow> (\<exists>x. m = Inr x \<and> f x = Inr y)"
  by (cases m) auto

lemma bindE_eq_Inl:
  "bindE m f = Inl e \<longleftrightarrow> m = Inl e \<or> (\<exists>x. m = Inr x \<and> f x = Inl e)"
  by (cases m) auto

lemma bindE_cong [fundef_cong]:
  "m = m' \<Longrightarrow> (\<And>x. m' = Inr x \<Longrightarrow> f x = f' x) \<Longrightarrow> bindE m f = bindE m' f'"
  by (cases m') auto

definition is_ok :: "'e + 'a \<Rightarrow> bool" where
  "is_ok r = (case r of Inl _ \<Rightarrow> False | Inr _ \<Rightarrow> True)"

lemma is_ok_simps [simp]: "is_ok (Inr x)" "\<not> is_ok (Inl e)"
  by (simp_all add: is_ok_def)

lemma is_ok_iff: "is_ok r \<longleftrightarrow> (\<exists>x. r = Inr x)"
  by (cases r) auto

section \<open>Slices\<close>

text \<open>The bytes \<open>b[lo:lo+n]\<close> of a buffer known to hold them.\<close>

definition window :: "bytes \<Rightarrow> nat \<Rightarrow> nat \<Rightarrow> bytes" where
  "window b lo n = take n (drop lo b)"

lemma length_window [simp]: "length (window b lo n) = min n (length b - lo)"
  by (simp add: window_def)

lemma window_nth: "lo + n \<le> length b \<Longrightarrow> i < n \<Longrightarrow> window b lo n ! i = b ! (lo + i)"
  by (simp add: window_def)

lemma window_0 [simp]: "window b lo 0 = []"
  by (simp add: window_def)

lemma window_append_right:
  "length xs \<le> lo \<Longrightarrow> window (xs @ ys) lo n = window ys (lo - length xs) n"
  by (simp add: window_def)

lemma window_append_left:
  "lo + n \<le> length xs \<Longrightarrow> window (xs @ ys) lo n = window xs lo n"
  by (simp add: window_def)

lemma window_append_exact:
  "length xs = lo \<Longrightarrow> length ys = n \<Longrightarrow> window (xs @ ys @ zs) lo n = ys"
  by (simp add: window_def)

lemma window_all: "length b = n \<Longrightarrow> window b 0 n = b"
  by (simp add: window_def)

lemma window_window:
  "i + k \<le> n \<Longrightarrow> window (window b lo n) i k = window b (lo + i) k"
  by (simp add: window_def drop_take min_def ac_simps)

lemma window_drop: "window (drop i b) lo n = window b (i + lo) n"
  by (simp add: window_def ac_simps)

lemma window_take: "lo + n \<le> k \<Longrightarrow> window (take k b) lo n = window b lo n"
  by (simp add: window_def drop_take min_def)

lemma window_concat:
  "window b lo (m + n) = window b lo m @ window b (lo + m) n"
  by (simp add: window_def take_add ac_simps)

text \<open>A Go slice expression \<open>b[lo:hi]\<close>: a panic unless \<open>lo \<le> hi \<le> len(b)\<close>.\<close>

definition slice :: "bytes \<Rightarrow> nat \<Rightarrow> nat \<Rightarrow> bytes result" where
  "slice b lo hi = (if lo \<le> hi \<and> hi \<le> length b then Inr (window b lo (hi - lo)) else Inl Panic)"

lemma slice_ok [simp]:
  "lo \<le> hi \<Longrightarrow> hi \<le> length b \<Longrightarrow> slice b lo hi = Inr (window b lo (hi - lo))"
  by (simp add: slice_def)

lemma slice_eq_Inr:
  "slice b lo hi = Inr s \<longleftrightarrow> lo \<le> hi \<and> hi \<le> length b \<and> s = window b lo (hi - lo)"
  by (auto simp: slice_def)

text \<open>\<open>bytes.IndexByte\<close>: the index of the first \<open>c\<close>.\<close>

fun IndexByte :: "bytes \<Rightarrow> byte \<Rightarrow> nat option" where
  "IndexByte [] c = None"
| "IndexByte (x # xs) c = (if x = c then Some 0 else map_option Suc (IndexByte xs c))"

lemma IndexByte_None: "IndexByte b c = None \<longleftrightarrow> c \<notin> set b"
  by (induction b) auto

lemma IndexByte_Some:
  "IndexByte b c = Some i \<Longrightarrow> i < length b \<and> b ! i = c \<and> c \<notin> set (take i b)"
  by (induction b arbitrary: i) (auto split: if_splits)

text \<open>\<open>bytes.Compare\<close> and Go's string comparison are the lexicographic order on byte
  lists, which \<open>HOL-Library.List_Lexorder\<close> makes the list order.\<close>

definition Compare :: "bytes \<Rightarrow> bytes \<Rightarrow> int" where
  "Compare a b = (if a = b then 0 else if a < b then - 1 else 1)"

section \<open>Little-endian fields\<close>

fun le_nat :: "bytes \<Rightarrow> nat" where
  "le_nat [] = 0"
| "le_nat (x # xs) = unat x + 256 * le_nat xs"

fun le_put :: "nat \<Rightarrow> nat \<Rightarrow> bytes" where
  "le_put 0 k = []"
| "le_put (Suc n) k = of_nat k # le_put n (k div 256)"

lemma length_le_put [simp]: "length (le_put n k) = n"
  by (induction n arbitrary: k) auto

lemma le_nat_zeros [simp]: "le_nat (replicate n 0) = 0"
  by (induction n) auto

lemma le_nat_bound: "le_nat b < 256 ^ length b"
proof (induction b)
  case (Cons x xs)
  have "unat x < 256" by (rule unat_lt_u8)
  with Cons show ?case by simp
qed simp

lemma le_nat_put: "le_nat (le_put n k) = k mod 256 ^ n"
proof (induction n arbitrary: k)
  case (Suc n)
  have "k mod (256 * 256 ^ n) = 256 * (k div 256 mod 256 ^ n) + k mod 256"
    by (rule mod_mult2_eq)
  with Suc show ?case by (simp add: unat_of_nat take_bit_eq_mod)
qed simp

lemma le_put_nat: "le_put (length b) (le_nat b) = b"
proof (induction b)
  case (Cons x xs)
  have x: "unat x < 256" by (rule unat_lt_u8)
  have "of_nat (unat x + 256 * le_nat xs) = (x :: byte)"
  proof -
    have "(of_nat 256 :: byte) = 0" by simp
    then show ?thesis by (simp only: of_nat_add of_nat_mult) simp
  qed
  with Cons x show ?case by simp
qed simp

text \<open>\<open>binary.LittleEndian.Uint16(b[i:])\<close> and its siblings: the field of \<open>n\<close> bytes at
  \<open>i\<close>. A caller has checked that \<open>b\<close> holds them.\<close>

definition le16 :: "bytes \<Rightarrow> nat \<Rightarrow> u16" where
  "le16 b i = of_nat (le_nat (window b i 2))"

definition le32 :: "bytes \<Rightarrow> nat \<Rightarrow> u32" where
  "le32 b i = of_nat (le_nat (window b i 4))"

definition le64 :: "bytes \<Rightarrow> nat \<Rightarrow> u64" where
  "le64 b i = of_nat (le_nat (window b i 8))"

definition put16 :: "u16 \<Rightarrow> bytes" where
  "put16 w = le_put 2 (unat w)"

definition put32 :: "u32 \<Rightarrow> bytes" where
  "put32 w = le_put 4 (unat w)"

definition put64 :: "u64 \<Rightarrow> bytes" where
  "put64 w = le_put 8 (unat w)"

lemma length_puts [simp]:
  "length (put16 a) = 2" "length (put32 b) = 4" "length (put64 c) = 8"
  by (simp_all add: put16_def put32_def put64_def)

lemma le_nat_puts [simp]:
  "le_nat (put16 a) = unat a" "le_nat (put32 b) = unat b" "le_nat (put64 c) = unat c"
  using unsigned_less [of a, where ?'a = nat] unsigned_less [of b, where ?'a = nat]
    unsigned_less [of c, where ?'a = nat]
  by (simp_all add: put16_def put32_def put64_def le_nat_put)

lemma le_of_window:
  "window b i 2 = put16 a \<Longrightarrow> le16 b i = a"
  "window b i 4 = put32 c \<Longrightarrow> le32 b i = c"
  "window b i 8 = put64 d \<Longrightarrow> le64 b i = d"
  by (simp_all add: le16_def le32_def le64_def)

section \<open>Buffers written at an offset\<close>

text \<open>\<open>copy(b[i:], bs)\<close> and \<open>PutUint\<close>: the bytes of \<open>bs\<close> stored one after another from
  index \<open>i\<close> of a buffer the caller has sized.\<close>

fun put_at :: "nat \<Rightarrow> bytes \<Rightarrow> bytes \<Rightarrow> bytes" where
  "put_at i [] b = b"
| "put_at i (x # xs) b = put_at (Suc i) xs (b[i := x])"

lemma length_put_at [simp]: "length (put_at i xs b) = length b"
  by (induction i xs b rule: put_at.induct) auto

lemma nth_put_at:
  "j < length b \<Longrightarrow>
   put_at i xs b ! j = (if i \<le> j \<and> j < i + length xs then xs ! (j - i) else b ! j)"
proof (induction i xs b rule: put_at.induct)
  case (2 i x xs b)
  then show ?case
    by (cases "j = i") (auto simp: nth_list_update nth_Cons' Suc_le_eq)
qed auto

lemma put_at_eq:
  assumes "i + length xs \<le> length b"
  shows "put_at i xs b = take i b @ xs @ drop (i + length xs) b"
  using assms by (intro nth_equalityI) (auto simp: nth_put_at nth_append)

lemma window_put_at_other:
  "i + n \<le> j \<or> j + length xs \<le> i \<Longrightarrow> window (put_at j xs b) i n = window b i n"
  by (rule nth_equalityI) (auto simp: window_def nth_put_at)

lemma window_put_at_same:
  "length xs = n \<Longrightarrow> i + n \<le> length b \<Longrightarrow> window (put_at i xs b) i n = xs"
  by (simp add: put_at_eq window_def)

text \<open>A sequence of such stores.\<close>

fun put_all :: "(nat \<times> bytes) list \<Rightarrow> bytes \<Rightarrow> bytes" where
  "put_all [] b = b"
| "put_all ((i, xs) # ps) b = put_all ps (put_at i xs b)"

lemma length_put_all [simp]: "length (put_all ps b) = length b"
  by (induction ps b rule: put_all.induct) auto

text \<open>When no later store touches a window, the window holds what was stored.\<close>

fun apart :: "nat \<Rightarrow> nat \<Rightarrow> (nat \<times> bytes) list \<Rightarrow> bool" where
  "apart i n [] = True"
| "apart i n ((j, xs) # ps) = ((i + n \<le> j \<or> j + length xs \<le> i) \<and> apart i n ps)"

lemma window_put_all_apart: "apart i n ps \<Longrightarrow> window (put_all ps b) i n = window b i n"
  by (induction ps b rule: put_all.induct) (auto simp: window_put_at_other)

fun stored :: "nat \<Rightarrow> nat \<Rightarrow> (nat \<times> bytes) list \<Rightarrow> bytes option" where
  "stored i n [] = None"
| "stored i n ((j, xs) # ps) =
     (if i = j \<and> n = length xs \<and> apart i n ps then Some xs
      else if i + n \<le> j \<or> j + length xs \<le> i then stored i n ps else None)"

lemma window_put_all_stored:
  "stored i n ps = Some xs \<Longrightarrow> i + n \<le> length b \<Longrightarrow> window (put_all ps b) i n = xs"
proof (induction ps b rule: put_all.induct)
  case (2 j ys ps b)
  then show ?case
    by (auto simp: window_put_all_apart window_put_at_same split: if_splits)
qed simp

lemma stored_bound:
  "stored i n ps \<noteq> None \<Longrightarrow> i + n \<le> length b \<Longrightarrow>
   window (put_all ps b) i n = the (stored i n ps)"
  using window_put_all_stored by (cases "stored i n ps") auto

lemma le_put_all:
  "stored i 2 ps \<noteq> None \<Longrightarrow> i + 2 \<le> length b \<Longrightarrow>
     le16 (put_all ps b) i = of_nat (le_nat (the (stored i 2 ps)))"
  "stored i 4 ps \<noteq> None \<Longrightarrow> i + 4 \<le> length b \<Longrightarrow>
     le32 (put_all ps b) i = of_nat (le_nat (the (stored i 4 ps)))"
  "stored i 8 ps \<noteq> None \<Longrightarrow> i + 8 \<le> length b \<Longrightarrow>
     le64 (put_all ps b) i = of_nat (le_nat (the (stored i 8 ps)))"
  by (simp_all add: le16_def le32_def le64_def stored_bound)

lemma nth_put_all:
  assumes "stored i 1 ps \<noteq> None" and "i + 1 \<le> length b"
  shows "put_all ps b ! i = hd (the (stored i 1 ps))"
proof -
  have "put_all ps b ! i = hd (window (put_all ps b) i 1)"
    using assms by (simp add: window_def hd_drop_conv_nth)
  with stored_bound [OF assms] show ?thesis by simp
qed

lemmas read_put_all = le_put_all nth_put_all stored_bound

section \<open>Rounding with masks\<close>

lemma int_le_div_iff:
  fixes a b c :: int
  assumes "0 < c"
  shows "a \<le> b div c \<longleftrightarrow> a * c \<le> b"
proof
  assume "a \<le> b div c"
  then have "a * c \<le> b div c * c" using assms by simp
  also have "\<dots> \<le> b" using assms by (simp add: minus_mod_eq_div_mult [symmetric])
  finally show "a * c \<le> b" .
next
  assume "a * c \<le> b"
  then have "a * c div c \<le> b div c" using assms by (intro zdiv_mono1)
  then show "a \<le> b div c" using assms by simp
qed

text \<open>\<open>x &^ (2^k - 1)\<close> and \<open>(x + 2^k - 1) &^ (2^k - 1)\<close> round down and up to a multiple of
  a power of two.\<close>

lemma and_not_mask_int: "(x :: int) AND NOT (2 ^ k - 1) = x - x mod 2 ^ k"
proof -
  have "x - take_bit k x = x AND NOT (take_bit k x)"
    by (rule disjunctive_diff) (simp add: bit_simps)
  also have "\<dots> = x AND NOT (mask k)"
    by (rule bit_eqI) (auto simp: bit_simps)
  finally show ?thesis
    by (simp add: take_bit_eq_mod mask_eq_exp_minus_1)
qed

definition round_up :: "int \<Rightarrow> int \<Rightarrow> int" where
  "round_up x b = (x + b - 1) - (x + b - 1) mod b"

lemma round_up_props:
  assumes "0 < b"
  shows "x \<le> round_up x b" and "round_up x b < x + b" and "round_up x b mod b = 0"
    and "x mod b = 0 \<Longrightarrow> round_up x b = x"
proof -
  have m: "0 \<le> (x + b - 1) mod b" "(x + b - 1) mod b < b"
    using assms by simp_all
  then show "x \<le> round_up x b" and "round_up x b < x + b"
    by (auto simp: round_up_def)
  show "round_up x b mod b = 0"
    by (simp add: round_up_def mod_diff_eq flip: minus_mod_eq_mult_div)
  show "round_up x b = x" if "x mod b = 0"
  proof -
    have "(x + b - 1) mod b = (x mod b + (b - 1)) mod b"
      by (metis add_diff_eq mod_add_left_eq)
    also have "\<dots> = b - 1"
      unfolding that using assms by (simp only: add_0 mod_pos_pos_trivial)
    finally show ?thesis by (simp add: round_up_def)
  qed
qed

end
