(* ===== verification/Disk.thy ===== *)
theory Disk
  imports Prelude
begin

text \<open>
  The on-disk format of \<open>internal/disk\<close>: the constants and structures of \<open>types.go\<close>,
  their hand-written \<open>Unmarshal\<close> and \<open>Marshal\<close> methods, and the file types and modes of
  \<open>ftypes.go\<close>. A fixed-size byte array is a byte list whose length the \<open>wf\<close> predicate of
  its structure fixes; a structure a buffer is too short for is the panic of the bounds
  check the method opens with.
\<close>

section \<open>Constants of types.go\<close>

abbreviation (input) MagicNumber :: "'a::numeral" where "MagicNumber \<equiv> 0xe0f5e1e2"
abbreviation (input) SuperBlockOffset :: "'a::numeral" where "SuperBlockOffset \<equiv> 1024"
abbreviation (input) FeatureIncompatLZ4_0Padding :: "'a::numeral" where "FeatureIncompatLZ4_0Padding \<equiv> 0x1"
abbreviation (input) FeatureIncompatChunkedFile :: "'a::numeral" where "FeatureIncompatChunkedFile \<equiv> 0x4"
abbreviation (input) FeatureIncompatDeviceTable :: "'a::numeral" where "FeatureIncompatDeviceTable \<equiv> 0x8"
abbreviation (input) FeatureIncompatFragments :: "'a::numeral" where "FeatureIncompatFragments \<equiv> 0x20"
abbreviation (input) FeatureIncompatXattrPrefixes :: "'a::numeral" where "FeatureIncompatXattrPrefixes \<equiv> 0x40"
abbreviation (input) SizeSuperBlock :: "'a::numeral" where "SizeSuperBlock \<equiv> 128"
abbreviation (input) SizeSuperExtSlot :: "'a::numeral" where "SizeSuperExtSlot \<equiv> 16"
abbreviation (input) MinPageSize :: "'a::numeral" where "MinPageSize \<equiv> 4096"
abbreviation (input) MaxNameLen :: "'a::numeral" where "MaxNameLen \<equiv> 255"
abbreviation (input) SizeInodeCompact :: "'a::numeral" where "SizeInodeCompact \<equiv> 32"
abbreviation (input) SizeInodeExtended :: "'a::numeral" where "SizeInodeExtended \<equiv> 64"
abbreviation (input) SizeDirent :: "'a::numeral" where "SizeDirent \<equiv> 12"
abbreviation (input) SizeXattrBodyHeader :: "'a::numeral" where "SizeXattrBodyHeader \<equiv> 12"
abbreviation (input) SizeXattrEntry :: "'a::numeral" where "SizeXattrEntry \<equiv> 4"
abbreviation (input) SizeDeviceSlot :: "'a::numeral" where "SizeDeviceSlot \<equiv> 128"
abbreviation (input) SizeChunkIndex :: "'a::numeral" where "SizeChunkIndex \<equiv> 8"
abbreviation (input) SizeInodeSlot :: "'a::numeral" where "SizeInodeSlot \<equiv> 32"
abbreviation (input) LayoutFlatPlain :: "'a::zero" where "LayoutFlatPlain \<equiv> 0"
abbreviation (input) LayoutCompressedFull :: "'a::one" where "LayoutCompressedFull \<equiv> 1"
abbreviation (input) LayoutFlatInline :: "'a::numeral" where "LayoutFlatInline \<equiv> 2"
abbreviation (input) LayoutCompressedCompact :: "'a::numeral" where "LayoutCompressedCompact \<equiv> 3"
abbreviation (input) LayoutChunkBased :: "'a::numeral" where "LayoutChunkBased \<equiv> 4"
abbreviation (input) LayoutMax :: "'a::numeral" where "LayoutMax \<equiv> 5"
abbreviation (input) LayoutChunkFormatBits :: "'a::numeral" where "LayoutChunkFormatBits \<equiv> 0x1F"
abbreviation (input) LayoutChunkFormatIndexes :: "'a::numeral" where "LayoutChunkFormatIndexes \<equiv> 0x20"
abbreviation (input) LayoutChunkFormat48Bit :: "'a::numeral" where "LayoutChunkFormat48Bit \<equiv> 0x40"
abbreviation (input) LayoutChunkFormatAll :: "'a::numeral" where "LayoutChunkFormatAll \<equiv> 0x7F"
abbreviation (input) InodeFormatExtended :: "'a::one" where "InodeFormatExtended \<equiv> 1"
abbreviation (input) InodeFormatLayoutMask :: "'a::numeral" where "InodeFormatLayoutMask \<equiv> 0xE"
abbreviation (input) InodeFormatDotOmitted :: "'a::numeral" where "InodeFormatDotOmitted \<equiv> 0x10"
abbreviation (input) InodeFormatNlink1 :: "'a::numeral" where "InodeFormatNlink1 \<equiv> 0x10"
abbreviation (input) InodeFormatAll :: "'a::numeral" where "InodeFormatAll \<equiv> 0x1F"
abbreviation (input) FeatureCompatSBChksum :: "'a::one" where "FeatureCompatSBChksum \<equiv> 1"
abbreviation (input) FeatureCompatIshareXattrs :: "'a::numeral" where "FeatureCompatIshareXattrs \<equiv> 0x20"
abbreviation (input) FeatureCompatPlainXattrPfx :: "'a::numeral" where "FeatureCompatPlainXattrPfx \<equiv> 0x10"
abbreviation (input) NullAddr :: "'a::numeral" where "NullAddr \<equiv> 0xFFFFFFFF"
abbreviation (input) XattrLongPrefixFlag :: "'a::numeral" where "XattrLongPrefixFlag \<equiv> 0x80"
abbreviation (input) XattrLongPrefixMask :: "'a::numeral" where "XattrLongPrefixMask \<equiv> 0x7F"

definition FeatureIncompatAll :: u32 where
  "FeatureIncompatAll = FeatureIncompatLZ4_0Padding OR FeatureIncompatChunkedFile OR
     FeatureIncompatDeviceTable OR FeatureIncompatFragments OR FeatureIncompatXattrPrefixes"

section \<open>Structures\<close>

record SuperBlock =
  sb_MagicNumber :: u32
  sb_Checksum :: u32
  sb_FeatureCompat :: u32
  sb_BlkSizeBits :: byte
  sb_ExtSlots :: byte
  sb_RootNid :: u16
  sb_Inos :: u64
  sb_BuildTime :: u64
  sb_BuildTimeNs :: u32
  sb_Blocks :: u32
  sb_MetaBlkAddr :: u32
  sb_XattrBlkAddr :: u32
  sb_UUID :: bytes
  sb_VolumeName :: bytes
  sb_FeatureIncompat :: u32
  sb_ComprAlgs :: u16
  sb_ExtraDevices :: u16
  sb_DevtSlotOff :: u16
  sb_DirBlkBits :: byte
  sb_XattrPrefixCount :: byte
  sb_XattrPrefixStart :: u32
  sb_PackedNid :: u64
  sb_XattrFilterRes :: byte
  sb_IshareXattrPrefixID :: byte
  sb_Reserved :: bytes

record InodeCompact =
  ic_Format :: u16
  ic_XattrCount :: u16
  ic_Mode :: u16
  ic_NB :: u16
  ic_Size :: u32
  ic_Mtime :: u32
  ic_InodeData :: u32
  ic_Inode :: u32
  ic_UID :: u16
  ic_GID :: u16
  ic_Reserved2 :: u32

record InodeExtended =
  ie_Format :: u16
  ie_XattrCount :: u16
  ie_Mode :: u16
  ie_NB :: u16
  ie_Size :: u64
  ie_InodeData :: u32
  ie_Inode :: u32
  ie_UID :: u32
  ie_GID :: u32
  ie_Mtime :: u64
  ie_MtimeNs :: u32
  ie_Nlink :: u32
  ie_Reserved2 :: bytes

record Dirent =
  de_Nid :: u64
  de_NameOff :: u16
  de_FileType :: byte
  de_Reserved :: byte

record XattrHeader =
  xh_NameFilter :: u32
  xh_SharedCount :: byte
  xh_Reserved :: bytes

record XattrEntry =
  xe_NameLen :: byte
  xe_NameIndex :: byte
  xe_ValueLen :: u16

record DeviceSlot =
  ds_Tag :: bytes
  ds_Blocks :: u32
  ds_MappedBlkAddr :: u32
  ds_Reserved :: bytes

definition wf_SuperBlock :: "SuperBlock \<Rightarrow> bool" where
  "wf_SuperBlock s \<longleftrightarrow>
     length (sb_UUID s) = 16 \<and> length (sb_VolumeName s) = 16 \<and> length (sb_Reserved s) = 22"

definition wf_DeviceSlot :: "DeviceSlot \<Rightarrow> bool" where
  "wf_DeviceSlot d \<longleftrightarrow> length (ds_Tag d) = 64 \<and> length (ds_Reserved d) = 56"

section \<open>Decoding and encoding\<close>

definition InodeCompact_Unmarshal :: "bytes \<Rightarrow> InodeCompact result" where
  "InodeCompact_Unmarshal b =
     (if length b < SizeInodeCompact then Inl Panic
      else Inr \<lparr> ic_Format = le16 b 0,
          ic_XattrCount = le16 b 2,
          ic_Mode = le16 b 4,
          ic_NB = le16 b 6,
          ic_Size = le32 b 8,
          ic_Mtime = le32 b 12,
          ic_InodeData = le32 b 16,
          ic_Inode = le32 b 20,
          ic_UID = le16 b 24,
          ic_GID = le16 b 26,
          ic_Reserved2 = le32 b 28 \<rparr>)"

definition InodeExtended_Unmarshal :: "bytes \<Rightarrow> InodeExtended result" where
  "InodeExtended_Unmarshal b =
     (if length b < SizeInodeExtended then Inl Panic
      else Inr \<lparr> ie_Format = le16 b 0,
          ie_XattrCount = le16 b 2,
          ie_Mode = le16 b 4,
          ie_NB = le16 b 6,
          ie_Size = le64 b 8,
          ie_InodeData = le32 b 16,
          ie_Inode = le32 b 20,
          ie_UID = le32 b 24,
          ie_GID = le32 b 28,
          ie_Mtime = le64 b 32,
          ie_MtimeNs = le32 b 40,
          ie_Nlink = le32 b 44,
          ie_Reserved2 = window b 48 16 \<rparr>)"

definition Dirent_Unmarshal :: "bytes \<Rightarrow> Dirent result" where
  "Dirent_Unmarshal b =
     (if length b < SizeDirent then Inl Panic
      else Inr \<lparr> de_Nid = le64 b 0,
          de_NameOff = le16 b 8,
          de_FileType = b ! 10,
          de_Reserved = b ! 11 \<rparr>)"

definition XattrHeader_Unmarshal :: "bytes \<Rightarrow> XattrHeader result" where
  "XattrHeader_Unmarshal b =
     (if length b < SizeXattrBodyHeader then Inl Panic
      else Inr \<lparr> xh_NameFilter = le32 b 0,
          xh_SharedCount = b ! 4,
          xh_Reserved = window b 5 7 \<rparr>)"

definition XattrEntry_Unmarshal :: "bytes \<Rightarrow> XattrEntry result" where
  "XattrEntry_Unmarshal b =
     (if length b < SizeXattrEntry then Inl Panic
      else Inr \<lparr> xe_NameLen = b ! 0,
          xe_NameIndex = b ! 1,
          xe_ValueLen = le16 b 2 \<rparr>)"

text \<open>The stores \<open>Marshal\<close> makes after it has cleared the structure's bytes.\<close>

definition SuperBlock_fields :: "SuperBlock \<Rightarrow> (nat \<times> bytes) list" where
  "SuperBlock_fields s =
     [(0, put32 (sb_MagicNumber s)),
      (4, put32 (sb_Checksum s)),
      (8, put32 (sb_FeatureCompat s)),
      (12, [sb_BlkSizeBits s]),
      (13, [sb_ExtSlots s]),
      (14, put16 (sb_RootNid s)),
      (16, put64 (sb_Inos s)),
      (24, put64 (sb_BuildTime s)),
      (32, put32 (sb_BuildTimeNs s)),
      (36, put32 (sb_Blocks s)),
      (40, put32 (sb_MetaBlkAddr s)),
      (44, put32 (sb_XattrBlkAddr s)),
      (48, sb_UUID s),
      (64, sb_VolumeName s),
      (80, put32 (sb_FeatureIncompat s)),
      (84, put16 (sb_ComprAlgs s)),
      (86, put16 (sb_ExtraDevices s)),
      (88, put16 (sb_DevtSlotOff s)),
      (90, [sb_DirBlkBits s]),
      (91, [sb_XattrPrefixCount s]),
      (92, put32 (sb_XattrPrefixStart s)),
      (96, put64 (sb_PackedNid s)),
      (104, [sb_XattrFilterRes s]),
      (105, [sb_IshareXattrPrefixID s]),
      (106, sb_Reserved s)]"

definition SuperBlock_Marshal :: "SuperBlock \<Rightarrow> bytes \<Rightarrow> bytes result" where
  "SuperBlock_Marshal s b =
     (if length b < SizeSuperBlock then Inl Panic
      else Inr (put_all (SuperBlock_fields s) (put_at 0 (replicate SizeSuperBlock 0) b)))"

definition SuperBlock_Unmarshal :: "bytes \<Rightarrow> SuperBlock result" where
  "SuperBlock_Unmarshal b =
     (if length b < SizeSuperBlock then Inl Panic
      else Inr \<lparr> sb_MagicNumber = le32 b 0,
          sb_Checksum = le32 b 4,
          sb_FeatureCompat = le32 b 8,
          sb_BlkSizeBits = b ! 12,
          sb_ExtSlots = b ! 13,
          sb_RootNid = le16 b 14,
          sb_Inos = le64 b 16,
          sb_BuildTime = le64 b 24,
          sb_BuildTimeNs = le32 b 32,
          sb_Blocks = le32 b 36,
          sb_MetaBlkAddr = le32 b 40,
          sb_XattrBlkAddr = le32 b 44,
          sb_UUID = window b 48 16,
          sb_VolumeName = window b 64 16,
          sb_FeatureIncompat = le32 b 80,
          sb_ComprAlgs = le16 b 84,
          sb_ExtraDevices = le16 b 86,
          sb_DevtSlotOff = le16 b 88,
          sb_DirBlkBits = b ! 90,
          sb_XattrPrefixCount = b ! 91,
          sb_XattrPrefixStart = le32 b 92,
          sb_PackedNid = le64 b 96,
          sb_XattrFilterRes = b ! 104,
          sb_IshareXattrPrefixID = b ! 105,
          sb_Reserved = window b 106 22 \<rparr>)"

definition DeviceSlot_fields :: "DeviceSlot \<Rightarrow> (nat \<times> bytes) list" where
  "DeviceSlot_fields s =
     [(0, ds_Tag s),
      (64, put32 (ds_Blocks s)),
      (68, put32 (ds_MappedBlkAddr s)),
      (72, ds_Reserved s)]"

definition DeviceSlot_Marshal :: "DeviceSlot \<Rightarrow> bytes \<Rightarrow> bytes result" where
  "DeviceSlot_Marshal s b =
     (if length b < SizeDeviceSlot then Inl Panic
      else Inr (put_all (DeviceSlot_fields s) (put_at 0 (replicate SizeDeviceSlot 0) b)))"

definition DeviceSlot_Unmarshal :: "bytes \<Rightarrow> DeviceSlot result" where
  "DeviceSlot_Unmarshal b =
     (if length b < SizeDeviceSlot then Inl Panic
      else Inr \<lparr> ds_Tag = window b 0 64,
          ds_Blocks = le32 b 64,
          ds_MappedBlkAddr = le32 b 68,
          ds_Reserved = window b 72 56 \<rparr>)"

section \<open>File types and modes of ftypes.go\<close>

abbreviation (input) FileTypeReg :: "'a::one" where "FileTypeReg \<equiv> 1"
abbreviation (input) FileTypeDir :: "'a::numeral" where "FileTypeDir \<equiv> 2"
abbreviation (input) FileTypeChrdev :: "'a::numeral" where "FileTypeChrdev \<equiv> 3"
abbreviation (input) FileTypeBlkdev :: "'a::numeral" where "FileTypeBlkdev \<equiv> 4"
abbreviation (input) FileTypeFifo :: "'a::numeral" where "FileTypeFifo \<equiv> 5"
abbreviation (input) FileTypeSock :: "'a::numeral" where "FileTypeSock \<equiv> 6"
abbreviation (input) FileTypeSymlink :: "'a::numeral" where "FileTypeSymlink \<equiv> 7"
abbreviation (input) StatTypeMask :: "'a::numeral" where "StatTypeMask \<equiv> 0xF000"
abbreviation (input) StatTypeReg :: "'a::numeral" where "StatTypeReg \<equiv> 0x8000"
abbreviation (input) StatTypeDir :: "'a::numeral" where "StatTypeDir \<equiv> 0x4000"
abbreviation (input) StatTypeChrdev :: "'a::numeral" where "StatTypeChrdev \<equiv> 0x2000"
abbreviation (input) StatTypeBlkdev :: "'a::numeral" where "StatTypeBlkdev \<equiv> 0x6000"
abbreviation (input) StatTypeFifo :: "'a::numeral" where "StatTypeFifo \<equiv> 0x1000"
abbreviation (input) StatTypeSock :: "'a::numeral" where "StatTypeSock \<equiv> 0xC000"
abbreviation (input) StatTypeSymlink :: "'a::numeral" where "StatTypeSymlink \<equiv> 0xA000"
abbreviation (input) StatTypeIsUID :: "'a::numeral" where "StatTypeIsUID \<equiv> 0x800"
abbreviation (input) StatTypeIsGID :: "'a::numeral" where "StatTypeIsGID \<equiv> 0x400"
abbreviation (input) StatTypeIsVTX :: "'a::numeral" where "StatTypeIsVTX \<equiv> 0x200"

text \<open>The bits of Go's \<open>fs.FileMode\<close>.\<close>

type_synonym FileMode = u32

abbreviation (input) ModeDir :: FileMode where "ModeDir \<equiv> 0x80000000"
abbreviation (input) ModeSymlink :: FileMode where "ModeSymlink \<equiv> 0x08000000"
abbreviation (input) ModeDevice :: FileMode where "ModeDevice \<equiv> 0x04000000"
abbreviation (input) ModeNamedPipe :: FileMode where "ModeNamedPipe \<equiv> 0x02000000"
abbreviation (input) ModeSocket :: FileMode where "ModeSocket \<equiv> 0x01000000"
abbreviation (input) ModeSetuid :: FileMode where "ModeSetuid \<equiv> 0x00800000"
abbreviation (input) ModeSetgid :: FileMode where "ModeSetgid \<equiv> 0x00400000"
abbreviation (input) ModeCharDevice :: FileMode where "ModeCharDevice \<equiv> 0x00200000"
abbreviation (input) ModeSticky :: FileMode where "ModeSticky \<equiv> 0x00100000"
abbreviation (input) ModeIrregular :: FileMode where "ModeIrregular \<equiv> 0x00080000"
abbreviation (input) ModePerm :: FileMode where "ModePerm \<equiv> 0x1FF"

text \<open>\<open>m.Type()\<close>: \<open>m & fs.ModeType\<close>.\<close>

definition FileMode_Type :: "FileMode \<Rightarrow> FileMode" where
  "FileMode_Type m = m AND 0x8F280000"

definition EroFSFtypeToFileMode :: "byte \<Rightarrow> FileMode" where
  "EroFSFtypeToFileMode ftype =
     (if ftype = FileTypeDir then ModeDir
      else if ftype = FileTypeChrdev then ModeDevice OR ModeCharDevice
      else if ftype = FileTypeBlkdev then ModeDevice
      else if ftype = FileTypeFifo then ModeNamedPipe
      else if ftype = FileTypeSock then ModeSocket
      else if ftype = FileTypeSymlink then ModeSymlink
      else 0)"

definition EroFSModeToGoFileMode :: "u16 \<Rightarrow> FileMode" where
  "EroFSModeToGoFileMode mode =
     (let m = ucast mode AND ModePerm;
          t = mode AND StatTypeMask;
          m = (if t = StatTypeReg then m
               else if t = StatTypeDir then m OR ModeDir
               else if t = StatTypeChrdev then m OR (ModeDevice OR ModeCharDevice)
               else if t = StatTypeBlkdev then m OR ModeDevice
               else if t = StatTypeFifo then m OR ModeNamedPipe
               else if t = StatTypeSock then m OR ModeSocket
               else if t = StatTypeSymlink then m OR ModeSymlink
               else m OR ModeIrregular);
          m = (if mode AND StatTypeIsUID \<noteq> 0 then m OR ModeSetuid else m);
          m = (if mode AND StatTypeIsGID \<noteq> 0 then m OR ModeSetgid else m);
          m = (if mode AND StatTypeIsVTX \<noteq> 0 then m OR ModeSticky else m)
      in m)"

definition RdevFromMode :: "u16 \<Rightarrow> u32 \<Rightarrow> u32" where
  "RdevFromMode mode inodeData =
     (let t = mode AND StatTypeMask in
      if t = StatTypeChrdev \<or> t = StatTypeBlkdev then inodeData else 0)"

section \<open>Decoding inverts encoding\<close>

lemmas Marshal_defs =
  SuperBlock_Marshal_def SuperBlock_Unmarshal_def SuperBlock_fields_def
  DeviceSlot_Marshal_def DeviceSlot_Unmarshal_def DeviceSlot_fields_def

lemma SuperBlock_Marshal_length:
  "SuperBlock_Marshal s b = Inr b' \<Longrightarrow> length b' = length b"
  by (auto simp: SuperBlock_Marshal_def split: if_splits)

lemma SuperBlock_Marshal_rest:
  assumes "wf_SuperBlock s" and "SuperBlock_Marshal s b = Inr b'"
    and "128 \<le> i"
  shows "window b' i n = window b i n"
proof -
  have "apart i n (SuperBlock_fields s)"
    using assms by (simp add: SuperBlock_fields_def wf_SuperBlock_def)
  with assms show ?thesis
    by (auto simp: SuperBlock_Marshal_def window_put_all_apart window_put_at_other
        split: if_splits)
qed

lemma SuperBlock_roundtrip:
  assumes "wf_SuperBlock s" and "128 \<le> length b"
  shows "\<exists>b'. SuperBlock_Marshal s b = Inr b' \<and> SuperBlock_Unmarshal b' = Inr s"
  using assms
  by (simp add: Marshal_defs wf_SuperBlock_def read_put_all del: put_all.simps)

lemma DeviceSlot_roundtrip:
  assumes "wf_DeviceSlot d" and "128 \<le> length b"
  shows "\<exists>b'. DeviceSlot_Marshal d b = Inr b' \<and> DeviceSlot_Unmarshal b' = Inr d"
  using assms
  by (simp add: Marshal_defs wf_DeviceSlot_def read_put_all del: put_all.simps)

section \<open>Properties\<close>

text \<open>
  C19. Decoding inverts encoding: a superblock marshalled into any buffer of at least 128 bytes
  unmarshals from it to the same superblock, every field of it, and the bytes of the buffer
  after the 128 are untouched.
\<close>

theorem superblock_marshal_unmarshal:
  assumes "wf_SuperBlock s" and "128 \<le> length b"
  shows "\<exists>b'. SuperBlock_Marshal s b = Inr b' \<and> SuperBlock_Unmarshal b' = Inr s \<and>
           length b' = length b \<and> drop 128 b' = drop 128 b"
proof -
  obtain b' where b': "SuperBlock_Marshal s b = Inr b'" "SuperBlock_Unmarshal b' = Inr s"
    using SuperBlock_roundtrip [OF assms] by blast
  moreover have l: "length b' = length b" by (rule SuperBlock_Marshal_length [OF b'(1)])
  moreover have "drop 128 b' = drop 128 b"
    using SuperBlock_Marshal_rest [OF assms(1) b'(1), of 128 "length b - 128"] l
    by (simp add: window_def)
  ultimately show ?thesis by blast
qed

definition example_super :: SuperBlock where
  "example_super =
     \<lparr> sb_MagicNumber = MagicNumber, sb_Checksum = 7, sb_FeatureCompat = 1, sb_BlkSizeBits = 12,
       sb_ExtSlots = 0, sb_RootNid = 36, sb_Inos = 5, sb_BuildTime = 1700000000,
       sb_BuildTimeNs = 9, sb_Blocks = 3, sb_MetaBlkAddr = 0, sb_XattrBlkAddr = 0,
       sb_UUID = replicate 16 1, sb_VolumeName = replicate 16 65, sb_FeatureIncompat = 4,
       sb_ComprAlgs = 0, sb_ExtraDevices = 1, sb_DevtSlotOff = 9, sb_DirBlkBits = 0,
       sb_XattrPrefixCount = 0, sb_XattrPrefixStart = 0, sb_PackedNid = 0,
       sb_XattrFilterRes = 0, sb_IshareXattrPrefixID = 0, sb_Reserved = replicate 22 0 \<rparr>"

theorem superblock_marshal_unmarshal_witness:
  "\<exists>b'. SuperBlock_Marshal example_super (replicate 130 3) = Inr b' \<and>
     SuperBlock_Unmarshal b' = Inr example_super \<and> length b' = 130 \<and> drop 128 b' = [3, 3]"
  using superblock_marshal_unmarshal [of example_super "replicate 130 3"]
  by (simp add: wf_SuperBlock_def example_super_def numeral_2_eq_2)

text \<open>
  C20. The same for a slot of the device table: tag, block count, mapped address and reserved
  bytes come back from the 128 bytes \<open>Marshal\<close> writes.
\<close>

theorem deviceslot_marshal_unmarshal:
  assumes "wf_DeviceSlot d" and "128 \<le> length b"
  shows "\<exists>b'. DeviceSlot_Marshal d b = Inr b' \<and> DeviceSlot_Unmarshal b' = Inr d"
  by (rule DeviceSlot_roundtrip [OF assms])

theorem deviceslot_marshal_unmarshal_witness:
  "\<exists>b'. DeviceSlot_Marshal \<lparr> ds_Tag = replicate 64 4, ds_Blocks = 300, ds_MappedBlkAddr = 70000,
         ds_Reserved = replicate 56 0 \<rparr> (replicate 128 1) = Inr b' \<and>
     DeviceSlot_Unmarshal b' = Inr \<lparr> ds_Tag = replicate 64 4, ds_Blocks = 300,
         ds_MappedBlkAddr = 70000, ds_Reserved = replicate 56 0 \<rparr>"
  by (rule deviceslot_marshal_unmarshal) (simp_all add: wf_DeviceSlot_def)

end
