(* ===== verification/Format.thy ===== *)
theory Format
  imports Disk "HOL-Library.Sublist"
begin

text \<open>
  The field encodings the reader and the writer share: \<open>block.go\<close>, \<open>format.go\<close> and the
  name indexes of \<open>xattr.go\<close>. A Go map from names to values is an association list with
  distinct keys, in whatever order an iteration visits it.
\<close>

section \<open>block.go\<close>

text \<open>The window \<open>buf[offset:end]\<close> of a pooled buffer.\<close>

record block =
  buf :: bytes
  offset :: nat
  bend :: nat

definition block_bytes :: "block \<Rightarrow> bytes" where
  "block_bytes b = window (buf b) (offset b) (bend b - offset b)"

definition calculateBlocks :: "nat \<Rightarrow> int \<Rightarrow> int" where
  "calculateBlocks blockBits sz =
     (let blockNum = drop_bit blockBits sz in
      if sz > push_bit blockBits blockNum then blockNum + 1 else blockNum)"

section \<open>Extended attribute names\<close>

type_synonym xattr_map = "(bytes \<times> bytes) list"

abbreviation (input) xattrIndexLast :: "'a::numeral" where "xattrIndexLast \<equiv> 6"

definition xattrIndex_String :: "byte \<Rightarrow> bytes" where
  "xattrIndex_String idx =
     (if idx = 1 then bs ''user.''
      else if idx = 2 then bs ''system.posix_acl_access''
      else if idx = 3 then bs ''system.posix_acl_default''
      else if idx = 4 then bs ''trusted.''
      else if idx = 5 then bs ''lustre.''
      else if idx = 6 then bs ''security.''
      else [])"

definition xattrIndex_prefix :: "byte \<Rightarrow> bytes result" where
  "xattrIndex_prefix idx =
     (if idx = 0 then Inr []
      else let p = xattrIndex_String idx in
           if p \<noteq> [] then Inr p else Inl ErrCorrupt)"

text \<open>The loop of \<open>xattrSplit\<close> over the indexes \<open>idx\<close> to \<open>xattrIndexLast\<close>.\<close>

fun xattrSplit_from :: "byte list \<Rightarrow> bytes \<Rightarrow> byte \<times> bytes" where
  "xattrSplit_from [] name = (0, name)"
| "xattrSplit_from (idx # idxs) name =
     (let p = xattrIndex_String idx in
      if prefix p name then (idx, drop (length p) name) else xattrSplit_from idxs name)"

definition xattrSplit :: "bytes \<Rightarrow> byte \<times> bytes" where
  "xattrSplit name = xattrSplit_from [1, 2, 3, 4, 5, 6] name"

abbreviation (input) maxXattrNameLen :: "'a::numeral" where "maxXattrNameLen \<equiv> 255"
abbreviation (input) maxXattrValueLen :: "'a::numeral" where "maxXattrValueLen \<equiv> 65535"
abbreviation (input) maxXattrICount :: "'a::numeral" where "maxXattrICount \<equiv> 65535"

definition validateXattr :: "bytes \<Rightarrow> bytes \<Rightarrow> unit result" where
  "validateXattr name value =
     (let (idx, sfx) = xattrSplit name in
      if sfx = [] \<and> (idx = 0 \<or> suffix (bs ''.'') (xattrIndex_String idx)) then Inl ErrInvalid
      else if length sfx > maxXattrNameLen then Inl ErrInvalid
      else if length value > maxXattrValueLen then Inl ErrInvalid
      else Inr ())"

text \<open>\<open>(sz + 3) & ^3\<close> of a non-negative \<open>sz\<close> is \<open>(sz + 3) div 4 * 4\<close>.\<close>

definition xattrEntrySize :: "bytes \<Rightarrow> bytes \<Rightarrow> nat" where
  "xattrEntrySize name value =
     (let (_, sfx) = xattrSplit name;
          sz = SizeXattrEntry + length sfx + length value
      in if sz mod 4 \<noteq> 0 then (sz + 3) div 4 * 4 else sz)"

definition calcXattrSize :: "xattr_map \<Rightarrow> nat" where
  "calcXattrSize xattrs =
     (if xattrs = [] then 0
      else SizeXattrBodyHeader + sum_list (map (\<lambda>(name, value). xattrEntrySize name value) xattrs))"

definition xattrICount :: "nat \<Rightarrow> nat" where
  "xattrICount xattrSize =
     (if xattrSize = 0 then 0 else (xattrSize - SizeXattrBodyHeader) div SizeXattrEntry + 1)"

definition xattrCount :: "nat \<Rightarrow> u16" where
  "xattrCount xattrSize = of_nat (xattrICount xattrSize)"

definition sortedXattrKeys :: "xattr_map \<Rightarrow> bytes list" where
  "sortedXattrKeys m = sort (map fst m)"

section \<open>Inode format and modes\<close>

definition inodeFormat :: "byte \<Rightarrow> bool \<Rightarrow> u16" where
  "inodeFormat layout compact =
     (let f = push_bit 1 (ucast layout) in
      if \<not> compact then f OR InodeFormatExtended else f)"

definition goModeToUnixMode :: "FileMode \<Rightarrow> u16" where
  "goModeToUnixMode m =
     (let mode = ucast (m AND ModePerm);
          mode = (if m AND ModeSetuid \<noteq> 0 then mode OR StatTypeIsUID else mode);
          mode = (if m AND ModeSetgid \<noteq> 0 then mode OR StatTypeIsGID else mode);
          mode = (if m AND ModeSticky \<noteq> 0 then mode OR StatTypeIsVTX else mode);
          t = FileMode_Type m
      in if t = 0 then mode OR StatTypeReg
         else if t = ModeDir then mode OR StatTypeDir
         else if t = ModeSymlink then mode OR StatTypeSymlink
         else if t = ModeDevice OR ModeCharDevice then mode OR StatTypeChrdev
         else if t = ModeDevice then mode OR StatTypeBlkdev
         else if t = ModeNamedPipe then mode OR StatTypeFifo
         else if t = ModeSocket then mode OR StatTypeSock
         else mode)"

definition modeToFileType :: "u16 \<Rightarrow> byte" where
  "modeToFileType mode =
     (let t = mode AND StatTypeMask in
      if t = StatTypeReg then FileTypeReg
      else if t = StatTypeDir then FileTypeDir
      else if t = StatTypeChrdev then FileTypeChrdev
      else if t = StatTypeBlkdev then FileTypeBlkdev
      else if t = StatTypeFifo then FileTypeFifo
      else if t = StatTypeSock then FileTypeSock
      else if t = StatTypeSymlink then FileTypeSymlink
      else 0)"

section \<open>Lemmas\<close>

text \<open>\<open>calculateBlocks\<close> is the ceiling of the division, written out for any size.\<close>

lemma calculateBlocks_eq: "calculateBlocks k sz = - ((- sz) div 2 ^ k)"
proof -
  define q where "q = sz div 2 ^ k"
  have e: "sz = q * 2 ^ k + sz mod 2 ^ k" by (simp only: q_def div_mult_mod_eq)
  have m: "0 \<le> sz mod 2 ^ k" "sz mod 2 ^ k < 2 ^ k" by simp_all
  have c: "calculateBlocks k sz = (if sz > q * 2 ^ k then q + 1 else q)"
    by (simp add: calculateBlocks_def q_def drop_bit_eq_div push_bit_eq_mult)
  show ?thesis
  proof (cases "sz mod 2 ^ k = 0")
    case True
    with e c show ?thesis
      by (simp add: q_def zdiv_zminus1_eq_if)
  next
    case False
    with m have "sz > q * 2 ^ k" using e by linarith
    with False c show ?thesis
      by (simp add: q_def zdiv_zminus1_eq_if)
  qed
qed

text \<open>Splitting a name and putting the prefix back is the identity.\<close>

lemma xattrSplit_from_join:
  "xattrSplit_from idxs name = (idx, sfx) \<Longrightarrow> set idxs \<subseteq> {1, 2, 3, 4, 5, 6} \<Longrightarrow>
   (idx = 0 \<or> idx \<in> set idxs) \<and> xattrIndex_String idx @ sfx = name"
proof (induction idxs)
  case Nil
  then show ?case by (simp add: xattrIndex_String_def)
next
  case (Cons i idxs)
  then show ?case by (auto simp: Let_def prefix_def split: if_splits)
qed

lemma xattrIndex_prefix_ok:
  "idx \<in> {0, 1, 2, 3, 4, 5, 6} \<Longrightarrow> xattrIndex_prefix idx = Inr (xattrIndex_String idx)"
  by (auto simp: xattrIndex_prefix_def xattrIndex_String_def)

lemma xattrSplit_join:
  assumes "xattrSplit name = (idx, sfx)"
  shows "idx \<in> {0, 1, 2, 3, 4, 5, 6}" and "xattrIndex_String idx @ sfx = name"
  using xattrSplit_from_join [OF assms [unfolded xattrSplit_def]] by auto

lemma xattrEntrySize_mod [simp]: "xattrEntrySize name value mod 4 = 0"
  by (auto simp: xattrEntrySize_def Let_def split: prod.splits)

lemma xattrEntrySize_ge:
  "xattrSplit name = (idx, sfx) \<Longrightarrow> 4 + length sfx + length value \<le> xattrEntrySize name value"
  by (auto simp: xattrEntrySize_def Let_def)

subsection \<open>Modes\<close>

text \<open>The seven file types of the format, and what a mode is made of.\<close>

definition known_type :: "u16 \<Rightarrow> bool" where
  "known_type mode \<longleftrightarrow> mode AND StatTypeMask \<in>
     {StatTypeReg, StatTypeDir, StatTypeChrdev, StatTypeBlkdev, StatTypeFifo, StatTypeSock,
      StatTypeSymlink}"

lemma and_exp: "(m :: 'a::len word) AND 2 ^ k = (if bit m k then 2 ^ k else 0)"
  by (rule bit_word_eqI) (auto simp: bit_simps)

lemma mode_parts:
  fixes m :: u16
  shows "m = (m AND 0x1FF) OR (m AND 0x800) OR (m AND 0x400) OR (m AND 0x200) OR (m AND 0xF000)"
proof -
  have "m AND mask 16 = m" by (rule bit_word_eqI) (simp add: bit_simps)
  then have "m AND 0xFFFF = m" by (simp add: mask_eq_exp_minus_1)
  then show ?thesis by (simp flip: bit.conj_disj_distrib)
qed

lemma mode_bits:
  fixes m :: u16
  shows "m AND 0x800 = (if bit m 11 then 0x800 else 0)"
    and "m AND 0x400 = (if bit m 10 then 0x400 else 0)"
    and "m AND 0x200 = (if bit m 9 then 0x200 else 0)"
  using and_exp [of m 11] and_exp [of m 10] and_exp [of m 9] by simp_all

lemma goMode_parts:
  fixes p T U G S :: u32
  assumes "g = (p AND 0x1FF) OR T OR U OR G OR S"
    and "T AND 0x8F280000 = T" "U \<in> {0, ModeSetuid}" "G \<in> {0, ModeSetgid}" "S \<in> {0, ModeSticky}"
  shows "g AND 0x1FF = p AND 0x1FF" and "FileMode_Type g = T"
    and "g AND ModeSetuid = U" and "g AND ModeSetgid = G" and "g AND ModeSticky = S"
proof -
  have T: "T AND 0x1FF = 0" "T AND ModeSetuid = 0" "T AND ModeSetgid = 0" "T AND ModeSticky = 0"
    by (subst assms(2) [symmetric], simp add: and.assoc)+
  show "g AND 0x1FF = p AND 0x1FF" "FileMode_Type g = T"
    "g AND ModeSetuid = U" "g AND ModeSetgid = G" "g AND ModeSticky = S"
    using assms unfolding FileMode_Type_def
    by (auto simp: bit.conj_disj_distrib2 and.assoc T)
qed

lemma EroFSModeToGoFileMode_parts:
  assumes "known_type m"
  shows "EroFSModeToGoFileMode m = (ucast m AND 0x1FF) OR EroFSFtypeToFileMode (modeToFileType m) OR
     (if bit m 11 then ModeSetuid else 0) OR (if bit m 10 then ModeSetgid else 0) OR
     (if bit m 9 then ModeSticky else 0)"
proof -
  define t where "t = m AND 0xF000"
  have "t \<in> {StatTypeReg, StatTypeDir, StatTypeChrdev, StatTypeBlkdev, StatTypeFifo,
      StatTypeSock, StatTypeSymlink}"
    using assms by (simp add: known_type_def t_def)
  then show ?thesis
    unfolding EroFSModeToGoFileMode_def EroFSFtypeToFileMode_def modeToFileType_def Let_def
      mode_bits t_def [symmetric]
    by (elim insertE emptyE; simp add: or.assoc)
qed

lemma ftype_bits_type: "EroFSFtypeToFileMode ft AND 0x8F280000 = EroFSFtypeToFileMode ft"
  by (simp add: EroFSFtypeToFileMode_def)

lemmas goMode_known_parts = goMode_parts [OF EroFSModeToGoFileMode_parts ftype_bits_type]

lemma ucast_u16_u32 [simp]: "ucast (ucast m :: u32) = (m :: u16)"
  by (rule bit_word_eqI) (simp add: bit_simps)

lemma goModeToUnixMode_inverse:
  assumes "known_type m"
  shows "goModeToUnixMode (EroFSModeToGoFileMode m) = m"
proof -
  let ?g = "EroFSModeToGoFileMode m"
  define t where "t = m AND 0xF000"
  have t: "t \<in> {StatTypeReg, StatTypeDir, StatTypeChrdev, StatTypeBlkdev, StatTypeFifo,
      StatTypeSock, StatTypeSymlink}"
    using assms by (simp add: known_type_def t_def)
  have parts: "?g AND 0x1FF = ucast m AND 0x1FF" 
    "FileMode_Type ?g = EroFSFtypeToFileMode (modeToFileType m)"
    "?g AND ModeSetuid = (if bit m 11 then ModeSetuid else 0)"
    "?g AND ModeSetgid = (if bit m 10 then ModeSetgid else 0)"
    "?g AND ModeSticky = (if bit m 9 then ModeSticky else 0)"
    by (rule goMode_known_parts [OF assms]; simp)+
  have "goModeToUnixMode ?g = (m AND 0x1FF) OR (if bit m 11 then 0x800 else 0) OR
     (if bit m 10 then 0x400 else 0) OR (if bit m 9 then 0x200 else 0) OR t"
    using t unfolding goModeToUnixMode_def parts EroFSFtypeToFileMode_def modeToFileType_def Let_def
      t_def [symmetric]
    by (elim insertE emptyE; simp add: or.assoc unsigned_and_eq)
  also have "\<dots> = m"
    using mode_parts [of m] by (simp only: mode_bits t_def)
  finally show ?thesis .
qed

section \<open>Properties\<close>

text \<open>
  C21. Modes survive the trip through Go: for every \<open>i_mode\<close> of a type the format knows, the
  mode the reader reports converts back to the same 16 bits, permissions and the setuid,
  setgid and sticky bits included; and the type a directory entry of that inode carries
  converts to the same Go type bits as the inode's own mode.
\<close>

theorem mode_conversion_roundtrip:
  assumes "known_type m"
  shows "goModeToUnixMode (EroFSModeToGoFileMode m) = m \<and>
         EroFSFtypeToFileMode (modeToFileType m) = FileMode_Type (EroFSModeToGoFileMode m)"
proof
  show "goModeToUnixMode (EroFSModeToGoFileMode m) = m"
    using assms by (rule goModeToUnixMode_inverse)
  show "EroFSFtypeToFileMode (modeToFileType m) = FileMode_Type (EroFSModeToGoFileMode m)"
    by (rule goMode_known_parts(2) [OF assms, symmetric]) simp_all
qed

theorem mode_conversion_roundtrip_witness:
  "goModeToUnixMode (EroFSModeToGoFileMode 0x49ED) = 0x49ED \<and>
   EroFSFtypeToFileMode (modeToFileType 0x49ED) = FileMode_Type (EroFSModeToGoFileMode 0x49ED)"
  by (rule mode_conversion_roundtrip) (simp add: known_type_def)

end
