(* ===== verification/Image.thy ===== *)
theory Image
  imports Format
begin

text \<open>
  The open image of \<open>erofs.go\<close>: the readers it is given, the \<open>image\<close> structure, the
  superblock's checksum, the bounds every address off the disk goes through (\<open>checkNid\<close>,
  \<open>chunkIndexFits\<close>, \<open>chunkAddr\<close>, \<open>checkImageRange\<close>, \<open>locateRange\<close>, \<open>locate\<close>,
  \<open>boundOnDevice\<close>) and the checks \<open>Open\<close> makes before it reads the long prefix table.
\<close>

section \<open>Readers\<close>

text \<open>
  A caller's \<open>io.ReaderAt\<close> is a parameter: \<open>ra_read off n\<close> is what \<open>ReadAt\<close> answers for
  a buffer of \<open>n\<close> bytes at \<open>off\<close>, the bytes it stored (as many as the count it returns)
  and its error; \<open>ra_size\<close> is what \<open>imageSize\<close> learns of its length. The standard
  library's \<open>bytes.Reader\<close> and \<open>io.SectionReader\<close> are modelled from their documentation.
\<close>

record reader =
  ra_read :: "int \<Rightarrow> nat \<Rightarrow> bytes \<times> err option"
  ra_size :: "int option"

definition imageSize :: "reader \<Rightarrow> int \<times> bool" where
  "imageSize ra = (case ra_size ra of Some n \<Rightarrow> (n, True) | None \<Rightarrow> (0, False))"

definition bytes_reader :: "bytes \<Rightarrow> reader" where
  "bytes_reader data =
     \<lparr> ra_read = (\<lambda>off n.
         if off < 0 then ([], Some (ReaderErr 0))
         else if off \<ge> int (length data) then ([], Some EOF)
         else let b = window data (nat off) n
              in (b, if length b < n then Some EOF else None)),
       ra_size = Some (int (length data)) \<rparr>"

definition section_reader :: "reader \<Rightarrow> int \<Rightarrow> int \<Rightarrow> reader" where
  "section_reader r base n =
     (let limit = (if base \<le> MaxInt64 - n then base + n else MaxInt64) in
      \<lparr> ra_read = (\<lambda>off k.
          if off < 0 \<or> off \<ge> limit - base then ([], Some EOF)
          else let room = limit - (off + base) in
               if int k > room
               then (case ra_read r (off + base) (nat room) of
                       (b, e) \<Rightarrow> (b, case e of None \<Rightarrow> Some EOF | Some e \<Rightarrow> Some e))
               else ra_read r (off + base) k),
        ra_size = Some (limit - base) \<rparr>)"

text \<open>A buffer of \<open>n\<close> zero bytes after a read has stored its bytes in it.\<close>

definition read_into :: "nat \<Rightarrow> bytes \<Rightarrow> bytes" where
  "read_into n b = put_at 0 b (replicate n 0)"

text \<open>
  What the documentation of \<open>io.ReaderAt\<close> promises of a reader whose content is \<open>data\<close>:
  it stores at most the bytes asked for, they are the content's from that offset on, and a
  short count comes with an error. It may still fail, and it may answer a full read that
  ends at the last byte with \<open>io.EOF\<close>.
\<close>

definition reads_data :: "reader \<Rightarrow> bytes \<Rightarrow> bool" where
  "reads_data rd data \<longleftrightarrow>
     (\<forall>off n. case ra_read rd off n of (b, e) \<Rightarrow>
        length b \<le> n \<and>
        (b \<noteq> [] \<longrightarrow> 0 \<le> off \<and> window data (nat off) (length b) = b) \<and>
        (length b < n \<longrightarrow> e \<noteq> None))"

lemma reads_dataD:
  assumes "reads_data rd data" and "ra_read rd off n = (b, e)"
  shows "length b \<le> n" and "b \<noteq> [] \<Longrightarrow> 0 \<le> off"
    and "b \<noteq> [] \<Longrightarrow> window data (nat off) (length b) = b" and "length b < n \<Longrightarrow> e \<noteq> None"
proof -
  have "case ra_read rd off n of (b, e) \<Rightarrow> length b \<le> n \<and>
      (b \<noteq> [] \<longrightarrow> 0 \<le> off \<and> window data (nat off) (length b) = b) \<and> (length b < n \<longrightarrow> e \<noteq> None)"
    using assms(1) by (simp only: reads_data_def)
  with assms(2) show "length b \<le> n" and "b \<noteq> [] \<Longrightarrow> 0 \<le> off"
    and "b \<noteq> [] \<Longrightarrow> window data (nat off) (length b) = b" and "length b < n \<Longrightarrow> e \<noteq> None"
    by simp_all
qed

locale reader_at =
  fixes rd :: reader and data :: bytes
  assumes contract: "reads_data rd data"
begin

lemmas read_length = reads_dataD(1) [OF contract]

lemma read_window:
  assumes "ra_read rd off n = (b, e)" and "b \<noteq> []"
  shows "0 \<le> off" and "window data (nat off) (length b) = b" and "nat off + length b \<le> length data"
proof -
  note D = reads_dataD [OF contract assms(1)]
  show "0 \<le> off" and w: "window data (nat off) (length b) = b"
    using D(2, 3) assms(2) by blast+
  have "length b = min (length b) (length data - nat off)"
    using arg_cong [OF w, of length] by simp
  with assms(2) show "nat off + length b \<le> length data"
    by (cases b) auto
qed

lemma read_full: "ra_read rd off n = (b, None) \<Longrightarrow> length b = n"
  using reads_dataD(1, 4) [OF contract, of off n b None] by fastforce

lemma read_into_full:
  assumes "ra_read rd off n = (b, e)" and "length b = n" and "0 < n"
  shows "read_into n b = window data (nat off) n"
proof -
  have "read_into n b = b" using assms(2) by (simp add: read_into_def put_at_eq)
  with read_window(2) [OF assms(1)] assms(2, 3) show ?thesis by auto
qed

end

lemma bytes_reader_contract: "reads_data (bytes_reader data) data"
  by (simp add: reads_data_def bytes_reader_def Let_def window_def)

interpretation bytesr: reader_at "bytes_reader data" data
  by unfold_locales (rule bytes_reader_contract)

lemma section_reader_contract:
  assumes r: "reads_data r data" and n: "0 \<le> base" "0 \<le> n" "base + n \<le> MaxInt64"
  shows "reads_data (section_reader r base n) (window data (nat base) (nat n))"
proof -
  have sub: "length b \<le> k \<and>
      (b \<noteq> [] \<longrightarrow> window (window data (nat base) (nat n)) (nat off) (length b) = b) \<and>
      (length b < k \<longrightarrow> e \<noteq> None)"
    if "ra_read r (off + base) k = (b, e)" "0 \<le> off" "off + int k \<le> n" for off k b e
  proof -
    have "length b \<le> k \<and> (b \<noteq> [] \<longrightarrow> window data (nat (off + base)) (length b) = b) \<and>
        (length b < k \<longrightarrow> e \<noteq> None)"
      using reads_dataD [OF r that(1)] by blast
    moreover have "window (window data (nat base) (nat n)) (nat off) (length b) =
        window data (nat (off + base)) (length b)" if "length b \<le> k"
      using that n \<open>0 \<le> off\<close> \<open>off + int k \<le> n\<close>
      by (subst window_window) (auto simp: nat_add_distrib ac_simps)
    ultimately show ?thesis by metis
  qed
  have "case ra_read (section_reader r base n) off k of (b, e) \<Rightarrow>
      length b \<le> k \<and>
      (b \<noteq> [] \<longrightarrow> 0 \<le> off \<and> window (window data (nat base) (nat n)) (nat off) (length b) = b) \<and>
      (length b < k \<longrightarrow> e \<noteq> None)" for off k
  proof (cases "off < 0 \<or> off \<ge> n")
    case True
    with n show ?thesis by (simp add: section_reader_def Let_def)
  next
    case False
    show ?thesis
    proof (cases "int k > n - off")
      case True
      obtain b e where be: "ra_read r (off + base) (nat (n - off)) = (b, e)" by force
      from sub [OF be] False True n be show ?thesis
        by (auto simp: section_reader_def Let_def algebra_simps split: option.split)
    next
      case le: False
      obtain b e where be: "ra_read r (off + base) k = (b, e)" by force
      from sub [OF be] False le n be show ?thesis
        by (auto simp: section_reader_def Let_def algebra_simps)
    qed
  qed
  then show ?thesis by (simp add: reads_data_def)
qed

section \<open>The image\<close>

record deviceInfo =
  device :: reader
  dsize :: int
  mappedBlkAddr :: u32
  dblocks :: u32

record image =
  sb :: SuperBlock
  isize :: int
  meta :: reader
  devices :: "deviceInfo list"
  deviceIDMask :: u16
  longPrefixes :: "bytes list"

abbreviation blkbits :: "image \<Rightarrow> nat" where
  "blkbits img \<equiv> unat (sb_BlkSizeBits (sb img))"

text \<open>\<open>x << k\<close> on an \<open>int64\<close>, a count of 64 or more giving zero.\<close>

definition shl64 :: "int \<Rightarrow> nat \<Rightarrow> int" where
  "shl64 x k = i64 (push_bit k x)"

definition roundupPowerOfTwo :: "u32 \<Rightarrow> u32" where
  "roundupPowerOfTwo v =
     (let v = v - 1;
          v = v OR drop_bit 1 v;
          v = v OR drop_bit 2 v;
          v = v OR drop_bit 4 v;
          v = v OR drop_bit 8 v;
          v = v OR drop_bit 16 v
      in v + 1)"

subsection \<open>The superblock checksum\<close>

abbreviation (input) checksumEnd :: "'a::numeral" where "checksumEnd \<equiv> 8"
abbreviation (input) superblockChecksumSeed :: "'a::numeral" where
  "superblockChecksumSeed \<equiv> 0x5045B54A"

text \<open>The table of \<open>crc32.MakeTable(crc32.Castagnoli)\<close>, entry by entry, and \<open>crc32.Update\<close>,
  which inverts the register before and after.\<close>

fun crc_shift :: "nat \<Rightarrow> u32 \<Rightarrow> u32" where
  "crc_shift 0 c = c"
| "crc_shift (Suc n) c =
     crc_shift n (if c AND 1 = 1 then drop_bit 1 c XOR 0x82F63B78 else drop_bit 1 c)"

definition crc32_Update :: "u32 \<Rightarrow> bytes \<Rightarrow> u32" where
  "crc32_Update crc p =
     NOT (fold (\<lambda>v c. crc_shift 8 (ucast (ucast c XOR v)) XOR drop_bit 8 c) p (NOT crc))"

definition checksumSpan :: "nat \<Rightarrow> nat" where
  "checksumSpan blkSizeBits =
     (let l = 2 ^ blkSizeBits;
          l = (if l > SuperBlockOffset then l - SuperBlockOffset else l)
      in l - checksumEnd)"

definition superblockChecksum :: "bytes \<Rightarrow> u32" where
  "superblockChecksum span = NOT (crc32_Update (NOT superblockChecksumSeed) span)"

definition verifySuperblockChecksum :: "reader \<Rightarrow> SuperBlock \<Rightarrow> unit result" where
  "verifySuperblockChecksum r s =
     (if sb_FeatureCompat s AND FeatureCompatSBChksum = 0 then Inr ()
      else
        let n = checksumSpan (unat (sb_BlkSizeBits s));
            (data, e) = ra_read r (SuperBlockOffset + checksumEnd) n
        in case e of
             Some err \<Rightarrow>
               if \<not> errors_Is err EOF then Inl err
               else if length data \<noteq> n then Inl ErrCorrupt
               else if superblockChecksum data \<noteq> sb_Checksum s then Inl ErrCorrupt
               else Inr ()
           | None \<Rightarrow>
               if length data \<noteq> n then Inl ErrCorrupt
               else if superblockChecksum data \<noteq> sb_Checksum s then Inl ErrCorrupt
               else Inr ())"

subsection \<open>Addresses\<close>

definition metaStartPos :: "image \<Rightarrow> int" where
  "metaStartPos img = shl64 (uint (sb_MetaBlkAddr (sb img))) (blkbits img)"

definition checkNid :: "image \<Rightarrow> u64 \<Rightarrow> unit result" where
  "checkNid img nid =
     (if uint nid > (MaxInt64 - SizeInodeExtended) div SizeInodeCompact then Inl ErrCorrupt
      else
        let off = i64 (metaStartPos img + i64 (sint nid * SizeInodeCompact)) in
        if off < 0 \<or> off > MaxInt64 - SizeInodeExtended then Inl ErrCorrupt
        else if isize img > 0 \<and> i64 (off + SizeInodeCompact) > isize img then Inl ErrCorrupt
        else Inr ())"

abbreviation (input) maxChunkIndexBytes :: int where "maxChunkIndexBytes \<equiv> 67108864"

definition chunkIndexFits :: "image \<Rightarrow> int \<Rightarrow> int \<Rightarrow> bool" where
  "chunkIndexFits img off needed =
     (if needed < 0 \<or> needed > maxChunkIndexBytes then False
      else if off < 0 \<or> off > MaxInt64 - needed then False
      else isize img \<le> 0 \<or> i64 (off + needed) \<le> isize img)"

definition chunkAddr :: "image \<Rightarrow> u64 \<Rightarrow> int result" where
  "chunkAddr img phys =
     (if uint phys > drop_bit (blkbits img) MaxInt64 then Inl ErrCorrupt
      else Inr (shl64 (sint phys) (blkbits img)))"

definition checkImageRange :: "image \<Rightarrow> int \<Rightarrow> int \<Rightarrow> unit result" where
  "checkImageRange img off n =
     (if off < 0 \<or> n < 0 \<or> off > MaxInt64 - n then Inl ErrCorrupt
      else if isize img > 0 \<and> i64 (off + n) > isize img then Inl ErrCorrupt
      else Inr ())"

text \<open>The loops over the device table, from index \<open>i\<close> on: the device whose mapped range holds
  the address, with its one-based id and the address relative to it.\<close>

fun locateRange_dev ::
  "nat \<Rightarrow> nat \<Rightarrow> deviceInfo list \<Rightarrow> int \<Rightarrow> int \<Rightarrow> (u16 \<times> int) result option" where
  "locateRange_dev bits i [] pa n = None"
| "locateRange_dev bits i (dev # devs) pa n =
     (if mappedBlkAddr dev = 0 then locateRange_dev bits (Suc i) devs pa n
      else
        let startOff = shl64 (uint (mappedBlkAddr dev)) bits;
            len = shl64 (uint (dblocks dev)) bits
        in if pa \<ge> startOff \<and> pa < i64 (startOff + len) then
             (if i64 (pa + n) > i64 (startOff + len) then Some (Inl ErrCorrupt)
              else Some (Inr (of_nat (i + 1), i64 (pa - startOff))))
           else locateRange_dev bits (Suc i) devs pa n)"

definition locateRange :: "image \<Rightarrow> int \<Rightarrow> int \<Rightarrow> (u16 \<times> int) result" where
  "locateRange img pa n =
     (if pa < 0 \<or> n < 0 \<or> pa > MaxInt64 - n then Inl ErrCorrupt
      else case locateRange_dev (blkbits img) 0 (devices img) pa n of
             Some r \<Rightarrow> r
           | None \<Rightarrow> bindE (checkImageRange img pa n) (\<lambda>_. Inr (0, pa)))"

text \<open>An index past the table would panic.\<close>

definition deviceReader :: "image \<Rightarrow> u16 \<Rightarrow> reader result" where
  "deviceReader img dev =
     (if dev = 0 then Inr (meta img)
      else if unat dev - 1 < length (devices img) then Inr (device (devices img ! (unat dev - 1)))
      else Inl Panic)"

fun locate_dev :: "nat \<Rightarrow> nat \<Rightarrow> deviceInfo list \<Rightarrow> int \<Rightarrow> (u16 \<times> int) option" where
  "locate_dev bits i [] pa = None"
| "locate_dev bits i (dev # devs) pa =
     (if mappedBlkAddr dev = 0 then locate_dev bits (Suc i) devs pa
      else
        let startOff = shl64 (uint (mappedBlkAddr dev)) bits;
            len = shl64 (uint (dblocks dev)) bits
        in if pa \<ge> startOff \<and> pa < i64 (startOff + len)
           then Some (of_nat (i + 1), i64 (pa - startOff))
           else locate_dev bits (Suc i) devs pa)"

definition locate :: "image \<Rightarrow> u16 \<Rightarrow> int \<Rightarrow> (u16 \<times> int) result" where
  "locate img deviceID pa =
     (if deviceID > 0 then
        (if unat deviceID > length (devices img) then Inl ErrCorrupt else Inr (deviceID, pa))
      else case locate_dev (blkbits img) 0 (devices img) pa of
             Some r \<Rightarrow> Inr r
           | None \<Rightarrow>
               if pa < 0 \<or> (isize img > 0 \<and> pa \<ge> isize img) then Inl ErrCorrupt
               else Inr (0, pa))"

definition flatWindow :: "image \<Rightarrow> reader \<Rightarrow> u32 \<Rightarrow> reader" where
  "flatWindow img r mapped =
     (let start = shl64 (uint mapped) (blkbits img);
          len = (if isize img > 0 then max (i64 (isize img - start)) 0 else i64 (MaxInt64 - start))
      in section_reader r start len)"

definition boundOnDevice :: "image \<Rightarrow> u16 \<Rightarrow> int \<Rightarrow> int \<Rightarrow> unit result" where
  "boundOnDevice img dev off n =
     (if dev = 0 then checkImageRange img off n
      else if unat dev > length (devices img) then Inl ErrCorrupt
      else if off < 0 \<or> n < 0 \<or> off > MaxInt64 - n then Inl ErrCorrupt
      else
        let d = devices img ! (unat dev - 1); extent = dsize d in
        if extent > 0 then (if i64 (off + n) > extent then Inl ErrCorrupt else Inr ())
        else
          let blocks = uint (dblocks d) in
          if blocks = 0 then Inr ()
          else if i64 (off + n) > shl64 blocks (blkbits img) then Inl ErrCorrupt
          else Inr ())"

definition blockSize :: "image \<Rightarrow> u32" where
  "blockSize img = push_bit (blkbits img) 1"

definition deviceBlocks :: "image \<Rightarrow> u64 list" where
  "deviceBlocks img = map (\<lambda>d. ucast (dblocks d)) (devices img)"

subsection \<open>Opening\<close>

definition decodeSuperBlock :: "bytes \<Rightarrow> SuperBlock result" where
  "decodeSuperBlock b =
     bindE (SuperBlock_Unmarshal b) (\<lambda>s.
       if sb_MagicNumber s \<noteq> MagicNumber then Inl ErrInvalidSuperblock else Inr s)"

text \<open>The loop over the device table: slot \<open>idx\<close> is read for the readers that are left, each
  the caller's device or, in flatdev mode (\<open>None\<close>), a window of the image.\<close>

fun openDevices ::
  "image \<Rightarrow> reader \<Rightarrow> int \<Rightarrow> nat \<Rightarrow> reader option list \<Rightarrow> deviceInfo list result" where
  "openDevices img r devTableOffset idx [] = Inr []"
| "openDevices img r devTableOffset idx (given # rest) =
     (let off = devTableOffset + int idx * SizeDeviceSlot in
      case ra_read r off SizeDeviceSlot of
        (_, Some e) \<Rightarrow> Inl e
      | (b, None) \<Rightarrow>
          bindE (DeviceSlot_Unmarshal (read_into SizeDeviceSlot b)) (\<lambda>slot.
          let dev = (case given of None \<Rightarrow> flatWindow img r (ds_MappedBlkAddr slot)
                                 | Some d \<Rightarrow> d);
              info = \<lparr> device = dev, dsize = fst (imageSize dev),
                       mappedBlkAddr = ds_MappedBlkAddr slot, dblocks = ds_Blocks slot \<rparr>
          in bindE (openDevices img r devTableOffset (Suc idx) rest) (\<lambda>infos.
             Inr (info # infos))))"

text \<open>The geometry the superblock declares, bounded by the image's length, or taken for it
  when the reader cannot say.\<close>

definition openGeometry :: "image \<Rightarrow> image result" where
  "openGeometry i =
     (let declared = shl64 (uint (sb_Blocks (sb i))) (blkbits i) in
      bindE (if isize i > 0 then
               (if declared > isize i then Inl ErrInvalidSuperblock else Inr i)
             else Inr (i\<lparr>isize := declared\<rparr>)) (\<lambda>i.
      if isize i > 0 \<and> (metaStartPos i < 0 \<or> metaStartPos i \<ge> isize i)
      then Inl ErrInvalidSuperblock
      else
        let xoff = shl64 (uint (sb_XattrBlkAddr (sb i))) (blkbits i) in
        if isize i > 0 \<and> (xoff < 0 \<or> xoff \<ge> isize i) then Inl ErrInvalidSuperblock
        else
          bindE (checkNid i (ucast (sb_RootNid (sb i)))) (\<lambda>_.
          if sb_DirBlkBits (sb i) \<noteq> 0 then Inl ErrInvalidSuperblock else Inr i)))"

text \<open>The device table of a superblock whose own fields have been accepted, then its geometry.\<close>

definition openTable :: "reader \<Rightarrow> reader list \<Rightarrow> SuperBlock \<Rightarrow> image result" where
  "openTable r extraDevices s =
     (let table = sb_FeatureIncompat s AND FeatureIncompatDeviceTable \<noteq> 0;
          ondisk = (if table then unat (sb_ExtraDevices s) else 0);
          mask = (if table
                  then ucast (roundupPowerOfTwo (ucast (sb_ExtraDevices s) + 1) - 1) else 0);
          i = \<lparr> sb = s, isize = fst (imageSize r), meta = r, devices = [],
                deviceIDMask = mask, longPrefixes = [] \<rparr>;
          flatdev = (extraDevices = [] \<and> ondisk > 0)
      in if \<not> flatdev \<and> ondisk \<noteq> length extraDevices then Inl ErrInvalidSuperblock
         else
           bindE (openDevices i r (uint (sb_DevtSlotOff s) * SizeDeviceSlot) 0
                    (if flatdev then replicate ondisk None else map Some extraDevices)) (\<lambda>devs.
           if sb_FeatureIncompat s AND FeatureIncompatLZ4_0Padding \<noteq> 0 \<or> sb_ComprAlgs s \<noteq> 0
           then Inl ErrNotImplemented
           else openGeometry (i\<lparr>devices := devs\<rparr>)))"

text \<open>\<open>Open\<close> up to the long prefix table, with the extra devices the options name.\<close>

definition openSuper :: "reader \<Rightarrow> reader list \<Rightarrow> image result" where
  "openSuper r extraDevices =
     (case ra_read r SuperBlockOffset SizeSuperBlock of
        (_, Some e) \<Rightarrow> Inl e
      | (b, None) \<Rightarrow>
          if length b \<noteq> SizeSuperBlock then Inl ErrInvalidSuperblock
          else
          bindE (decodeSuperBlock b) (\<lambda>s.
          if sb_BlkSizeBits s < 9 \<or> sb_BlkSizeBits s > 16 then Inl ErrInvalidSuperblock
          else
          bindE (verifySuperblockChecksum r s) (\<lambda>_.
          if sb_FeatureIncompat s AND NOT FeatureIncompatAll \<noteq> 0 then Inl ErrNotImplemented
          else if SizeSuperBlock + int (unat (sb_ExtSlots s)) * SizeSuperExtSlot
                  > max (2 ^ unat (sb_BlkSizeBits s)) MinPageSize - SuperBlockOffset
          then Inl ErrInvalidSuperblock
          else if sb_FeatureCompat s AND FeatureCompatIshareXattrs \<noteq> 0 \<and>
                  sb_IshareXattrPrefixID s \<ge> sb_XattrPrefixCount s
          then Inl ErrInvalidSuperblock
          else openTable r extraDevices s)))"

section \<open>Lemmas\<close>

subsection \<open>Shifts and wrap-around\<close>

lemma mult_pow16:
  fixes x :: int
  assumes "0 \<le> x" and "x < 2 ^ 32" and "k \<le> 16"
  shows "x * 2 ^ k \<le> (2 ^ 32 - 1) * 2 ^ 16"
proof -
  have "(2 :: int) ^ k \<le> 2 ^ 16" using assms(3) by (intro power_increasing) auto
  then show ?thesis using assms by (intro mult_mono) auto
qed

lemma shl64_u32:
  assumes "k \<le> 16"
  shows "shl64 (uint (w :: u32)) k = uint w * 2 ^ k"
proof -
  have "uint w * 2 ^ k \<le> (2 ^ 32 - 1) * 2 ^ 16"
    by (rule mult_pow16) (use assms uint_lt_u32 [of w] in auto)
  then show ?thesis by (simp add: shl64_def push_bit_eq_mult i64_id_nonneg)
qed

lemma shl64_u32_bounds:
  assumes "k \<le> 16"
  shows "0 \<le> shl64 (uint (w :: u32)) k" and "shl64 (uint (w :: u32)) k \<le> 281474976645120"
proof -
  have "uint w * 2 ^ k \<le> (2 ^ 32 - 1) * 2 ^ 16"
    by (rule mult_pow16) (use assms uint_lt_u32 [of w] in auto)
  then show "0 \<le> shl64 (uint w) k" and "shl64 (uint w) k \<le> 281474976645120"
    using assms by (simp_all add: shl64_u32)
qed

lemma sint_small: "uint (w :: u64) \<le> MaxInt64 \<Longrightarrow> sint w = uint w"
  by (metis i64_of_uint64 i64_id_nonneg uint_nonnegative)

subsection \<open>Rounding up to a power of two\<close>

lemma smear_step:
  fixes v x :: u32
  assumes "\<And>n. bit v n \<longleftrightarrow> (\<exists>m. n \<le> m \<and> m < n + s \<and> bit x m)" and t: "t = s + s"
  shows "bit (v OR drop_bit s v) n \<longleftrightarrow> (\<exists>m. n \<le> m \<and> m < n + t \<and> bit x m)"
proof -
  have "bit (v OR drop_bit s v) n \<longleftrightarrow> bit v n \<or> bit v (s + n)"
    by (simp add: bit_simps)
  also have "\<dots> \<longleftrightarrow> (\<exists>m. n \<le> m \<and> m < n + (s + s) \<and> bit x m)" (is "_ \<longleftrightarrow> ?R")
  proof
    assume ?R
    then obtain m where "n \<le> m" "m < n + (s + s)" "bit x m" by blast
    then show "bit v n \<or> bit v (s + n)"
      unfolding assms(1) by (cases "m < n + s") (auto simp: not_less ac_simps)
  next
    assume "bit v n \<or> bit v (s + n)"
    then obtain m where "n \<le> m \<and> m < n + s \<or> s + n \<le> m \<and> m < s + n + s" "bit x m"
      unfolding assms(1) by blast
    then have "n \<le> m \<and> m < n + (s + s) \<and> bit x m" by auto
    then show ?R by blast
  qed
  finally show ?thesis unfolding t .
qed

lemma smear:
  fixes x :: u32
  obtains y where "roundupPowerOfTwo (x + 1) = y + 1" and "\<And>n. bit y n \<longleftrightarrow> (\<exists>m\<ge>n. bit x m)"
proof -
  have one: "bit x n \<longleftrightarrow> (\<exists>m. n \<le> m \<and> m < n + 1 \<and> bit x m)" for n
    by (auto simp: less_Suc_eq_le)
  let ?or = "\<lambda>s v :: u32. v OR drop_bit s v"
  define y where "y = ?or 16 (?or 8 (?or 4 (?or 2 (?or 1 x))))"
  note steps = smear_step [where t = 2, OF one] smear_step [where t = 4] smear_step [where t = 8]
    smear_step [where t = 16] smear_step [where t = 32]
  have "bit y n \<longleftrightarrow> (\<exists>m. n \<le> m \<and> m < n + 32 \<and> bit x m)" for n
    unfolding y_def
    by (rule steps(5), rule steps(4), rule steps(3), rule steps(2), rule steps(1)) simp_all
  moreover have "bit x m \<Longrightarrow> m < n + 32" for m n
    using bit_imp_le_length [of x m] by simp
  ultimately have "bit y n \<longleftrightarrow> (\<exists>m\<ge>n. bit x m)" for n by blast
  moreover have "roundupPowerOfTwo (x + 1) = y + 1"
    by (simp add: roundupPowerOfTwo_def Let_def y_def)
  ultimately show thesis by (rule that [rotated])
qed

lemma highest_bit:
  fixes x :: u32
  assumes "x \<noteq> 0"
  obtains h where "bit x h" and "\<And>m. bit x m \<Longrightarrow> m \<le> h"
    and "2 ^ h \<le> unat x" and "unat x < 2 ^ Suc h"
proof -
  let ?B = "{m. bit x m}"
  have fin: "finite ?B"
    by (rule finite_subset [of _ "{..<32}"]) (auto dest: bit_imp_le_length)
  moreover have "?B \<noteq> {}"
    using assms by (auto simp: bit_eq_iff)
  ultimately have h: "bit x (Max ?B)" and m: "\<And>m. bit x m \<Longrightarrow> m \<le> Max ?B"
    using Max_in [of ?B] Max_ge [of ?B] by auto
  have b: "bit (unat x) n \<longleftrightarrow> bit x n" for n
    by (auto simp: bit_simps dest: bit_imp_le_length)
  have "2 ^ Max ?B \<le> unat x"
  proof (rule ccontr)
    assume "\<not> 2 ^ Max ?B \<le> unat x"
    then have "take_bit (Max ?B) (unat x) = unat x" by (simp add: take_bit_nat_eq_self_iff)
    moreover have "\<not> bit (take_bit (Max ?B) (unat x)) (Max ?B)" by (simp add: bit_take_bit_iff)
    ultimately show False using h b by metis
  qed
  moreover have "take_bit (Suc (Max ?B)) (unat x) = unat x"
    by (rule bit_eqI) (auto simp: bit_take_bit_iff b less_Suc_eq_le m)
  then have "unat x < 2 ^ Suc (Max ?B)" by (simp only: take_bit_nat_eq_self_iff)
  ultimately show thesis using that h m by blast
qed

lemma roundupPowerOfTwo_least:
  assumes "0 < unat v" and "unat v \<le> 2 ^ 31"
  shows "\<exists>k \<le> 31. unat (roundupPowerOfTwo v) = 2 ^ k \<and> unat v \<le> 2 ^ k \<and>
           (\<forall>j. unat v \<le> 2 ^ j \<longrightarrow> k \<le> j)"
proof -
  define x where "x = v - 1"
  have v: "v = x + 1" "unat x = unat v - 1"
    using assms by (auto simp: x_def unat_minus_one unat_gt_0)
  obtain y where y: "roundupPowerOfTwo (x + 1) = y + 1" "\<And>n. bit y n \<longleftrightarrow> (\<exists>m\<ge>n. bit x m)"
    using smear [of x] by metis
  show ?thesis
  proof (cases "x = 0")
    case True
    with y have "y = 0" by (auto simp: bit_eq_iff)
    with True v y show ?thesis by auto
  next
    case False
    obtain h where h: "bit x h" "\<And>m. bit x m \<Longrightarrow> m \<le> h" "2 ^ h \<le> unat x" "unat x < 2 ^ Suc h"
      using highest_bit [OF False] by metis
    have "(2 :: nat) ^ h < 2 ^ 31" using h(3) v(2) assms by linarith
    then have h30: "h \<le> 30" by (simp only: power_strict_increasing_iff)
    have "bit y n \<longleftrightarrow> n < Suc h" for n
      using y(2) h(1, 2) by (auto simp: less_Suc_eq_le intro: le_trans)
    with h30 have "y = mask (Suc h)" by (auto simp: bit_eq_iff bit_simps)
    then have "y + 1 = 2 ^ Suc h" by (simp add: mask_eq_exp_minus_1)
    moreover have "unat (2 ^ Suc h :: u32) = 2 ^ Suc h"
      using h30 by (intro bit_eqI) (auto simp: bit_simps simp del: power_Suc)
    ultimately have "unat (roundupPowerOfTwo v) = 2 ^ Suc h"
      using y(1) v(1) by (simp del: power_Suc)
    moreover have "Suc h \<le> j" if "unat v \<le> 2 ^ j" for j
    proof (rule ccontr)
      assume "\<not> Suc h \<le> j"
      then have "(2 :: nat) ^ j \<le> 2 ^ h" by (intro power_increasing) auto
      with that h(3) v(2) assms show False by linarith
    qed
    ultimately show ?thesis
      using h(4) v(2) assms h30 by (intro exI [of _ "Suc h"]) auto
  qed
qed

subsection \<open>Bounds\<close>

text \<open>The addresses as the integers they stand for, without the width of \<open>int64\<close>.\<close>

definition nid_addr :: "image \<Rightarrow> u64 \<Rightarrow> int" where
  "nid_addr img nid = uint (sb_MetaBlkAddr (sb img)) * 2 ^ blkbits img + uint nid * 32"

lemma metaStartPos_eq:
  "blkbits img \<le> 16 \<Longrightarrow> metaStartPos img = uint (sb_MetaBlkAddr (sb img)) * 2 ^ blkbits img"
  by (simp add: metaStartPos_def shl64_u32)

lemma metaStartPos_bounds:
  "blkbits img \<le> 16 \<Longrightarrow> 0 \<le> metaStartPos img \<and> metaStartPos img \<le> 281474976645120"
  by (simp add: metaStartPos_def shl64_u32_bounds)

lemma checkNid_iff:
  assumes "blkbits img \<le> 16"
  shows "checkNid img nid = Inr () \<longleftrightarrow>
    nid_addr img nid + 64 \<le> MaxInt64 \<and> (isize img > 0 \<longrightarrow> nid_addr img nid + 32 \<le> isize img)"
proof -
  have m: "0 \<le> metaStartPos img" "metaStartPos img \<le> 281474976645120"
    using metaStartPos_bounds [OF assms] by auto
  have a: "nid_addr img nid = metaStartPos img + uint nid * 32"
    using assms by (simp add: nid_addr_def metaStartPos_eq)
  have u: "0 \<le> nid_addr img nid" using m by (simp add: a)
  show ?thesis
  proof (cases "uint nid > (MaxInt64 - 64) div 32")
    case True
    then show ?thesis using m by (simp add: checkNid_def a)
  next
    case False
    then have s: "sint nid = uint nid" by (intro sint_small) simp
    have n: "i64 (uint nid * 32) = uint nid * 32" using False by (intro i64_id_nonneg) simp_all
    show ?thesis
    proof (cases "nid_addr img nid + 64 \<le> MaxInt64")
      case True
      then have "i64 (metaStartPos img + uint nid * 32) = nid_addr img nid"
        "i64 (nid_addr img nid + 32) = nid_addr img nid + 32"
        using m by (simp_all add: a i64_id_nonneg)
      with True False m s n u show ?thesis by (auto simp: checkNid_def Let_def)
    next
      case big: False
      show ?thesis
      proof (cases "nid_addr img nid \<le> MaxInt64")
        case True
        then have "i64 (metaStartPos img + uint nid * 32) = nid_addr img nid"
          using m by (simp add: a i64_id_nonneg)
        with big False m s n u show ?thesis by (auto simp: checkNid_def Let_def)
      next
        case over: False
        have "i64 (metaStartPos img + uint nid * 32) < 0"
          using over False m by (subst i64_over) (simp_all add: a)
        with big False m s n u show ?thesis by (auto simp: checkNid_def Let_def)
      qed
    qed
  qed
qed

lemma checkNid_cases: "checkNid img nid = Inr () \<or> checkNid img nid = Inl ErrCorrupt"
  by (simp add: checkNid_def Let_def)

lemma checkImageRange_iff:
  "checkImageRange img off n = Inr () \<longleftrightarrow>
     0 \<le> off \<and> 0 \<le> n \<and> off + n \<le> MaxInt64 \<and> (isize img > 0 \<longrightarrow> off + n \<le> isize img)"
  by (auto simp: checkImageRange_def i64_id_nonneg)

lemma chunkIndexFits_iff:
  "chunkIndexFits img off needed \<longleftrightarrow>
     0 \<le> needed \<and> needed \<le> maxChunkIndexBytes \<and> 0 \<le> off \<and> off + needed \<le> MaxInt64 \<and>
     (isize img > 0 \<longrightarrow> off + needed \<le> isize img)"
  by (auto simp: chunkIndexFits_def i64_id_nonneg)

lemma chunkAddr_iff:
  assumes "blkbits img \<le> 16"
  shows "chunkAddr img phys = Inr a \<longleftrightarrow>
    uint phys * 2 ^ blkbits img \<le> MaxInt64 \<and> a = uint phys * 2 ^ blkbits img"
proof -
  have k: "uint phys \<le> MaxInt64 div 2 ^ blkbits img \<longleftrightarrow> uint phys * 2 ^ blkbits img \<le> MaxInt64"
    by (rule int_le_div_iff) simp
  show ?thesis
  proof (cases "uint phys * 2 ^ blkbits img \<le> MaxInt64")
    case True
    have "uint phys * 1 \<le> uint phys * 2 ^ blkbits img"
      by (intro mult_left_mono) auto
    with True have "sint phys = uint phys" by (intro sint_small) linarith
    with True k show ?thesis
      by (auto simp: chunkAddr_def shl64_def push_bit_eq_mult drop_bit_eq_div i64_id_nonneg)
  next
    case False
    with k show ?thesis by (simp add: chunkAddr_def drop_bit_eq_div)
  qed
qed

text \<open>What a device id and an offset on it that the reader may hand to a device must satisfy:
  the id names a device of the table, and the bytes lie in the extent known for it.\<close>

definition mapped_range :: "image \<Rightarrow> deviceInfo \<Rightarrow> int set" where
  "mapped_range img d =
     {uint (mappedBlkAddr d) * 2 ^ blkbits img ..<
      uint (mappedBlkAddr d) * 2 ^ blkbits img + uint (dblocks d) * 2 ^ blkbits img}"

lemma mapped_eqs:
  assumes "k \<le> 16"
  shows "i64 (shl64 (uint (a :: u32)) k + shl64 (uint (b :: u32)) k) = uint a * 2 ^ k + uint b * 2 ^ k"
    and "pa \<ge> shl64 (uint a) k \<Longrightarrow> pa < i64 (shl64 (uint a) k + shl64 (uint b) k) \<Longrightarrow>
         i64 (pa - shl64 (uint a) k) = pa - uint a * 2 ^ k"
proof -
  note b = shl64_u32_bounds [OF assms]
  show e: "i64 (shl64 (uint a) k + shl64 (uint b) k) = uint a * 2 ^ k + uint b * 2 ^ k"
    using b [of a] b [of b] assms by (simp add: i64_id_nonneg shl64_u32)
  assume "pa \<ge> shl64 (uint a) k" "pa < i64 (shl64 (uint a) k + shl64 (uint b) k)"
  with b [of a] b [of b] e show "i64 (pa - shl64 (uint a) k) = pa - uint a * 2 ^ k"
    using assms by (simp add: i64_id_nonneg shl64_u32)
qed

lemma locateRange_dev_sound:
  assumes "bits \<le> 16" and "0 \<le> pa" and "0 \<le> n" and "pa + n \<le> MaxInt64"
    and "locateRange_dev bits i devs pa n = Some (Inr (dev, off))"
  shows "\<exists>j < length devs. dev = of_nat (i + j + 1) \<and> mappedBlkAddr (devs ! j) \<noteq> 0 \<and>
     pa = uint (mappedBlkAddr (devs ! j)) * 2 ^ bits + off \<and> 0 \<le> off \<and>
     off + n \<le> uint (dblocks (devs ! j)) * 2 ^ bits"
  using assms(5)
proof (induction devs arbitrary: i)
  case (Cons d devs)
  let ?s = "shl64 (uint (mappedBlkAddr d)) bits" and ?l = "shl64 (uint (dblocks d)) bits"
  show ?case
  proof (cases "mappedBlkAddr d \<noteq> 0 \<and> pa \<ge> ?s \<and> pa < i64 (?s + ?l)")
    case True
    with Cons.prems have off: "off = i64 (pa - ?s)" "dev = of_nat (i + 1)" "i64 (pa + n) \<le> i64 (?s + ?l)"
      by (auto simp: Let_def split: if_splits)
    from off(3) have "pa + n \<le> uint (mappedBlkAddr d) * 2 ^ bits + uint (dblocks d) * 2 ^ bits"
      using mapped_eqs(1) [OF assms(1)] assms(2-4) by (simp add: i64_id_nonneg)
    with off(1, 2) show ?thesis
      using True mapped_eqs(2) [OF assms(1)] assms(1) by (intro exI [of _ 0]) (auto simp: shl64_u32)
  next
    case False
    with Cons.prems have "locateRange_dev bits (Suc i) devs pa n = Some (Inr (dev, off))"
      by (auto simp: Let_def split: if_splits)
    from Cons.IH [OF this] obtain j where "j < length devs" "dev = of_nat (Suc i + j + 1)"
      "mappedBlkAddr (devs ! j) \<noteq> 0" "pa = uint (mappedBlkAddr (devs ! j)) * 2 ^ bits + off" "0 \<le> off"
      "off + n \<le> uint (dblocks (devs ! j)) * 2 ^ bits" by blast
    then show ?thesis by (intro exI [of _ "Suc j"]) auto
  qed
qed simp


text \<open>\<open>locateRange\<close> answers with a device of the table that the range lies in, or with the image.\<close>

definition in_extent :: "image \<Rightarrow> u16 \<Rightarrow> int \<Rightarrow> int \<Rightarrow> int \<Rightarrow> bool" where
  "in_extent img dev pa off n \<longleftrightarrow>
     (if dev = 0 then off = pa \<and> 0 \<le> off \<and> off + n \<le> MaxInt64 \<and> (isize img > 0 \<longrightarrow> off + n \<le> isize img)
      else unat dev \<le> length (devices img) \<and>
        (let d = devices img ! (unat dev - 1) in
         mappedBlkAddr d \<noteq> 0 \<and> pa = uint (mappedBlkAddr d) * 2 ^ blkbits img + off \<and>
         0 \<le> off \<and> off + n \<le> uint (dblocks d) * 2 ^ blkbits img))"

lemma unat_of_nat_u16: "n < 65536 \<Longrightarrow> unat (of_nat n :: u16) = n"
  by (simp add: unat_of_nat take_bit_nat_eq_self)

lemma locateRange_sound:
  assumes "blkbits img \<le> 16" and "length (devices img) < 65536"
    and "locateRange img pa n = Inr (dev, off)"
  shows "0 \<le> n" and "in_extent img dev pa off n"
proof -
  have pn: "0 \<le> pa" "0 \<le> n" "pa + n \<le> MaxInt64"
    using assms(3) by (auto simp: locateRange_def split: if_splits)
  then show "0 \<le> n" by simp
  show "in_extent img dev pa off n"
  proof (cases "locateRange_dev (blkbits img) 0 (devices img) pa n")
    case None
    with assms(3) pn show ?thesis
      by (auto simp: locateRange_def in_extent_def checkImageRange_iff split: if_splits)
  next
    case (Some r)
    with assms(3) pn have r: "r = Inr (dev, off)" by (simp add: locateRange_def)
    obtain j where j: "j < length (devices img)" "dev = of_nat (Suc j)"
      "mappedBlkAddr (devices img ! j) \<noteq> 0"
      "pa = uint (mappedBlkAddr (devices img ! j)) * 2 ^ blkbits img + off" "0 \<le> off"
      "off + n \<le> uint (dblocks (devices img ! j)) * 2 ^ blkbits img"
      using locateRange_dev_sound [OF assms(1) pn Some [unfolded r]] by auto
    have "unat dev = Suc j" unfolding j(2) using j(1) assms(2) by (intro unat_of_nat_u16) simp
    moreover from this have "dev \<noteq> 0" by auto
    ultimately show ?thesis using j by (simp add: in_extent_def)
  qed
qed

lemma deviceReader_ok:
  "unat dev \<le> length (devices img) \<Longrightarrow> \<exists>rd. deviceReader img dev = Inr rd"
  by (auto simp: deviceReader_def unat_eq_0 [symmetric] split: if_splits)

lemma locateRange_reader:
  assumes "blkbits img \<le> 16" and "length (devices img) < 65536"
    and "locateRange img pa n = Inr (dev, off)"
  shows "\<exists>rd. deviceReader img dev = Inr rd"
  using locateRange_sound(2) [OF assms]
  by (intro deviceReader_ok) (auto simp: in_extent_def split: if_splits)

lemma locate_dev_bound:
  "locate_dev bits i devs pa = Some (dev, off) \<Longrightarrow> \<exists>j < length devs. dev = of_nat (i + j + 1)"
proof (induction devs arbitrary: i)
  case (Cons d devs)
  show ?case
  proof (cases "locate_dev bits (Suc i) devs pa = Some (dev, off)")
    case True
    from Cons.IH [OF this] obtain j where "j < length devs" "dev = of_nat (Suc i + j + 1)" by blast
    then show ?thesis by (intro exI [of _ "Suc j"]) auto
  next
    case False
    with Cons.prems have "dev = of_nat (i + 1)" by (auto simp: Let_def split: if_splits)
    then show ?thesis by (intro exI [of _ 0]) auto
  qed
qed simp

lemma locate_reader:
  assumes "length (devices img) < 65536" and "locate img did pa = Inr (dev, off)"
  shows "unat dev \<le> length (devices img)"
proof (cases "did > 0")
  case True
  with assms(2) show ?thesis by (auto simp: locate_def split: if_splits)
next
  case False
  show ?thesis
  proof (cases "locate_dev (blkbits img) 0 (devices img) pa")
    case None
    with False assms(2) show ?thesis by (auto simp: locate_def split: if_splits)
  next
    case (Some r)
    with False assms(2) have "locate_dev (blkbits img) 0 (devices img) pa = Some (dev, off)"
      by (simp add: locate_def)
    from locate_dev_bound [OF this] obtain j where j: "j < length (devices img)" "dev = of_nat (Suc j)"
      by auto
    then have "unat dev = Suc j" unfolding j(2) using j(1) assms(1) by (intro unat_of_nat_u16) simp
    with j show ?thesis by simp
  qed
qed

subsection \<open>What opening establishes\<close>

definition image_ok :: "image \<Rightarrow> bool" where
  "image_ok img \<longleftrightarrow>
     9 \<le> blkbits img \<and> blkbits img \<le> 16 \<and> length (devices img) < 65536 \<and>
     0 \<le> isize img \<and>
     (isize img > 0 \<longrightarrow>
        uint (sb_Blocks (sb img)) * 2 ^ blkbits img \<le> isize img \<and>
        uint (sb_MetaBlkAddr (sb img)) * 2 ^ blkbits img < isize img \<and>
        uint (sb_XattrBlkAddr (sb img)) * 2 ^ blkbits img < isize img) \<and>
     checkNid img (ucast (sb_RootNid (sb img))) = Inr () \<and>
     sb_DirBlkBits (sb img) = 0"

lemma image_okD [dest]:
  assumes "image_ok img"
  shows "9 \<le> blkbits img" "blkbits img \<le> 16" "length (devices img) < 65536" "0 \<le> isize img"
  using assms by (auto simp: image_ok_def)

lemma openGeometry_ok:
  assumes "openGeometry i = Inr img" and "9 \<le> blkbits i" "blkbits i \<le> 16"
    and "length (devices i) < 65536"
  shows "image_ok img \<and> img = i\<lparr>isize := isize img\<rparr>"
proof -
  let ?d = "shl64 (uint (sb_Blocks (sb i))) (blkbits i)"
  define j where "j = (if isize i > 0 then i else i\<lparr>isize := ?d\<rparr>)"
  have d: "0 \<le> ?d" using assms(3) by (rule shl64_u32_bounds)
  have img: "img = j" and g: "isize j > 0 \<longrightarrow> ?d \<le> isize j \<and> metaStartPos j < isize j \<and>
       shl64 (uint (sb_XattrBlkAddr (sb j))) (blkbits j) < isize j"
    "checkNid j (ucast (sb_RootNid (sb j))) = Inr ()" "sb_DirBlkBits (sb j) = 0"
    using assms(1) by (auto simp: openGeometry_def Let_def j_def split: if_splits)
  have s: "sb j = sb i" "devices j = devices i" by (simp_all add: j_def)
  from g s assms d show ?thesis
    by (auto simp: image_ok_def img shl64_u32 metaStartPos_eq j_def)
qed

lemma openDevices_length:
  "openDevices img r off idx given = Inr infos \<Longrightarrow> length infos = length given"
  by (induction img r off idx given arbitrary: infos rule: openDevices.induct)
    (auto simp: Let_def split: prod.splits option.splits)

lemma u8_bits: "9 \<le> (w :: byte) \<Longrightarrow> w \<le> 16 \<Longrightarrow> 9 \<le> unat w \<and> unat w \<le> 16"
  by (simp add: word_le_nat_alt)

lemma openTable_ok:
  assumes "openTable r extra s = Inr img" and "9 \<le> unat (sb_BlkSizeBits s)" "unat (sb_BlkSizeBits s) \<le> 16"
  shows "image_ok img" and "meta img = r" and "sb img = s"
    and "extra \<noteq> [] \<Longrightarrow> length (devices img) = length extra"
    and "deviceIDMask img = (if sb_FeatureIncompat s AND FeatureIncompatDeviceTable = 0 then 0
           else ucast (roundupPowerOfTwo (ucast (sb_ExtraDevices s) + 1) - 1))"
    and "length (devices img) = (if sb_FeatureIncompat s AND FeatureIncompatDeviceTable = 0 then 0
           else unat (sb_ExtraDevices s))"
proof -
  define nd where "nd = (if sb_FeatureIncompat s AND FeatureIncompatDeviceTable = 0 then 0
           else unat (sb_ExtraDevices s))"
  define mask where "mask = (if sb_FeatureIncompat s AND FeatureIncompatDeviceTable = 0 then 0
           else ucast (roundupPowerOfTwo (ucast (sb_ExtraDevices s) + 1) - 1) :: u16)"
  define i where "i = \<lparr> sb = s, isize = fst (imageSize r), meta = r, devices = [],
                deviceIDMask = mask, longPrefixes = [] \<rparr>"
  define given where "given = (if extra = [] \<and> nd > 0 then replicate nd None else map Some extra)"
  have "openTable r extra s =
      (if \<not> (extra = [] \<and> nd > 0) \<and> nd \<noteq> length extra then Inl ErrInvalidSuperblock
       else bindE (openDevices i r (uint (sb_DevtSlotOff s) * 128) 0 given) (\<lambda>devs.
         if sb_FeatureIncompat s AND FeatureIncompatLZ4_0Padding \<noteq> 0 \<or> sb_ComprAlgs s \<noteq> 0
         then Inl ErrNotImplemented else openGeometry (i\<lparr>devices := devs\<rparr>)))"
    unfolding openTable_def Let_def i_def given_def nd_def mask_def by simp
  then obtain devs where d: "openDevices i r (uint (sb_DevtSlotOff s) * 128) 0 given = Inr devs"
    and g: "openGeometry (i\<lparr>devices := devs\<rparr>) = Inr img"
    and "\<not> (\<not> (extra = [] \<and> nd > 0) \<and> nd \<noteq> length extra)"
    using assms(1) by (auto split: if_splits)
  then have n: "length given = nd" "extra \<noteq> [] \<Longrightarrow> length given = length extra"
    by (auto simp: given_def)
  have i: "sb i = s" "meta i = r" "deviceIDMask i = mask" by (simp_all add: i_def)
  have l: "length devs = length given" by (rule openDevices_length [OF d])
  have "length given < 65536" using n(1) unat_lt_u16 [of "sb_ExtraDevices s"] by (simp add: nd_def)
  then have ok: "image_ok img \<and> img = i\<lparr>devices := devs, isize := isize img\<rparr>"
    using openGeometry_ok [OF g] assms(2,3) i l by simp
  then show "image_ok img" by simp
  obtain z where img: "img = i\<lparr>devices := devs, isize := z\<rparr>" using ok by blast
  show "meta img = r" "sb img = s" "extra \<noteq> [] \<Longrightarrow> length (devices img) = length extra"
    "deviceIDMask img = (if sb_FeatureIncompat s AND FeatureIncompatDeviceTable = 0 then 0
           else ucast (roundupPowerOfTwo (ucast (sb_ExtraDevices s) + 1) - 1))"
    "length (devices img) = (if sb_FeatureIncompat s AND FeatureIncompatDeviceTable = 0 then 0
           else unat (sb_ExtraDevices s))"
    using i l n by (simp_all add: img nd_def mask_def)
qed

lemma openSuperE:
  assumes "openSuper r extra = Inr img"
  obtains b s where "ra_read r 1024 128 = (b, None)" "length b = 128" "decodeSuperBlock b = Inr s"
    "9 \<le> unat (sb_BlkSizeBits s)" "unat (sb_BlkSizeBits s) \<le> 16"
    "verifySuperblockChecksum r s = Inr ()" "openTable r extra s = Inr img"
  using assms unfolding openSuper_def
  by (auto split: prod.splits option.splits if_splits simp: not_less dest: u8_bits)

lemma openSuper_ok:
  assumes "openSuper r extra = Inr img"
  shows "image_ok img" and "meta img = r" and "sb_MagicNumber (sb img) = MagicNumber"
    and "extra \<noteq> [] \<Longrightarrow> length (devices img) = length extra"
    and "verifySuperblockChecksum r (sb img) = Inr ()"
proof -
  obtain b s where o: "decodeSuperBlock b = Inr s" "9 \<le> unat (sb_BlkSizeBits s)"
    "unat (sb_BlkSizeBits s) \<le> 16" "verifySuperblockChecksum r s = Inr ()" "openTable r extra s = Inr img"
    using openSuperE [OF assms] by metis
  note T = openTable_ok [OF o(5,2,3)]
  show "image_ok img" "meta img = r" "extra \<noteq> [] \<Longrightarrow> length (devices img) = length extra"
    "verifySuperblockChecksum r (sb img) = Inr ()"
    using T o(4) by auto
  show "sb_MagicNumber (sb img) = MagicNumber"
    using o(1) T(3) by (auto simp: decodeSuperBlock_def split: if_splits)
qed

section \<open>A concrete image\<close>

text \<open>
  A three-block image of 512-byte blocks for the witnesses: a zero pad, the superblock at 1024
  with its metadata zone at block 2 and its root inode at nid 4, and whatever bytes follow the
  superblock in that block.
\<close>

definition sample_super :: bytes where
  "sample_super =
     [0xe2, 0xe1, 0xf5, 0xe0, 0, 0, 0, 0, 0, 0, 0, 0, 9, 0, 4, 0] @ replicate 20 0 @
     [3, 0, 0, 0, 2, 0, 0, 0] @ replicate 84 0"

definition sample_with :: "bytes \<Rightarrow> bytes" where
  "sample_with body = replicate 1024 0 @ sample_super @ body"

lemma length_sample_super [simp]: "length sample_super = 128"
  by (simp add: sample_super_def)

lemma sample_super_decode:
  "decodeSuperBlock sample_super = Inr
     \<lparr> sb_MagicNumber = MagicNumber, sb_Checksum = 0, sb_FeatureCompat = 0, sb_BlkSizeBits = 9,
       sb_ExtSlots = 0, sb_RootNid = 4, sb_Inos = 0, sb_BuildTime = 0, sb_BuildTimeNs = 0,
       sb_Blocks = 3, sb_MetaBlkAddr = 2, sb_XattrBlkAddr = 0, sb_UUID = replicate 16 0,
       sb_VolumeName = replicate 16 0, sb_FeatureIncompat = 0, sb_ComprAlgs = 0,
       sb_ExtraDevices = 0, sb_DevtSlotOff = 0, sb_DirBlkBits = 0, sb_XattrPrefixCount = 0,
       sb_XattrPrefixStart = 0, sb_PackedNid = 0, sb_XattrFilterRes = 0,
       sb_IshareXattrPrefixID = 0, sb_Reserved = replicate 22 0 \<rparr>"
  by (simp add: decodeSuperBlock_def SuperBlock_Unmarshal_def sample_super_def le16_def le32_def
      le64_def window_def nth_append)

lemma sample_read:
  "length body = 384 \<Longrightarrow> ra_read (bytes_reader (sample_with body)) 1024 128 = (sample_super, None)"
  by (simp add: bytes_reader_def sample_with_def window_append_exact)

definition sample_img :: "bytes \<Rightarrow> image" where
  "sample_img body =
     \<lparr> sb = (case decodeSuperBlock sample_super of Inr s \<Rightarrow> s), isize = 1536,
       meta = bytes_reader (sample_with body), devices = [], deviceIDMask = 0, longPrefixes = [] \<rparr>"

lemma sample_open:
  assumes "length body = 384"
  shows "openSuper (bytes_reader (sample_with body)) [] = Inr (sample_img body)"
  unfolding openSuper_def sample_read [OF assms]
  using assms
  by (simp add: sample_super_decode verifySuperblockChecksum_def FeatureIncompatAll_def openTable_def
      openGeometry_def imageSize_def bytes_reader_def sample_with_def sample_img_def
      shl64_def i64_def metaStartPos_def checkNid_def Let_def)

section \<open>Properties\<close>

text \<open>
  C22. \<open>checkNid\<close> is exact: on an image whose block size is at most 64 KiB it accepts a nid
  precisely when the inode's address, computed without the width of \<open>int64\<close>, leaves an
  extended inode representable and a compact one inside the image. No nid passes because the
  address wrapped around.
\<close>

theorem checkNid_exact:
  assumes "blkbits img \<le> 16"
  shows "checkNid img nid = Inr () \<longleftrightarrow>
    uint (sb_MetaBlkAddr (sb img)) * 2 ^ blkbits img + uint nid * 32 + 64 \<le> MaxInt64 \<and>
    (isize img > 0 \<longrightarrow>
       uint (sb_MetaBlkAddr (sb img)) * 2 ^ blkbits img + uint nid * 32 + 32 \<le> isize img)"
  using checkNid_iff [OF assms] by (simp add: nid_addr_def)

theorem checkNid_exact_witness:
  "checkNid (sample_img []) 15 = Inr () \<and> checkNid (sample_img []) 16 \<noteq> Inr ()"
  using checkNid_exact [of "sample_img []" 15] checkNid_exact [of "sample_img []" 16]
  by (simp add: sample_img_def sample_super_decode)

text \<open>
  C23. \<open>locateRange\<close> never hands out a range that leaves its device: when it answers device 0
  the bytes are the image's own, at the address asked for and inside its extent; when it
  answers an extra device, that device exists, its mapped range holds the address, and the
  whole range lies inside the blocks its slot declares. The reader for the device exists, so
  \<open>deviceReader\<close> cannot index past the table.
\<close>

theorem locateRange_in_bounds:
  assumes "image_ok img" and "locateRange img pa n = Inr (dev, off)"
  shows "0 \<le> n \<and> in_extent img dev pa off n \<and> (\<exists>rd. deviceReader img dev = Inr rd)"
  using locateRange_sound [of img pa n dev off] locateRange_reader [of img pa n dev off] assms
  by (auto dest: image_okD)

theorem locateRange_in_bounds_witness:
  "image_ok (sample_img []) \<and> locateRange (sample_img []) 1024 512 = Inr (0, 1024) \<and>
   in_extent (sample_img []) 0 1024 1024 512"
proof -
  have ok: "image_ok (sample_img [])"
    by (simp add: image_ok_def sample_img_def sample_super_decode checkNid_def metaStartPos_def
        shl64_def i64_def Let_def)
  have l: "locateRange (sample_img []) 1024 512 = Inr (0, 1024)"
    by (simp add: locateRange_def checkImageRange_def sample_img_def i64_def)
  show ?thesis using ok l locateRange_in_bounds [OF ok l] by blast
qed

text \<open>
  C24. What \<open>Open\<close> establishes before any path is resolved: an image it accepts has block size
  bits 9 to 16, a declared extent inside the readable one, metadata and shared xattrs that
  start inside it, a root inode inside it and no directory block bits; its superblock has
  the magic number and passes its checksum; and extra devices given are all in the table.
\<close>

theorem open_establishes_invariant:
  assumes "openSuper r extra = Inr img"
  shows "image_ok img \<and> meta img = r \<and> sb_MagicNumber (sb img) = MagicNumber \<and>
         verifySuperblockChecksum r (sb img) = Inr () \<and>
         (extra = [] \<or> length (devices img) = length extra)"
  using openSuper_ok [OF assms] by blast

theorem open_establishes_invariant_witness:
  "image_ok (sample_img (replicate 384 0))"
  using open_establishes_invariant [OF sample_open [of "replicate 384 0"]] by simp

text \<open>
  C25. \<open>roundupPowerOfTwo\<close>, the bit-smearing routine that sizes the device id mask, returns the
  least power of two that is not below its argument, for every argument from 1 to
  \<open>2^31\<close>; every count of extra devices plus one is in that range.
\<close>

theorem roundupPowerOfTwo_is_least:
  assumes "0 < unat v" and "unat v \<le> 2 ^ 31"
  shows "\<exists>k \<le> 31. unat (roundupPowerOfTwo v) = 2 ^ k \<and> unat v \<le> 2 ^ k \<and>
           (\<forall>j. unat v \<le> 2 ^ j \<longrightarrow> k \<le> j)"
  by (rule roundupPowerOfTwo_least [OF assms])

theorem roundupPowerOfTwo_is_least_witness:
  "\<exists>k \<le> 31. unat (roundupPowerOfTwo 5) = 2 ^ k \<and> unat (5 :: u32) \<le> 2 ^ k \<and>
           (\<forall>j. unat (5 :: u32) \<le> 2 ^ j \<longrightarrow> k \<le> j)"
  by (rule roundupPowerOfTwo_is_least) simp_all

end
