(* ===== verification/Inode.thy ===== *)
theory Inode
  imports Image
begin

text \<open>
  Inodes as \<open>erofs.go\<close> reads them: the format checks, \<open>decodeInode\<close>, \<open>finishInfo\<close> and
  \<open>readInfo\<close>, the \<open>inode\<close> structure with its start block, and where a flat inode's data
  lies. \<open>readInfo\<close> caches the inode in the open file; an error it returns
  leaves the cache empty, a panic it recovers from does not.
\<close>

section \<open>The inode\<close>

record inode =
  iname :: bytes
  inid :: u64
  icsize :: int
  xsize :: int
  inodeLayout :: byte
  inodeData :: u32
  startHi :: u16
  addr48 :: bool
  fsize :: int
  imode :: FileMode
  rawMode :: u16
  iuid :: u32
  igid :: u32
  inlink :: int
  imtime :: u64
  imtimeNs :: u32

definition flatDataOffset :: "inode \<Rightarrow> int" where
  "flatDataOffset ino = icsize ino + xsize ino"

definition startBlock :: "inode \<Rightarrow> u64" where
  "startBlock ino = ucast (inodeData ino) OR push_bit 32 (ucast (startHi ino))"

definition nullStartBlock :: "u64 \<Rightarrow> bool \<Rightarrow> bool" where
  "nullStartBlock start a48 =
     (let m = (if a48 then push_bit 48 1 - 1 else push_bit 32 1 - 1) in start AND m = m)"

definition nullAddress :: "inode \<Rightarrow> bool" where
  "nullAddress ino \<longleftrightarrow>
     inodeLayout ino = LayoutFlatPlain \<and> nullStartBlock (startBlock ino) (addr48 ino)"

definition blockAddr :: "image \<Rightarrow> u64 \<Rightarrow> int result" where
  "blockAddr img blk =
     (if uint blk > drop_bit (blkbits img) MaxInt64 then Inl ErrCorrupt
      else Inr (shl64 (sint blk) (blkbits img)))"

definition locateStart :: "image \<Rightarrow> inode \<Rightarrow> int \<Rightarrow> (u16 \<times> int) result" where
  "locateStart img ino n = bindE (blockAddr img (startBlock ino)) (\<lambda>pa. locateRange img pa n)"

text \<open>\<open>metaStartPos() + int64(nid)*32\<close>, which \<open>metaStartPos() + int64(nid*32)\<close> also is: the
  two products agree modulo \<open>2^64\<close>.\<close>

definition inodeStart :: "image \<Rightarrow> u64 \<Rightarrow> int" where
  "inodeStart img nid = i64 (metaStartPos img + i64 (sint nid * SizeInodeCompact))"

section \<open>Reading an inode\<close>

definition checkInodeFormat :: "u16 \<Rightarrow> unit result" where
  "checkInodeFormat format =
     (if format AND NOT InodeFormatAll \<noteq> 0 then Inl ErrNotImplemented
      else
        let layout = drop_bit 1 (format AND InodeFormatLayoutMask) in
        if layout \<ge> LayoutMax \<or> layout = LayoutCompressedFull \<or> layout = LayoutCompressedCompact
        then Inl ErrNotImplemented else Inr ())"

definition checkChunkFormat :: "byte \<Rightarrow> u32 \<Rightarrow> unit result" where
  "checkChunkFormat layout idata =
     (if layout \<noteq> LayoutChunkBased then Inr ()
      else
        let chunkFmt = (ucast idata :: u16) in
        if chunkFmt AND NOT LayoutChunkFormatAll \<noteq> 0 then Inl ErrNotImplemented else Inr ())"

definition xattrBodySize :: "u16 \<Rightarrow> int result" where
  "xattrBodySize xcnt =
     (if xcnt = 1 then Inl ErrNotImplemented
      else Inr (uint (xcnt - 1) * SizeXattrEntry + SizeXattrBodyHeader))"

definition decodeInode :: "image \<Rightarrow> bytes \<Rightarrow> u64 \<Rightarrow> bytes \<Rightarrow> u16 \<Rightarrow> (inode \<times> u16) result" where
  "decodeInode img name nid b format =
     (let layout = ucast (drop_bit 1 (format AND InodeFormatLayoutMask)) in
      if format AND InodeFormatExtended = 0 then
        bindE (InodeCompact_Unmarshal b) (\<lambda>di.
        let ino = \<lparr> iname = name, inid = nid, icsize = SizeInodeCompact, xsize = 0,
                    inodeLayout = layout, inodeData = ic_InodeData di, startHi = 0,
                    addr48 = False, fsize = uint (ic_Size di),
                    imode = EroFSModeToGoFileMode (ic_Mode di), rawMode = ic_Mode di,
                    iuid = ucast (ic_UID di), igid = ucast (ic_GID di),
                    inlink = uint (ic_NB di),
                    imtime = sb_BuildTime (sb img) + ucast (ic_Mtime di),
                    imtimeNs = sb_BuildTimeNs (sb img) \<rparr>;
            ino = (if ic_Mode di AND StatTypeMask \<noteq> StatTypeDir \<and>
                      format AND InodeFormatNlink1 \<noteq> 0
                   then ino\<lparr>inlink := 1, startHi := ic_NB di, addr48 := True\<rparr> else ino)
        in Inr (ino, ic_XattrCount di))
      else if length b < SizeInodeExtended then Inl ErrCorrupt
      else
        bindE (InodeExtended_Unmarshal b) (\<lambda>di.
        Inr (\<lparr> iname = name, inid = nid, icsize = SizeInodeExtended, xsize = 0,
               inodeLayout = layout, inodeData = ie_InodeData di, startHi = ie_NB di,
               addr48 = True, fsize = sint (ie_Size di),
               imode = EroFSModeToGoFileMode (ie_Mode di), rawMode = ie_Mode di,
               iuid = ie_UID di, igid = ie_GID di, inlink = uint (ie_Nlink di),
               imtime = ie_Mtime di, imtimeNs = ie_MtimeNs di \<rparr>, ie_XattrCount di)))"

text \<open>\<open>finishInfo\<close> works on the inode the file has cached, so it returns that inode as it leaves
  it together with its answer.\<close>

definition finishTarget :: "inode \<Rightarrow> bytes \<Rightarrow> unit result" where
  "finishTarget ino b =
     bindE (checkChunkFormat (inodeLayout ino) (inodeData ino)) (\<lambda>_.
     if imode ino AND ModeSymlink = 0 \<or> inodeLayout ino \<noteq> LayoutFlatInline \<or> fsize ino < 0
     then Inr ()
     else if fsize ino = 0 then Inl ErrCorrupt
     else
       let start = icsize ino + xsize ino; fin = i64 (start + fsize ino) in
       if fin \<le> int (length b) then
         (if fin < 0 then Inl Panic
          else bindE (slice b (nat start) (nat fin)) (\<lambda>target.
               if IndexByte target 0 \<noteq> None then Inl ErrCorrupt else Inr ()))
       else Inr ())"

definition finishInfo :: "inode \<Rightarrow> bytes \<Rightarrow> u16 \<Rightarrow> inode \<times> unit result" where
  "finishInfo ino b xcnt =
     (if xcnt > 0 then
        (case xattrBodySize xcnt of
           Inl e \<Rightarrow> (ino, Inl e)
         | Inr x \<Rightarrow> (ino\<lparr>xsize := x\<rparr>, finishTarget (ino\<lparr>xsize := x\<rparr>) b))
      else (ino, finishTarget ino b))"

text \<open>The body of \<open>readInfo\<close> after the read: what the file's cache holds at the end, and the
  answer. Every error path clears the cache; a panic in \<open>finishInfo\<close> skips the line that
  would, and the deferred \<open>recover\<close> turns it into \<open>ErrCorrupt\<close>.\<close>

definition decodeInfo ::
  "image \<Rightarrow> bytes \<Rightarrow> u64 \<Rightarrow> FileMode \<Rightarrow> bytes \<Rightarrow> inode option \<times> inode result" where
  "decodeInfo img name nid ftype b =
     (if length b < SizeInodeCompact then (None, Inl ErrCorrupt)
      else
        let format = le16 b 0 in
        case checkInodeFormat format of
          Inl e \<Rightarrow> (None, Inl e)
        | Inr _ \<Rightarrow>
            (case decodeInode img name nid b format of
               Inl e \<Rightarrow> (None, Inl (if e = Panic then ErrCorrupt else e))
             | Inr (ino, xcnt) \<Rightarrow>
                 if fsize ino < 0 then (None, Inl ErrCorrupt)
                 else if ftype \<noteq> FileMode_Type (imode ino) then (None, Inl ErrCorrupt)
                 else
                   (case finishInfo ino b xcnt of
                      (ino', Inl e) \<Rightarrow>
                        if e = Panic then (Some ino', Inl ErrCorrupt) else (None, Inl e)
                    | (ino', Inr _) \<Rightarrow> (Some ino', Inr ino'))))"

text \<open>\<open>readInfo\<close> of a file with an empty cache. The buffer runs from the inode to the end of
  its block, or over 64 bytes when less of the block is left.\<close>

definition readInode ::
  "image \<Rightarrow> bytes \<Rightarrow> u64 \<Rightarrow> FileMode \<Rightarrow> inode option \<times> inode result" where
  "readInode img name nid ftype =
     (case checkNid img nid of
        Inl e \<Rightarrow> (None, Inl e)
      | Inr _ \<Rightarrow>
          let addr = inodeStart img nid;
              blkSize = 2 ^ blkbits img;
              off = addr AND (blkSize - 1);
              room = (if blkSize - off < SizeInodeExtended then SizeInodeExtended
                      else blkSize - off)
          in case ra_read (meta img) addr (nat room) of
               (b, Some e) \<Rightarrow>
                 if \<not> errors_Is e EOF then (None, Inl e) else decodeInfo img name nid ftype b
             | (b, None) \<Rightarrow> decodeInfo img name nid ftype b)"

section \<open>The open file\<close>

record open_file =
  fname :: bytes
  fnid :: u64
  fftype :: FileMode
  foffset :: int
  finfo :: "inode option"
  fdirect :: "reader option"
  directChecked :: bool

definition new_file :: "bytes \<Rightarrow> u64 \<Rightarrow> FileMode \<Rightarrow> open_file" where
  "new_file name nid ftype =
     \<lparr> fname = name, fnid = nid, fftype = ftype, foffset = 0, finfo = None, fdirect = None,
       directChecked = False \<rparr>"

definition readInfo :: "image \<Rightarrow> open_file \<Rightarrow> open_file \<times> inode result" where
  "readInfo img f =
     (case finfo f of
        Some ino \<Rightarrow> (f, Inr ino)
      | None \<Rightarrow>
          (case readInode img (fname f) (fnid f) (fftype f) of
             (cache, r) \<Rightarrow> (f\<lparr>finfo := cache\<rparr>, r)))"

section \<open>Lemmas\<close>

subsection \<open>What a decoded inode satisfies\<close>

definition inode_ok :: "image \<Rightarrow> inode \<Rightarrow> bool" where
  "inode_ok img ino \<longleftrightarrow>
     checkNid img (inid ino) = Inr () \<and>
     0 \<le> fsize ino \<and> fsize ino \<le> MaxInt64 \<and>
     (icsize ino = 32 \<or> icsize ino = 64) \<and>
     0 \<le> xsize ino \<and> xsize ino \<le> 262148 \<and> xsize ino mod 4 = 0 \<and>
     inodeLayout ino \<in> {LayoutFlatPlain, LayoutFlatInline, LayoutChunkBased} \<and>
     (inodeLayout ino = LayoutChunkBased \<longrightarrow>
        (ucast (inodeData ino) :: u16) AND NOT LayoutChunkFormatAll = 0)"

lemma inodeStart_eq:
  assumes "image_ok img" and "checkNid img nid = Inr ()"
  shows "inodeStart img nid = nid_addr img nid" and "0 \<le> nid_addr img nid"
    and "nid_addr img nid + 64 \<le> MaxInt64"
proof -
  have k: "blkbits img \<le> 16" using assms(1) by blast
  have m: "0 \<le> metaStartPos img" "metaStartPos img \<le> 281474976645120"
    using metaStartPos_bounds [OF k] by auto
  have a: "nid_addr img nid = metaStartPos img + uint nid * 32"
    using k by (simp add: nid_addr_def metaStartPos_eq)
  show le: "nid_addr img nid + 64 \<le> MaxInt64"
    using assms(2) checkNid_iff [OF k] by blast
  show nn: "0 \<le> nid_addr img nid" using m by (simp add: a)
  have u: "uint nid * 32 \<le> MaxInt64" using le m by (simp add: a)
  then have "sint nid = uint nid" by (intro sint_small) simp
  moreover have "i64 (uint nid * 32) = uint nid * 32" using u by (simp add: i64_id_nonneg)
  moreover have "i64 (nid_addr img nid) = nid_addr img nid" using le nn by (simp add: i64_id_nonneg)
  ultimately show "inodeStart img nid = nid_addr img nid" by (simp add: inodeStart_def a)
qed

lemma checkInodeFormat_layout:
  assumes "checkInodeFormat format = Inr ()"
  shows "(ucast (drop_bit 1 (format AND 0xE)) :: byte) \<in> {0, 2, 4}"
proof -
  let ?d = "drop_bit 1 (format AND 0xE)"
  have "?d < 5" "?d \<noteq> 1" "?d \<noteq> 3"
    using assms by (auto simp: checkInodeFormat_def Let_def split: if_splits)
  then have "unat ?d < 5" "unat ?d \<noteq> 1" "unat ?d \<noteq> 3"
    by (auto simp: word_less_nat_alt unat_arith_simps)
  then have "unat ?d = 0 \<or> unat ?d = 2 \<or> unat ?d = 4" by linarith
  then have "?d = 0 \<or> ?d = 2 \<or> ?d = 4" by (auto simp: unat_arith_simps)
  then show ?thesis by auto
qed

lemma xattrBodySize_bounds:
  assumes "xattrBodySize xcnt = Inr x" and "xcnt > 0"
  shows "16 \<le> x" and "x \<le> 262148" and "x mod 4 = 0"
proof -
  have "unat (xcnt - 1) = unat xcnt - 1" "unat xcnt > 0" "unat xcnt \<noteq> 1" "unat xcnt < 65536"
    using assms unat_lt_u16 [of xcnt]
    by (auto simp: xattrBodySize_def unat_arith_simps split: if_splits)
  moreover define n where "n = unat (xcnt - 1)"
  ultimately have n: "1 \<le> n" "n \<le> 65534" by linarith+
  have "uint (xcnt - 1) = int n" by (simp add: n_def)
  then have "x = int n * 4 + 12"
    using assms by (auto simp: xattrBodySize_def split: if_splits)
  with n show "16 \<le> x" and "x \<le> 262148" and "x mod 4 = 0" by simp_all
qed

lemma decodeInode_ok:
  assumes "decodeInode img name nid b format = Inr (ino, xcnt)" and "checkInodeFormat format = Inr ()"
  shows "iname ino = name" "inid ino = nid" "xsize ino = 0" "icsize ino = 32 \<or> icsize ino = 64"
    "inodeLayout ino \<in> {0, 2, 4}" "fsize ino \<le> MaxInt64"
proof -
  have s: "sint (w :: u64) \<le> MaxInt64" for w
    using i64_range [of "uint w"] by (simp only: i64_of_uint64)
  have u: "uint (w :: u32) \<le> MaxInt64" for w using uint_lt_u32 [of w] by simp
  show "iname ino = name" "inid ino = nid" "xsize ino = 0" "icsize ino = 32 \<or> icsize ino = 64"
    "inodeLayout ino \<in> {0, 2, 4}" "fsize ino \<le> MaxInt64"
    using assms(1) checkInodeFormat_layout [OF assms(2)] s u
    by (auto simp: decodeInode_def Let_def split: if_splits)
qed

lemma finishInfo_ok:
  assumes "finishInfo ino b xcnt = (ino', r)" and "xsize ino = 0" and "r = Inr () \<or> r = Inl Panic"
  shows "ino' = ino\<lparr>xsize := xsize ino'\<rparr>" and "0 \<le> xsize ino'" and "xsize ino' \<le> 262148"
    and "xsize ino' mod 4 = 0"
    and "inodeLayout ino = LayoutChunkBased \<Longrightarrow>
        (ucast (inodeData ino) :: u16) AND NOT LayoutChunkFormatAll = 0"
proof -
  obtain x where ino': "ino' = ino\<lparr>xsize := x\<rparr>" and x: "xcnt > 0 \<and> xattrBodySize xcnt = Inr x \<or> x = 0"
    and c: "r = finishTarget ino' b"
  proof (cases "xcnt > 0")
    case True
    with assms obtain x where "xattrBodySize xcnt = Inr x" "ino' = ino\<lparr>xsize := x\<rparr>"
      "r = finishTarget ino' b"
      by (auto simp: finishInfo_def xattrBodySize_def split: sum.splits if_splits)
    with True that show thesis by blast
  next
    case False
    with assms have "ino' = ino" "r = finishTarget ino' b"
      by (auto simp: finishInfo_def)
    with assms(2) that [of 0] show thesis by simp
  qed
  show "ino' = ino\<lparr>xsize := xsize ino'\<rparr>" by (simp add: ino')
  show "0 \<le> xsize ino'" "xsize ino' \<le> 262148" "xsize ino' mod 4 = 0"
    using x xattrBodySize_bounds [of xcnt x] by (auto simp: ino')
  show "(ucast (inodeData ino) :: u16) AND NOT LayoutChunkFormatAll = 0"
    if "inodeLayout ino = LayoutChunkBased"
    using c that assms(3)
    by (auto simp: finishTarget_def checkChunkFormat_def Let_def ino' bindE_eq_Inl split: if_splits)
qed

text \<open>An inode the cache holds is well formed, whether the call that put it there succeeded or
  was recovered.\<close>

lemma decodeInfo_ok:
  assumes "decodeInfo img name nid ftype b = (Some ino, r)" and n: "checkNid img nid = Inr ()"
  shows "inode_ok img ino" and "inid ino = nid" and "iname ino = name"
    and "FileMode_Type (imode ino) = ftype" and "r = Inr ino \<or> r = Inl ErrCorrupt"
proof -
  obtain ino0 xcnt q where f: "checkInodeFormat (le16 b 0) = Inr ()"
    "decodeInode img name nid b (le16 b 0) = Inr (ino0, xcnt)"
    "0 \<le> fsize ino0" "ftype = FileMode_Type (imode ino0)" "finishInfo ino0 b xcnt = (ino, q)"
    and q: "q = Inr () \<or> q = Inl Panic" and r: "r = Inr ino \<or> r = Inl ErrCorrupt"
    using assms by (auto simp: decodeInfo_def Let_def split: if_splits sum.splits prod.splits)
  note d = decodeInode_ok [OF f(2,1)]
  note x = finishInfo_ok [OF f(5) d(3) q]
  obtain z where ino: "ino = ino0\<lparr>xsize := z\<rparr>" using x(1) by blast
  show "inode_ok img ino" using n d f(3) x(2-) by (auto simp: inode_ok_def ino)
  show "inid ino = nid" "iname ino = name" "FileMode_Type (imode ino) = ftype"
    using d f(4) by (simp_all add: ino)
  show "r = Inr ino \<or> r = Inl ErrCorrupt" by (rule r)
qed

lemma decodeInfo_cached: "decodeInfo img name nid ftype b = (c, Inr ino) \<Longrightarrow> c = Some ino"
  by (auto simp: decodeInfo_def Let_def split: if_splits sum.splits prod.splits)

lemma readInode_decode:
  assumes "readInode img name nid ftype = (Some ino, r)"
  obtains b where "decodeInfo img name nid ftype b = (Some ino, r)" "checkNid img nid = Inr ()"
  using assms
  by (auto simp: readInode_def Let_def split: prod.splits option.splits if_splits sum.splits)

lemma readInode_cached: "readInode img name nid ftype = (c, Inr ino) \<Longrightarrow> c = Some ino"
  by (auto simp: readInode_def Let_def split: prod.splits option.splits if_splits sum.splits
      dest: decodeInfo_cached)

lemma readInode_ok:
  assumes "readInode img name nid ftype = (c, Inr ino)"
  shows "inode_ok img ino" and "inid ino = nid" and "iname ino = name"
    and "FileMode_Type (imode ino) = ftype"
  using readInode_cached [OF assms] assms decodeInfo_ok
  by (metis readInode_decode)+

text \<open>The cache of an open file.\<close>

definition file_ok :: "image \<Rightarrow> open_file \<Rightarrow> bool" where
  "file_ok img f \<longleftrightarrow>
     (\<forall>ino. finfo f = Some ino \<longrightarrow>
        inode_ok img ino \<and> inid ino = fnid f \<and> FileMode_Type (imode ino) = fftype f)"

lemma readInfo_ok:
  assumes "file_ok img f" and "readInfo img f = (f', r)"
  shows "file_ok img f'" and "r = Inr ino \<Longrightarrow> finfo f' = Some ino"
    and "f' = f\<lparr>finfo := finfo f'\<rparr>"
proof -
  show "f' = f\<lparr>finfo := finfo f'\<rparr>"
    using assms(2) by (auto simp: readInfo_def split: option.splits prod.splits)
  show "finfo f' = Some ino" if "r = Inr ino"
    using assms(2) that
    by (auto simp: readInfo_def dest: readInode_cached split: option.splits prod.splits)
  show "file_ok img f'"
  proof (cases "finfo f")
    case (Some i)
    with assms show ?thesis by (simp add: readInfo_def)
  next
    case None
    then obtain c where c: "readInode img (fname f) (fnid f) (fftype f) = (c, r)" "f' = f\<lparr>finfo := c\<rparr>"
      using assms(2) by (auto simp: readInfo_def split: prod.splits)
    show ?thesis
    proof (cases c)
      case (Some ino)
      obtain b where b: "decodeInfo img (fname f) (fnid f) (fftype f) b = (Some ino, r)"
        "checkNid img (fnid f) = Inr ()"
        using readInode_decode c(1) Some by metis
      from decodeInfo_ok [OF this] c Some show ?thesis by (simp add: file_ok_def)
    qed (simp add: c file_ok_def)
  qed
qed

section \<open>Properties\<close>

text \<open>
  C26. The cache of an open file: whatever \<open>readInfo\<close> answers, the inode the file holds
  afterwards is one every later address computation may rely on (its nid is inside the image,
  its size is non-negative, its xattr area at most 262148 bytes and a multiple of four, its layout
  one the reader implements, its type the dirent's), and a successful call has cached the
  inode it returns.
\<close>

theorem readInfo_keeps_cache_ok:
  assumes "file_ok img f" and "readInfo img f = (f', r)"
  shows "file_ok img f' \<and> (\<forall>ino. r = Inr ino \<longrightarrow> finfo f' = Some ino \<and> inode_ok img ino)"
  using readInfo_ok [OF assms] by (auto simp: file_ok_def)

definition sample_link :: bytes where
  "sample_link =
     [5, 0, 0, 0, 0xFF, 0xA1, 0, 0, 0xFF, 0xFF, 0xFF, 0xFF, 0xFF, 0xFF, 0xFF, 0x7F] @ replicate 368 0"

lemma length_sample_link [simp]: "length sample_link = 384"
  by (simp add: sample_link_def)

lemma sample_read_inode:
  assumes "length body = 384"
  shows "ra_read (bytes_reader (sample_with body)) 1152 384 = (body, None)"
  using assms by (simp add: bytes_reader_def sample_with_def window_def)

definition sample_link_inode :: inode where
  "sample_link_inode =
     \<lparr> iname = [], inid = 4, icsize = 64, xsize = 0, inodeLayout = 2, inodeData = 0, startHi = 0,
       addr48 = True, fsize = MaxInt64, imode = ModeSymlink OR 0x1FF, rawMode = 0xA1FF,
       iuid = 0, igid = 0, inlink = 0, imtime = 0, imtimeNs = 0 \<rparr>"

lemma sample_link_decode:
  "decodeInfo (sample_img sample_link) [] 4 ModeSymlink sample_link =
     (Some sample_link_inode, Inl ErrCorrupt)"
  by (simp add: decodeInfo_def sample_link_def le16_def le32_def le64_def window_def Let_def checkInodeFormat_def
    decodeInode_def InodeExtended_Unmarshal_def FileMode_Type_def EroFSModeToGoFileMode_def finishInfo_def finishTarget_def
    checkChunkFormat_def i64_def sample_link_inode_def)

lemma sample_link_read:
  "readInode (sample_img sample_link) [] 4 ModeSymlink = (Some sample_link_inode, Inl ErrCorrupt)"
proof -
  have "checkNid (sample_img sample_link) 4 = Inr ()" "inodeStart (sample_img sample_link) 4 = 1152"
    "blkbits (sample_img sample_link) = 9" "meta (sample_img sample_link) = bytes_reader (sample_with sample_link)"
    by (simp_all add: checkNid_def inodeStart_def sample_img_def sample_super_decode metaStartPos_def
        shl64_def i64_def Let_def)
  then show ?thesis
    using sample_link_decode by (simp add: readInode_def sample_read_inode)
qed

lemma new_file_ok: "file_ok img (new_file name nid ft)"
  by (simp add: file_ok_def new_file_def)

lemma sample_link_readInfo:
  "readInfo (sample_img sample_link) (new_file [] 4 ModeSymlink) =
     ((new_file [] 4 ModeSymlink)\<lparr>finfo := Some sample_link_inode\<rparr>, Inl ErrCorrupt)"
  by (simp add: readInfo_def new_file_def sample_link_read)

theorem readInfo_keeps_cache_ok_witness:
  "file_ok (sample_img sample_link) (new_file [] 4 ModeSymlink) \<and>
   file_ok (sample_img sample_link) ((new_file [] 4 ModeSymlink)\<lparr>finfo := Some sample_link_inode\<rparr>)"
  using readInfo_keeps_cache_ok [OF new_file_ok sample_link_readInfo] new_file_ok by blast

text \<open>
  C27. An inode \<open>readInfo\<close> has refused can be served by the next call. The end of a fast
  symlink's target is computed as \<open>start + size\<close> in \<open>int64\<close>; for a size near the maximum it
  wraps negative, the slice that follows panics, the deferred \<open>recover\<close> reports
  \<open>ErrCorrupt\<close>, and the cached inode is not cleared as it is on every other error path. On
  an image that opens, the first call fails and the second, on the same open file, succeeds.
\<close>

theorem readInfo_refused_then_served:
  "\<exists>data img f f' ino.
     openSuper (bytes_reader data) [] = Inr img \<and> finfo f = None \<and>
     readInfo img f = (f', Inl ErrCorrupt) \<and> readInfo img f' = (f', Inr ino)"
proof (intro exI conjI)
  show "openSuper (bytes_reader (sample_with sample_link)) [] = Inr (sample_img sample_link)"
    by (rule sample_open) simp
  show "finfo (new_file [] 4 ModeSymlink) = None" by (simp add: new_file_def)
  show "readInfo (sample_img sample_link) (new_file [] 4 ModeSymlink) =
     ((new_file [] 4 ModeSymlink)\<lparr>finfo := Some sample_link_inode\<rparr>, Inl ErrCorrupt)"
    by (rule sample_link_readInfo)
  show "readInfo (sample_img sample_link) ((new_file [] 4 ModeSymlink)\<lparr>finfo := Some sample_link_inode\<rparr>) =
     ((new_file [] 4 ModeSymlink)\<lparr>finfo := Some sample_link_inode\<rparr>, Inr sample_link_inode)"
    by (simp add: readInfo_def)
qed

end
