(* ===== verification/Data_Map.thy ===== *)
theory Data_Map
  imports Inode
begin

text \<open>
  Where the bytes of a file are and how they are read: \<open>loadAt\<close>, \<open>loadBlock\<close> with its hole
  blocks, the whole-file fast path \<open>openDirect\<close>, \<open>Read\<close>, and the public data ranges of
  \<open>buildDataRanges\<close> and \<open>buildChunkDataRanges\<close>.

  A block comes from the image's pool with whatever bytes its last user left. The functions
  with \<open>_in\<close> take that buffer; the ones without give it zeros, which no caller can tell from
  any other content because the window of a block is written before it is exposed.
\<close>

section \<open>Blocks\<close>

text \<open>Go's \<open>a % b\<close> for a positive \<open>b\<close>, which takes the sign of \<open>a\<close>.\<close>

definition go_rem :: "int \<Rightarrow> int \<Rightarrow> int" where
  "go_rem a b = (if a < 0 then - ((- a) mod b) else a mod b)"

definition getBlock :: "image \<Rightarrow> bytes" where
  "getBlock img = replicate (2 ^ blkbits img) 0"

text \<open>\<open>ReadAt(b.buf[:size], addr)\<close> into a pooled block.\<close>

definition loadAt_in :: "bytes \<Rightarrow> image \<Rightarrow> int \<Rightarrow> int \<Rightarrow> block result" where
  "loadAt_in pool img addr sz =
     (let blkSize = 2 ^ blkbits img;
          sz = (if sz > blkSize then blkSize else sz)
      in if sz \<le> 0 then Inl ErrCorrupt
         else if addr < 0 \<or> (isize img > 0 \<and> addr \<ge> isize img) then Inl ErrCorrupt
         else
           case ra_read (meta img) addr (nat sz) of
             (b, e) \<Rightarrow>
               if e \<noteq> None \<and> \<not> errors_Is (the e) EOF then Inl (the e)
               else if b = [] then
                 (if isize img > 0 then Inl ErrCorrupt else Inl ErrUnexpectedEOF)
               else Inr \<lparr> buf = put_at 0 b pool, offset = 0, bend = length b \<rparr>)"

definition loadAt :: "image \<Rightarrow> int \<Rightarrow> int \<Rightarrow> block result" where
  "loadAt img = loadAt_in (getBlock img) img"

definition holeBlock_in :: "bytes \<Rightarrow> nat \<Rightarrow> nat \<Rightarrow> block" where
  "holeBlock_in pool lo hi =
     \<lparr> buf = put_at lo (replicate (hi - lo) 0) pool, offset = lo, bend = hi \<rparr>"

text \<open>The read that ends both halves of \<open>loadBlock\<close>: the count is judged before the error.\<close>

definition readBlock_in :: "bytes \<Rightarrow> reader \<Rightarrow> int \<Rightarrow> nat \<Rightarrow> nat \<Rightarrow> block result" where
  "readBlock_in pool rd start lo hi =
     (case ra_read rd start (hi - lo) of
        (b, e) \<Rightarrow>
          if length b = hi - lo
          then Inr \<lparr> buf = put_at lo b pool, offset = lo, bend = hi \<rparr>
          else if e \<noteq> None \<and> \<not> errors_Is (the e) EOF then Inl (the e)
          else Inl ErrCorrupt)"

definition bad_bounds :: "int \<Rightarrow> int \<Rightarrow> int \<Rightarrow> bool" where
  "bad_bounds blockOffset blockEnd bsz \<longleftrightarrow>
     blockOffset < 0 \<or> blockEnd > bsz \<or> blockOffset \<ge> blockEnd"

text \<open>The end of \<open>loadBlock\<close> for the flat layouts: \<open>dataBlock\<close> says the address is one of the
  primary device's data blocks, which may lie on an extra device.\<close>

definition loadFlat_in ::
  "bytes \<Rightarrow> image \<Rightarrow> int \<Rightarrow> int \<Rightarrow> int \<Rightarrow> bool \<Rightarrow> block result" where
  "loadFlat_in pool img addr blockOffset blockEnd dataBlock =
     (if bad_bounds blockOffset blockEnd (2 ^ blkbits img) then Inl ErrCorrupt
      else
        let start = i64 (addr + blockOffset); len = blockEnd - blockOffset in
        bindE (if dataBlock then
                 bindE (locateRange img start len) (\<lambda>(dev, off).
                 bindE (deviceReader img dev) (\<lambda>rd. Inr (off, rd)))
               else bindE (checkImageRange img start len) (\<lambda>_. Inr (start, meta img)))
          (\<lambda>(start, rd). readBlock_in pool rd start (nat blockOffset) (nat blockEnd)))"

text \<open>The format word of a chunk-based inode and what it says of the chunk map.\<close>

definition chunkFormat :: "inode \<Rightarrow> u16" where
  "chunkFormat fi = ucast (inodeData fi)"

definition chunkBits :: "image \<Rightarrow> inode \<Rightarrow> nat" where
  "chunkBits img fi =
     unat (sb_BlkSizeBits (sb img) + ucast (chunkFormat fi AND LayoutChunkFormatBits))"

definition chunkUnit :: "inode \<Rightarrow> int" where
  "chunkUnit fi = (if chunkFormat fi AND LayoutChunkFormatIndexes \<noteq> 0 then 8 else 4)"

definition chunkMapBase :: "image \<Rightarrow> inode \<Rightarrow> int" where
  "chunkMapBase img fi =
     (let base = i64 (inodeStart img (inid fi) + flatDataOffset fi) in
      if chunkUnit fi = 8 \<and> base mod 8 \<noteq> 0 then i64 (base + 7) AND NOT 7 else base)"

text \<open>A chunk map entry read at \<open>entryPos\<close>: \<open>None\<close> for a hole, else the byte address and the
  device id it names.\<close>

definition loadChunkEntry ::
  "image \<Rightarrow> inode \<Rightarrow> int \<Rightarrow> (int \<times> u16) option result" where
  "loadChunkEntry img fi entryPos =
     (let unit = chunkUnit fi in
      case ra_read (meta img) entryPos (nat unit) of
        (b, Some e) \<Rightarrow> Inl e
      | (b, None) \<Rightarrow>
          if length b \<noteq> nat unit then Inl ErrUnexpectedEOF
          else
            let entryBuf = read_into 8 b;
                lo = le32 entryBuf (if unit = 8 then 4 else 0);
                did = (if unit = 8 then le16 entryBuf 2 AND deviceIDMask img else 0)
            in if NOT lo = 0 then Inr None
               else bindE (chunkAddr img (ucast lo)) (\<lambda>a. Inr (Some (a, did))))"

text \<open>The block of a chunk, once its map entry and the bounds of the block are known.\<close>

definition chunkBlock_in ::
  "bytes \<Rightarrow> image \<Rightarrow> nat \<Rightarrow> int \<Rightarrow> int \<Rightarrow> int \<Rightarrow> int \<Rightarrow> (int \<times> u16) option \<Rightarrow> block result" where
  "chunkBlock_in pool img cbits cn bn blockOffset blockEnd entry =
     (if bad_bounds blockOffset blockEnd (2 ^ blkbits img) then Inl ErrCorrupt
      else
        case entry of
          None \<Rightarrow> Inr (holeBlock_in pool (nat blockOffset) (nat blockEnd))
        | Some (addr, did) \<Rightarrow>
            let blockPos = shl64 bn (blkbits img);
                addr = (if blockPos > 0 then i64 (addr + (blockPos - shl64 cn cbits)) else addr)
            in bindE (locate img did addr) (\<lambda>(dev, addr).
               bindE (boundOnDevice img dev (i64 (addr + blockOffset)) (blockEnd - blockOffset)) (\<lambda>_.
               bindE (deviceReader img dev) (\<lambda>rd.
               readBlock_in pool rd (i64 (addr + blockOffset)) (nat blockOffset) (nat blockEnd)))))"

definition loadChunk_in ::
  "bytes \<Rightarrow> image \<Rightarrow> inode \<Rightarrow> int \<Rightarrow> int \<Rightarrow> int \<Rightarrow> block result" where
  "loadChunk_in pool img fi pos nblocks bn =
     (let format = chunkFormat fi; bsz = 2 ^ blkbits img in
      if format AND LayoutChunkFormat48Bit \<noteq> 0 then Inl ErrNotImplemented
      else if format AND NOT (LayoutChunkFormatBits OR LayoutChunkFormatIndexes) \<noteq> 0
      then Inl ErrNotImplemented
      else
        let cbits = chunkBits img fi;
            chunkn = drop_bit cbits (fsize fi - 1) + 1;
            cn = drop_bit cbits pos
        in if cn \<ge> chunkn then Inl ErrCorrupt
           else
             bindE (loadChunkEntry img fi (i64 (chunkMapBase img fi + i64 (cn * chunkUnit fi))))
               (\<lambda>entry.
             let blockEnd = (if bn = nblocks - 1 then fsize fi - bn * bsz else bsz);
                 blockOffset = go_rem pos bsz
             in chunkBlock_in pool img cbits cn bn blockOffset blockEnd entry))"

definition loadBlock_in :: "bytes \<Rightarrow> image \<Rightarrow> inode \<Rightarrow> int \<Rightarrow> block result" where
  "loadBlock_in pool img fi pos =
     (let bits = blkbits img;
          nblocks = calculateBlocks bits (fsize fi);
          bn = drop_bit bits pos;
          bsz = 2 ^ bits
      in if bn \<ge> nblocks then Inl EOF
         else if inodeLayout fi = LayoutFlatPlain then
           (let blockOffset = go_rem pos bsz;
                blockEnd = (if bn = nblocks - 1 then fsize fi - bn * bsz else bsz)
            in if nullAddress fi then
                 (if bad_bounds blockOffset blockEnd bsz then Inl ErrCorrupt
                  else Inr (holeBlock_in pool (nat blockOffset) (nat blockEnd)))
               else bindE (blockAddr img (startBlock fi + word_of_int bn)) (\<lambda>pa.
                    loadFlat_in pool img pa blockOffset blockEnd True))
         else if inodeLayout fi = LayoutFlatInline then
           (if bn = nblocks - 1 then
              (let addr = i64 (inodeStart img (inid fi) + flatDataOffset fi);
                   inBlock = addr AND (bsz - 1);
                   base = addr AND NOT (bsz - 1);
                   blockEnd = (fsize fi - bn * bsz) + inBlock;
                   blockOffset = inBlock + (pos - bn * bsz)
               in if blockEnd > bsz then Inl ErrCorrupt
                  else loadFlat_in pool img base blockOffset blockEnd False)
            else bindE (blockAddr img (startBlock fi + word_of_int bn)) (\<lambda>pa.
                 loadFlat_in pool img pa (go_rem pos bsz) bsz True))
         else if inodeLayout fi = LayoutChunkBased then loadChunk_in pool img fi pos nblocks bn
         else if inodeLayout fi = LayoutCompressedFull \<or> inodeLayout fi = LayoutCompressedCompact
         then Inl ErrNotImplemented
         else Inl ErrCorrupt)"

definition loadBlock :: "image \<Rightarrow> inode \<Rightarrow> int \<Rightarrow> block result" where
  "loadBlock img = loadBlock_in (getBlock img) img"

section \<open>Lemmas on blocks\<close>

subsection \<open>The pooled buffer does not show\<close>

text \<open>What a caller sees of a block: its window.\<close>

definition block_view :: "block \<Rightarrow> nat \<times> nat \<times> bytes" where
  "block_view b = (offset b, bend b, block_bytes b)"

definition viewed :: "block result \<Rightarrow> (nat \<times> nat \<times> bytes) result" where
  "viewed = map_sum id block_view"

lemma viewed_simps [simp]:
  "viewed (Inl e) = Inl e"
  "viewed (Inr b) = Inr (block_view b)"
  "viewed (bindE m k) = bindE m (\<lambda>x. viewed (k x))"
  by (simp_all add: viewed_def) (cases m; simp)

lemma viewed_if: "viewed (if c then a else b) = (if c then viewed a else viewed b)"
  by simp

lemma viewed_eq_Inr: "viewed r = Inr v \<longleftrightarrow> (\<exists>b. r = Inr b \<and> v = block_view b)"
  by (cases r) auto

lemma view_hole:
  "lo \<le> hi \<Longrightarrow> hi \<le> length pool \<Longrightarrow> block_view (holeBlock_in pool lo hi) = (lo, hi, replicate (hi - lo) 0)"
  by (simp add: block_view_def holeBlock_in_def block_bytes_def window_put_at_same)

lemma view_read:
  assumes "lo \<le> hi" and "hi \<le> length pool"
  shows "viewed (readBlock_in pool rd start lo hi) =
    (case ra_read rd start (hi - lo) of (b, e) \<Rightarrow>
       if length b = hi - lo then Inr (lo, hi, b)
       else if e \<noteq> None \<and> \<not> errors_Is (the e) EOF then Inl (the e) else Inl ErrCorrupt)"
  using assms
  by (auto simp: readBlock_in_def block_view_def block_bytes_def window_put_at_same split: prod.splits)

lemma bad_boundsD:
  "\<not> bad_bounds lo hi n \<Longrightarrow> 0 \<le> lo \<and> lo < hi \<and> hi \<le> n"
  by (auto simp: bad_bounds_def)

lemma nat_le_length: "\<not> bad_bounds lo hi (2 ^ k) \<Longrightarrow> length pool = 2 ^ k \<Longrightarrow> nat lo \<le> nat hi \<and> nat hi \<le> length pool"
  by (auto dest!: bad_boundsD simp: nat_le_iff)

lemma loadFlat_view:
  assumes "length p = 2 ^ blkbits img" and "length q = 2 ^ blkbits img"
  shows "viewed (loadFlat_in p img a lo hi d) = viewed (loadFlat_in q img a lo hi d)"
proof (cases "bad_bounds lo hi (2 ^ blkbits img)")
  case False
  note b = nat_le_length [OF False assms(1)] nat_le_length [OF False assms(2)]
  have "viewed (readBlock_in p rd s (nat lo) (nat hi)) = viewed (readBlock_in q rd s (nat lo) (nat hi))" for rd s
    using b by (simp add: view_read)
  with False show ?thesis by (simp add: loadFlat_in_def Let_def split_def)
qed (simp add: loadFlat_in_def)

lemma chunkBlock_view:
  assumes "length p = 2 ^ blkbits img" and "length q = 2 ^ blkbits img"
  shows "viewed (chunkBlock_in p img cbits cn bn lo hi e) = viewed (chunkBlock_in q img cbits cn bn lo hi e)"
proof (cases "bad_bounds lo hi (2 ^ blkbits img)")
  case False
  note b = nat_le_length [OF False assms(1)] nat_le_length [OF False assms(2)]
  have r: "viewed (readBlock_in p rd s (nat lo) (nat hi)) = viewed (readBlock_in q rd s (nat lo) (nat hi))" for rd s
    using b by (simp add: view_read)
  from False b show ?thesis
    by (cases e) (simp_all add: chunkBlock_in_def Let_def split_def r view_hole)
qed (simp add: chunkBlock_in_def)

lemma loadChunk_view:
  assumes "length p = 2 ^ blkbits img" and "length q = 2 ^ blkbits img"
  shows "viewed (loadChunk_in p img fi pos nb bn) = viewed (loadChunk_in q img fi pos nb bn)"
  by (simp add: loadChunk_in_def Let_def chunkBlock_view [OF assms])

lemma loadBlock_view:
  assumes "length p = 2 ^ blkbits img" and "length q = 2 ^ blkbits img"
  shows "viewed (loadBlock_in p img fi pos) = viewed (loadBlock_in q img fi pos)"
proof -
  have h: "block_view (holeBlock_in p (nat lo) (nat hi)) = block_view (holeBlock_in q (nat lo) (nat hi))"
    if "\<not> bad_bounds lo hi (2 ^ blkbits img)" for lo hi
    using nat_le_length [OF that assms(1)] nat_le_length [OF that assms(2)]
    by (simp add: view_hole)
  show ?thesis
    by (simp add: loadBlock_in_def Let_def h loadFlat_view [OF assms] loadChunk_view [OF assms])
qed

subsection \<open>The shape of a block\<close>

lemma calculateBlocks_bounds:
  "sz \<le> calculateBlocks k sz * 2 ^ k" "(calculateBlocks k sz - 1) * 2 ^ k < sz"
proof -
  define d where "d = (- sz) div 2 ^ k"
  define r where "r = (- sz) mod 2 ^ k"
  have e: "- sz = d * 2 ^ k + r" by (simp only: d_def r_def div_mult_mod_eq)
  have "0 \<le> r" "r < 2 ^ k" by (simp_all add: r_def)
  moreover have n: "calculateBlocks k sz = - d" by (simp add: calculateBlocks_eq d_def)
  moreover have "(- d - 1) * 2 ^ k = - (d * 2 ^ k) - 2 ^ k" by (simp add: algebra_simps)
  ultimately show "sz \<le> calculateBlocks k sz * 2 ^ k" "(calculateBlocks k sz - 1) * 2 ^ k < sz"
    using e by (simp_all add: n)
qed

lemma blocks_eq:
  assumes "0 < sz" and "sz \<le> 2 ^ 62" and "k \<le> 16"
  shows "go_div (i64 (sz + 2 ^ k - 1)) (2 ^ k) = calculateBlocks k sz"
    and "i64 (calculateBlocks k sz * 2 ^ k) = calculateBlocks k sz * 2 ^ k"
    and "i64 ((calculateBlocks k sz - 1) * 2 ^ k) = (calculateBlocks k sz - 1) * 2 ^ k"
    and "1 \<le> calculateBlocks k sz"
proof -
  let ?B = "2 ^ k :: int" and ?nb = "calculateBlocks k sz"
  note c = calculateBlocks_bounds [where k = k and sz = sz]
  have B: "?B \<le> 2 ^ 16" using assms(3) by (intro power_increasing) auto
  have e: "(?nb - 1) * ?B = ?nb * ?B - ?B" by (simp add: algebra_simps)
  have "0 < ?nb * ?B" using c(1) assms(1) by linarith
  then show one: "1 \<le> ?nb" by (simp add: zero_less_mult_iff)
  have nn: "0 \<le> (?nb - 1) * ?B" using one by simp
  have p: "0 < ?B" by simp
  have "0 \<le> sz + ?B - 1" using assms(1) p by linarith
  moreover have "sz + ?B - 1 \<le> MaxInt64" using assms(2) B by simp
  ultimately have w: "i64 (sz + ?B - 1) = sz + ?B - 1" by (rule i64_id_nonneg)
  have "(sz + ?B - 1) div ?B = ?nb"
    using c e by (intro int_div_pos_eq [of _ _ _ "sz + ?B - 1 - ?nb * ?B"]) (auto simp: algebra_simps)
  moreover have "\<not> sz + ?B - 1 < 0" using assms(1) p by linarith
  ultimately show "go_div (i64 (sz + ?B - 1)) ?B = ?nb"
    by (simp add: go_div_def w)
  have "(?nb - 1) * ?B \<le> 2 ^ 62" using c(2) assms(2) by linarith
  with B e have "?nb * ?B \<le> MaxInt64" "(?nb - 1) * ?B \<le> MaxInt64" by simp_all
  with nn e p show "i64 (?nb * ?B) = ?nb * ?B" "i64 ((?nb - 1) * ?B) = (?nb - 1) * ?B"
    by (metis i64_id_nonneg \<open>0 < ?nb * ?B\<close> order_less_imp_le)+
qed

lemma block_index:
  assumes "0 \<le> pos" and "pos < sz"
  shows "pos div 2 ^ k < calculateBlocks k sz" and "pos = pos div 2 ^ k * 2 ^ k + pos mod 2 ^ k"
    and "pos div 2 ^ k = calculateBlocks k sz - 1 \<Longrightarrow> sz - pos div 2 ^ k * 2 ^ k \<le> 2 ^ k"
    and "pos div 2 ^ k \<noteq> calculateBlocks k sz - 1 \<Longrightarrow> 2 ^ k - pos mod 2 ^ k \<le> sz - pos"
proof -
  define nb where "nb = calculateBlocks k sz"
  define q where "q = pos div 2 ^ k"
  have c: "sz \<le> nb * 2 ^ k" "(nb - 1) * 2 ^ k < sz"
    unfolding nb_def by (rule calculateBlocks_bounds)+
  show "pos = pos div 2 ^ k * 2 ^ k + pos mod 2 ^ k" by (simp only: div_mult_mod_eq)
  then have e: "pos = q * 2 ^ k + pos mod 2 ^ k" by (simp only: q_def)
  have m: "0 \<le> pos mod 2 ^ k" "pos mod 2 ^ k < 2 ^ k" by simp_all
  have "q * 2 ^ k < nb * 2 ^ k" using e m c assms(2) by linarith
  then have lt: "q < nb" by simp
  then show "pos div 2 ^ k < calculateBlocks k sz" by (simp add: q_def nb_def)
  show "sz - pos div 2 ^ k * 2 ^ k \<le> 2 ^ k" if "pos div 2 ^ k = calculateBlocks k sz - 1"
  proof -
    have n: "nb = q + 1" using that by (simp add: nb_def q_def)
    have "(q + 1) * 2 ^ k = q * 2 ^ k + 2 ^ k" by (simp add: algebra_simps)
    with c(1) [unfolded n] show ?thesis unfolding q_def by linarith
  qed
  show "2 ^ k - pos mod 2 ^ k \<le> sz - pos" if "pos div 2 ^ k \<noteq> calculateBlocks k sz - 1"
  proof -
    have "q + 1 \<le> nb - 1" using that lt by (simp add: q_def nb_def)
    then have "(q + 1) * 2 ^ k \<le> (nb - 1) * 2 ^ k" by (intro mult_right_mono) auto
    with c e show ?thesis by (simp add: algebra_simps)
  qed
qed

text \<open>The length of the block at \<open>pos\<close>: to the end of the file or of the file's block,
  whichever is nearer.\<close>

definition block_len :: "nat \<Rightarrow> int \<Rightarrow> int \<Rightarrow> int" where
  "block_len k sz pos = min (2 ^ k - pos mod 2 ^ k) (sz - pos)"

lemma block_len_pos: "pos < sz \<Longrightarrow> 0 < block_len k sz pos"
  by (simp add: block_len_def)

lemma block_len_plain:
  assumes "0 \<le> pos" and "pos < sz"
  shows "(if pos div 2 ^ k = calculateBlocks k sz - 1 then sz - pos div 2 ^ k * 2 ^ k else 2 ^ k)
    - pos mod 2 ^ k = block_len k sz pos"
  using block_index [OF assms, of k] by (auto simp: block_len_def min_def)

lemma block_len_last:
  assumes "0 \<le> pos" and "pos < sz" and "pos div 2 ^ k = calculateBlocks k sz - 1"
  shows "block_len k sz pos = sz - pos"
  using block_len_plain [OF assms(1,2), of k] block_index(2) [OF assms(1,2), of k] assms(3)
  by simp

lemma go_rem_nonneg [simp]: "0 \<le> a \<Longrightarrow> go_rem a b = a mod b"
  by (simp add: go_rem_def)

lemma view_read_Inr:
  assumes "viewed (readBlock_in pool rd start lo hi) = Inr v" "lo \<le> hi" and "hi \<le> length pool"
  shows "\<exists>b e. ra_read rd start (hi - lo) = (b, e) \<and> length b = hi - lo \<and> v = (lo, hi, b)"
  using assms by (auto simp: view_read split: prod.splits if_splits)

lemma loadFlat_Inr:
  assumes "viewed (loadFlat_in pool img addr lo hi d) = Inr v" and "length pool = 2 ^ blkbits img"
  shows "\<exists>rd start b e. ra_read rd start (nat (hi - lo)) = (b, e) \<and> length b = nat (hi - lo) \<and>
     v = (nat lo, nat hi, b) \<and> 0 \<le> lo \<and> lo < hi \<and> hi \<le> 2 ^ blkbits img \<and>
     (if d then \<exists>dev. locateRange img (i64 (addr + lo)) (hi - lo) = Inr (dev, start) \<and>
                deviceReader img dev = Inr rd
      else checkImageRange img (i64 (addr + lo)) (hi - lo) = Inr () \<and> rd = meta img \<and>
           start = i64 (addr + lo))"
proof -
  have nb: "\<not> bad_bounds lo hi (2 ^ blkbits img)"
    using assms(1) by (auto simp: loadFlat_in_def)
  note b = bad_boundsD [OF nb] nat_le_length [OF nb assms(2)]
  have n: "nat hi - nat lo = nat (hi - lo)" using b by (simp add: nat_diff_distrib)
  show ?thesis
  proof (cases d)
    case True
    then obtain dev start rd where "locateRange img (i64 (addr + lo)) (hi - lo) = Inr (dev, start)"
      "deviceReader img dev = Inr rd" "viewed (readBlock_in pool rd start (nat lo) (nat hi)) = Inr v"
      using assms(1) nb by (auto simp: loadFlat_in_def Let_def)
    with True b view_read_Inr [OF this(3)] show ?thesis by (auto simp: n)
  next
    case False
    then have "checkImageRange img (i64 (addr + lo)) (hi - lo) = Inr ()"
      "viewed (readBlock_in pool (meta img) (i64 (addr + lo)) (nat lo) (nat hi)) = Inr v"
      using assms(1) nb by (auto simp: loadFlat_in_def Let_def)
    with False b view_read_Inr [OF this(2)] show ?thesis by (auto simp: n)
  qed
qed

lemma hole_Inr:
  assumes "viewed (if bad_bounds lo hi (2 ^ k) then Inl ErrCorrupt
      else Inr (holeBlock_in pool (nat lo) (nat hi))) = Inr v" and "length pool = 2 ^ k"
  shows "0 \<le> lo \<and> lo < hi \<and> hi \<le> 2 ^ k \<and> v = (nat lo, nat hi, replicate (nat (hi - lo)) 0)"
proof -
  have nb: "\<not> bad_bounds lo hi (2 ^ k)" using assms(1) by auto
  note b = bad_boundsD [OF nb] nat_le_length [OF nb assms(2)]
  with assms(1) nb show ?thesis by (auto simp: view_hole nat_diff_distrib)
qed

lemma chunkBlock_Inr:
  assumes "viewed (chunkBlock_in pool img cbits cn bn lo hi entry) = Inr v"
    and "length pool = 2 ^ blkbits img"
  shows "0 \<le> lo \<and> lo < hi \<and> hi \<le> 2 ^ blkbits img \<and>
     (case entry of
        None \<Rightarrow> v = (nat lo, nat hi, replicate (nat (hi - lo)) 0)
      | Some (addr, did) \<Rightarrow>
          (let a = (if shl64 bn (blkbits img) > 0
                    then i64 (addr + (shl64 bn (blkbits img) - shl64 cn cbits)) else addr)
           in \<exists>dev off rd b e. locate img did a = Inr (dev, off) \<and>
              boundOnDevice img dev (i64 (off + lo)) (hi - lo) = Inr () \<and>
              deviceReader img dev = Inr rd \<and>
              ra_read rd (i64 (off + lo)) (nat (hi - lo)) = (b, e) \<and> length b = nat (hi - lo) \<and>
              v = (nat lo, nat hi, b)))"
proof -
  have nb: "\<not> bad_bounds lo hi (2 ^ blkbits img)"
    using assms(1) by (auto simp: chunkBlock_in_def)
  note b = bad_boundsD [OF nb] nat_le_length [OF nb assms(2)]
  have n: "nat hi - nat lo = nat (hi - lo)" using b by (simp add: nat_diff_distrib)
  show ?thesis
  proof (cases entry)
    case None
    with assms(1) nb b show ?thesis by (auto simp: chunkBlock_in_def view_hole n)
  next
    case (Some p)
    obtain addr did where p: "p = (addr, did)" by (cases p)
    define a where "a = (if shl64 bn (blkbits img) > 0
                    then i64 (addr + (shl64 bn (blkbits img) - shl64 cn cbits)) else addr)"
    obtain dev off rd where l: "locate img did a = Inr (dev, off)"
      "boundOnDevice img dev (i64 (off + lo)) (hi - lo) = Inr ()" "deviceReader img dev = Inr rd"
      "viewed (readBlock_in pool rd (i64 (off + lo)) (nat lo) (nat hi)) = Inr v"
      using assms(1) nb unfolding chunkBlock_in_def Let_def Some p a_def by auto
    from l b view_read_Inr [OF l(4)] show ?thesis
      by (auto simp: n Some p Let_def a_def)
  qed
qed


text \<open>\<open>loadBlock\<close> inside the file, layout by layout.\<close>

lemma block_end:
  assumes pos: "0 \<le> pos" "pos < fsize fi"
  shows "(if pos div 2 ^ k = calculateBlocks k (fsize fi) - 1 then fsize fi - pos div 2 ^ k * 2 ^ k
    else 2 ^ k) = pos mod 2 ^ k + block_len k (fsize fi) pos"
  using block_len_plain [OF pos, of k] by linarith

lemma loadBlock_plain:
  assumes pos: "0 \<le> pos" "pos < fsize fi" and "inodeLayout fi = LayoutFlatPlain"
  shows "loadBlock_in pool img fi pos =
    (let k = blkbits img; lo = pos mod 2 ^ k; hi = lo + block_len k (fsize fi) pos in
     if nullAddress fi then
       (if bad_bounds lo hi (2 ^ k) then Inl ErrCorrupt
        else Inr (holeBlock_in pool (nat lo) (nat hi)))
     else bindE (blockAddr img (startBlock fi + word_of_int (pos div 2 ^ k))) (\<lambda>pa.
          loadFlat_in pool img pa lo hi True))"
  using assms block_index(1) [OF pos, of "blkbits img"]
  by (simp add: loadBlock_in_def Let_def drop_bit_eq_div block_end [OF pos])

lemma loadBlock_inline_head:
  assumes pos: "0 \<le> pos" "pos < fsize fi" and "inodeLayout fi = LayoutFlatInline"
    and "pos div 2 ^ blkbits img \<noteq> calculateBlocks (blkbits img) (fsize fi) - 1"
  shows "loadBlock_in pool img fi pos =
    (let k = blkbits img; lo = pos mod 2 ^ k; hi = lo + block_len k (fsize fi) pos in
     bindE (blockAddr img (startBlock fi + word_of_int (pos div 2 ^ k))) (\<lambda>pa.
       loadFlat_in pool img pa lo hi True))"
  using assms block_index(1) [OF pos, of "blkbits img"] block_end [OF pos, of "blkbits img"]
  by (simp add: loadBlock_in_def Let_def drop_bit_eq_div)

lemma loadBlock_inline_tail:
  assumes pos: "0 \<le> pos" "pos < fsize fi" and "inodeLayout fi = LayoutFlatInline"
    and "pos div 2 ^ blkbits img = calculateBlocks (blkbits img) (fsize fi) - 1"
  shows "loadBlock_in pool img fi pos =
    (let k = blkbits img; addr = i64 (inodeStart img (inid fi) + flatDataOffset fi);
         inBlock = addr AND (2 ^ k - 1); lo = inBlock + pos mod 2 ^ k
     in if lo + block_len k (fsize fi) pos > 2 ^ k then Inl ErrCorrupt
        else loadFlat_in pool img (addr AND NOT (2 ^ k - 1)) lo (lo + block_len k (fsize fi) pos) False)"
proof -
  let ?B = "2 ^ blkbits img :: int"
  have l: "block_len (blkbits img) (fsize fi) pos = fsize fi - pos"
    by (rule block_len_last [OF pos assms(4)])
  have h: "fsize fi - pos div ?B * ?B + x = x + pos mod ?B + (fsize fi - pos)" for x
    using block_index(2) [OF pos, of "blkbits img"] by linarith
  have q: "pos div ?B < calculateBlocks (blkbits img) (fsize fi)"
    by (rule block_index(1) [OF pos])
  show ?thesis
    unfolding loadBlock_in_def Let_def drop_bit_eq_div h l minus_div_mult_eq_mod
    using assms q by simp
qed

lemma loadBlock_chunk:
  assumes pos: "0 \<le> pos" "pos < fsize fi" and "inodeLayout fi = LayoutChunkBased"
  shows "loadBlock_in pool img fi pos =
    (let k = blkbits img; lo = pos mod 2 ^ k; hi = lo + block_len k (fsize fi) pos;
         format = chunkFormat fi; c = chunkBits img fi; cn = pos div 2 ^ c in
     if format AND LayoutChunkFormat48Bit \<noteq> 0 then Inl ErrNotImplemented
     else if format AND NOT (LayoutChunkFormatBits OR LayoutChunkFormatIndexes) \<noteq> 0
     then Inl ErrNotImplemented
     else bindE (loadChunkEntry img fi (i64 (chunkMapBase img fi + i64 (cn * chunkUnit fi))))
            (chunkBlock_in pool img c cn (pos div 2 ^ k) lo hi))"
proof -
  have "pos div 2 ^ c \<le> (fsize fi - 1) div 2 ^ c" for c
    using pos by (intro zdiv_mono1) auto
  then have c: "\<not> drop_bit c (fsize fi - 1) + 1 \<le> drop_bit c pos" for c
    unfolding drop_bit_eq_div by (simp add: not_le)
  show ?thesis
    using assms block_index(1) [OF pos, of "blkbits img"] c [of "chunkBits img fi"]
    by (simp add: loadBlock_in_def loadChunk_in_def Let_def block_end [OF pos] drop_bit_eq_div)
qed


lemma loadBlock_shape:
  assumes pos: "0 \<le> pos" "pos < fsize fi" and pool: "length pool = 2 ^ blkbits img"
    and v: "viewed (loadBlock_in pool img fi pos) = Inr (lo, hi, b)"
  shows "lo < hi" and "hi \<le> 2 ^ blkbits img" and "length b = hi - lo"
    and "int (length b) = block_len (blkbits img) (fsize fi) pos"
proof -
  let ?n = "block_len (blkbits img) (fsize fi) pos"
  have n: "0 < ?n" by (rule block_len_pos [OF pos(2)])
  have "\<exists>l. 0 \<le> l \<and> l + ?n \<le> 2 ^ blkbits img \<and> lo = nat l \<and> hi = nat (l + ?n) \<and> length b = nat ?n"
  proof (cases "inodeLayout fi = LayoutFlatPlain")
    case True
    show ?thesis
    proof (cases "nullAddress fi")
      case null: True
      let ?l = "pos mod 2 ^ blkbits img"
      have "viewed (if bad_bounds ?l (?l + ?n) (2 ^ blkbits img) then Inl ErrCorrupt
          else Inr (holeBlock_in pool (nat ?l) (nat (?l + ?n)))) = Inr (lo, hi, b)"
        using v null by (simp only: loadBlock_plain [OF pos True] Let_def if_True)
      from hole_Inr [OF this pool] show ?thesis by (intro exI [of _ ?l]) auto
    next
      case False
      from v False obtain pa where
        "viewed (loadFlat_in pool img pa (pos mod 2 ^ blkbits img) (pos mod 2 ^ blkbits img + ?n) True) = Inr (lo, hi, b)"
        by (auto simp: loadBlock_plain [OF pos True] Let_def)
      from loadFlat_Inr [OF this pool] show ?thesis
        by (intro exI [of _ "pos mod 2 ^ blkbits img"]) auto
    qed
  next
    case notplain: False
    show ?thesis
    proof (cases "inodeLayout fi = LayoutFlatInline")
      case inl: True
      show ?thesis
      proof (cases "pos div 2 ^ blkbits img = calculateBlocks (blkbits img) (fsize fi) - 1")
        case True
        from v obtain a l where "viewed (loadFlat_in pool img a l (l + ?n) False) = Inr (lo, hi, b)"
          by (auto simp: loadBlock_inline_tail [OF pos inl True] Let_def split: if_splits)
        from loadFlat_Inr [OF this pool] show ?thesis by (intro exI [of _ l]) auto
      next
        case False
        from v obtain pa where
          "viewed (loadFlat_in pool img pa (pos mod 2 ^ blkbits img) (pos mod 2 ^ blkbits img + ?n) True) = Inr (lo, hi, b)"
          by (auto simp: loadBlock_inline_head [OF pos inl False] Let_def)
        from loadFlat_Inr [OF this pool] show ?thesis
          by (intro exI [of _ "pos mod 2 ^ blkbits img"]) auto
      qed
    next
      case notinl: False
      have chunk: "inodeLayout fi = LayoutChunkBased"
      proof (rule ccontr)
        assume "inodeLayout fi \<noteq> LayoutChunkBased"
        with v notplain notinl show False by (auto simp: loadBlock_in_def Let_def split: if_splits)
      qed
      from v obtain e where
        "viewed (chunkBlock_in pool img (chunkBits img fi) (pos div 2 ^ chunkBits img fi) (pos div 2 ^ blkbits img)
           (pos mod 2 ^ blkbits img) (pos mod 2 ^ blkbits img + ?n) e) = Inr (lo, hi, b)"
        by (auto simp: loadBlock_chunk [OF pos chunk] Let_def split: if_splits)
      from chunkBlock_Inr [OF this pool] show ?thesis
        by (intro exI [of _ "pos mod 2 ^ blkbits img"]; cases e) (auto simp: Let_def)
    qed
  qed
  then obtain l where l: "0 \<le> l" "l + ?n \<le> 2 ^ blkbits img" "lo = nat l" "hi = nat (l + ?n)" "length b = nat ?n"
    by blast
  show "lo < hi" using l n by simp
  show "hi \<le> 2 ^ blkbits img" using l by (simp add: nat_le_iff)
  show "length b = hi - lo" using l n by (simp add: nat_add_distrib)
  show "int (length b) = ?n" using l n by simp
qed

section \<open>The whole-file fast path\<close>

text \<open>The loop over the chunk indexes that checks they name one run of one device: chunk \<open>i\<close> on,
  \<open>n\<close> of them left, with the first chunk's block and device once seen.\<close>

fun directRun :: "image \<Rightarrow> bytes \<Rightarrow> u64 \<Rightarrow> nat \<Rightarrow> nat \<Rightarrow> u64 \<times> u16 \<Rightarrow> (u64 \<times> u16) option" where
  "directRun img idxBuf blocksPerChunk i 0 acc = Some acc"
| "directRun img idxBuf blocksPerChunk i (Suc n) (start, deviceID) =
     (let off = i * SizeChunkIndex; blkLo = le32 idxBuf (off + 4) in
      if NOT blkLo = 0 then None
      else
        let did = le16 idxBuf (off + 2) AND deviceIDMask img; phys = ucast blkLo in
        if i = 0 then directRun img idxBuf blocksPerChunk (Suc i) n (phys, did)
        else if phys \<noteq> start + of_nat i * blocksPerChunk \<or> did \<noteq> deviceID then None
        else directRun img idxBuf blocksPerChunk (Suc i) n (start, deviceID))"

definition okay :: "'a result \<Rightarrow> 'a option" where
  "okay r = (case r of Inl _ \<Rightarrow> None | Inr x \<Rightarrow> Some x)"

definition directAt :: "image \<Rightarrow> u16 \<Rightarrow> int \<Rightarrow> int \<Rightarrow> reader option" where
  "directAt img dev off n =
     map_option (\<lambda>rd. section_reader rd off n) (okay (deviceReader img dev))"

definition openDirect_chunks :: "image \<Rightarrow> inode \<Rightarrow> reader option" where
  "openDirect_chunks img ino =
     (let chunkFmt = chunkFormat ino in
      if chunkFmt AND LayoutChunkFormatIndexes = 0 then None
      else if chunkFmt AND NOT (LayoutChunkFormatBits OR LayoutChunkFormatIndexes) \<noteq> 0 then None
      else
        let cbits = chunkBits img ino;
            nchunks = drop_bit cbits (fsize ino - 1) + 1;
            baseOffset = chunkMapBase img ino;
            needed = i64 (nchunks * SizeChunkIndex)
        in if \<not> chunkIndexFits img baseOffset needed then None
           else
             case ra_read (meta img) baseOffset (nat needed) of
               (_, Some _) \<Rightarrow> None
             | (b, None) \<Rightarrow>
                 Option.bind (directRun img (read_into (nat needed) b)
                                (push_bit (cbits - blkbits img) 1) 0 (nat nchunks) (0, 0))
                   (\<lambda>(start, did).
                 Option.bind (okay (chunkAddr img start)) (\<lambda>dataOffset.
                 Option.bind (okay (locate img did dataOffset)) (\<lambda>(dev, mapped).
                 if boundOnDevice img dev mapped (fsize ino) \<noteq> Inr () then None
                 else directAt img dev mapped (fsize ino)))))"

definition openDirect :: "image \<Rightarrow> inode \<Rightarrow> reader option" where
  "openDirect img ino =
     (if fsize ino \<le> 0 then None
      else
        let bsz = 2 ^ blkbits img in
        if inodeLayout ino = LayoutFlatPlain then
          (if nullAddress ino then None
           else Option.bind (okay (locateStart img ino (fsize ino)))
                  (\<lambda>(dev, off). directAt img dev off (fsize ino)))
        else if inodeLayout ino = LayoutFlatInline then
          (if fsize ino > bsz then None
           else
             let trailingAddr = i64 (inodeStart img (inid ino) + flatDataOffset ino) in
             if (trailingAddr AND (bsz - 1)) + fsize ino > bsz then None
             else if checkImageRange img trailingAddr (fsize ino) \<noteq> Inr () then None
             else Some (section_reader (meta img) trailingAddr (fsize ino)))
        else if inodeLayout ino = LayoutChunkBased then openDirect_chunks img ino
        else None)"

definition directReader :: "image \<Rightarrow> open_file \<Rightarrow> inode \<Rightarrow> open_file" where
  "directReader img f ino =
     (if \<not> directChecked f then f\<lparr>directChecked := True, fdirect := openDirect img ino\<rparr> else f)"

section \<open>Reading\<close>

lemma loadBlock_nonempty:
  assumes "viewed (loadBlock_in pool img fi pos) = Inr (lo, hi, b)" and pool: "length pool = 2 ^ blkbits img"
  shows "b \<noteq> []"
proof
  assume "b = []"
  have flat: "viewed (loadFlat_in pool img a l h d) \<noteq> Inr (lo, hi, [])" for a l h d
    using loadFlat_Inr [OF _ pool, of a l h d "(lo, hi, [])"] by auto
  have hole: "block_view (holeBlock_in pool (nat l) (nat h)) \<noteq> (lo, hi, [])"
    if "\<not> bad_bounds l h (2 ^ blkbits img)" for l h
    using nat_le_length [OF that pool] bad_boundsD [OF that] by (auto simp: view_hole)
  have chunk: "viewed (chunkBlock_in pool img c cn bn l h e) \<noteq> Inr (lo, hi, [])" for c cn bn l h e
    using chunkBlock_Inr [OF _ pool, of c cn bn l h e "(lo, hi, [])"]
    by (cases e) (auto simp: Let_def)
  show False
    using assms(1) unfolding loadBlock_in_def loadChunk_in_def Let_def \<open>b = []\<close>
    by (simp add: flat hole chunk split: if_splits)
qed

lemma block_bytes_nonempty:
  assumes "loadBlock img fi pos = Inr blk"
  shows "block_bytes blk \<noteq> []"
proof -
  have "viewed (loadBlock_in (getBlock img) img fi pos) = Inr (offset blk, bend blk, block_bytes blk)"
    using assms(1) by (simp add: loadBlock_def block_view_def)
  from loadBlock_nonempty [OF this] show ?thesis
    by (simp add: getBlock_def)
qed

text \<open>The block loop of \<open>Read\<close>: \<open>n\<close> bytes of the caller's buffer are left, \<open>acc\<close> is what it
  holds. No block is empty, so the loop ends.\<close>

function readLoop :: "image \<Rightarrow> inode \<Rightarrow> int \<Rightarrow> nat \<Rightarrow> bytes \<Rightarrow> bytes \<times> err option \<times> int" where
  "readLoop img fi off n acc =
     (if n = 0 then (acc, None, off)
      else if off \<ge> fsize fi then (acc, Some EOF, off)
      else case loadBlock img fi off of
             Inl e \<Rightarrow> (acc, Some (if errors_Is e EOF then EOF else e), off)
           | Inr blk \<Rightarrow>
               let copied = take n (block_bytes blk) in
               readLoop img fi (off + int (length copied)) (n - length copied) (acc @ copied))"
  by pat_completeness auto

termination
proof (relation "measure (\<lambda>(img, fi, off, n, acc). n)")
  fix img fi off n acc blk copied
  assume "n \<noteq> 0" "loadBlock img fi off = Inr blk" and "copied = take n (block_bytes blk)"
  with block_bytes_nonempty [of img fi off blk]
  show "((img, fi, off + int (length copied), n - length copied, acc @ copied), (img, fi, off, n, acc))
    \<in> measure (\<lambda>(img, fi, off, n, acc). n)"
    by auto
qed simp

declare readLoop.simps [simp del]

definition Read :: "image \<Rightarrow> open_file \<Rightarrow> nat \<Rightarrow> open_file \<times> bytes \<times> err option" where
  "Read img f n =
     (case readInfo img f of
        (f, Inl e) \<Rightarrow> (f, [], Some e)
      | (f, Inr fi) \<Rightarrow>
          let f = directReader img f fi in
          case fdirect f of
            Some sr \<Rightarrow>
              if foffset f \<ge> fsize fi then (f, [], Some EOF)
              else
                let remaining = i64 (fsize fi - foffset f);
                    n = (if int n > remaining then nat remaining else n);
                    (b, e) = ra_read sr (foffset f) n;
                    f = f\<lparr>foffset := foffset f + int (length b)\<rparr>
                in (f, b, if e = Some EOF \<and> length b = n then None else e)
          | None \<Rightarrow>
              (case readLoop img fi (foffset f) n [] of
                 (b, e, off) \<Rightarrow> (f\<lparr>foffset := off\<rparr>, b, e)))"

text \<open>\<open>io.ReadFull\<close> of the standard library over \<open>Read\<close>, which goes on as long as a read returns
  no error and the buffer is not full, and \<open>readAll\<close> on top of it.\<close>

partial_function (option) ReadFull ::
  "image \<Rightarrow> open_file \<Rightarrow> nat \<Rightarrow> bytes \<Rightarrow> (open_file \<times> bytes \<times> err option) option" where
  "ReadFull img f n acc =
     (case Read img f n of
        (f, b, e) \<Rightarrow>
          if length b \<ge> n then Some (f, acc @ b, None)
          else case e of
                 None \<Rightarrow> ReadFull img f (n - length b) (acc @ b)
               | Some e \<Rightarrow>
                   Some (f, acc @ b, Some (if e = EOF \<and> acc @ b \<noteq> [] then ErrUnexpectedEOF else e)))"

definition readAll :: "image \<Rightarrow> open_file \<Rightarrow> nat \<Rightarrow> (open_file \<times> bytes result) option" where
  "readAll img f n =
     (if n = 0 then Some (f, Inr [])
      else map_option (\<lambda>(f, b, e).
             (f, case e of
                   None \<Rightarrow> Inr b
                 | Some e \<Rightarrow>
                     Inl (if errors_Is e EOF \<or> errors_Is e ErrUnexpectedEOF then ErrCorrupt else e)))
           (ReadFull img f n []))"

section \<open>Data ranges\<close>

record DataRange =
  dr_Device :: u16
  dr_Offset :: int
  dr_Size :: int

abbreviation (input) holeOffset :: int where "holeOffset \<equiv> - 1"

definition flatPlainRange :: "image \<Rightarrow> inode \<Rightarrow> DataRange list result" where
  "flatPlainRange img ino =
     (if nullAddress ino
      then Inr [\<lparr> dr_Device = 0, dr_Offset = holeOffset, dr_Size = fsize ino \<rparr>]
      else bindE (locateStart img ino (fsize ino)) (\<lambda>(dev, off).
           Inr [\<lparr> dr_Device = dev, dr_Offset = off, dr_Size = fsize ino \<rparr>]))"

text \<open>A chunk of the index: the hole, or the device and address it is located at.\<close>

definition chunkRange :: "image \<Rightarrow> inode \<Rightarrow> bytes \<Rightarrow> nat \<Rightarrow> int \<Rightarrow> DataRange result" where
  "chunkRange img ino idxBuf i sz =
     (let off = i * nat (chunkUnit ino);
          indexed = chunkFormat ino AND LayoutChunkFormatIndexes \<noteq> 0;
          deviceID = (if indexed then le16 idxBuf (off + 2) AND deviceIDMask img else 0);
          blkLo = (if indexed then le32 idxBuf (off + 4) else le32 idxBuf off)
      in if NOT blkLo = 0 then Inr \<lparr> dr_Device = 0, dr_Offset = holeOffset, dr_Size = sz \<rparr>
         else
           bindE (chunkAddr img (ucast blkLo)) (\<lambda>byteOffset.
           bindE (locate img deviceID byteOffset) (\<lambda>(dev, byteOffset).
           bindE (boundOnDevice img dev byteOffset sz) (\<lambda>_.
           Inr \<lparr> dr_Device = dev, dr_Offset = byteOffset, dr_Size = sz \<rparr>))))"

text \<open>A chunk's range joined to the ranges so far: a hole to a preceding hole, data to the data
  of the same device it continues.\<close>

definition joinRange :: "DataRange list \<Rightarrow> DataRange \<Rightarrow> DataRange list" where
  "joinRange ranges r =
     (if ranges \<noteq> [] \<and>
         (if dr_Offset r = holeOffset then dr_Offset (last ranges) = holeOffset
          else dr_Offset (last ranges) \<noteq> holeOffset \<and> dr_Device (last ranges) = dr_Device r \<and>
               i64 (dr_Offset (last ranges) + dr_Size (last ranges)) = dr_Offset r)
      then butlast ranges @ [(last ranges)\<lparr>dr_Size := dr_Size (last ranges) + dr_Size r\<rparr>]
      else ranges @ [r])"

fun chunkRanges ::
  "image \<Rightarrow> inode \<Rightarrow> bytes \<Rightarrow> nat \<Rightarrow> nat \<Rightarrow> DataRange list \<Rightarrow> DataRange list result" where
  "chunkRanges img ino idxBuf i 0 ranges = Inr ranges"
| "chunkRanges img ino idxBuf i (Suc n) ranges =
     (let chunkSize = shl64 1 (chunkBits img ino);
          sz = (if n = 0 then i64 (fsize ino - i64 (int i * chunkSize)) else chunkSize)
      in bindE (chunkRange img ino idxBuf i sz) (\<lambda>r.
         chunkRanges img ino idxBuf (Suc i) n (joinRange ranges r)))"

definition buildChunkDataRanges :: "image \<Rightarrow> inode \<Rightarrow> DataRange list result" where
  "buildChunkDataRanges img ino =
     (if chunkFormat ino AND LayoutChunkFormat48Bit \<noteq> 0 then Inl ErrNotImplemented
      else
        let nchunks = drop_bit (chunkBits img ino) (fsize ino - 1) + 1;
            baseOffset = chunkMapBase img ino;
            needed = i64 (nchunks * chunkUnit ino)
        in if \<not> chunkIndexFits img baseOffset needed then Inl ErrCorrupt
           else
             case ra_read (meta img) baseOffset (nat needed) of
               (_, Some e) \<Rightarrow> Inl e
             | (b, None) \<Rightarrow>
                 chunkRanges img ino (read_into (nat needed) b) 0 (nat nchunks) [])"

definition buildDataRanges :: "image \<Rightarrow> inode \<Rightarrow> DataRange list result" where
  "buildDataRanges img ino =
     (let bsz = 2 ^ blkbits img in
      if inodeLayout ino = LayoutFlatPlain then flatPlainRange img ino
      else if inodeLayout ino = LayoutFlatInline then
        (let trailingAddr = i64 (inodeStart img (inid ino) + flatDataOffset ino) in
         if fsize ino \<le> bsz then
           bindE (checkImageRange img trailingAddr (fsize ino)) (\<lambda>_.
           Inr [\<lparr> dr_Device = 0, dr_Offset = trailingAddr, dr_Size = fsize ino \<rparr>])
         else
           let headSize = (fsize ino - 1) div bsz * bsz; tailSize = fsize ino - headSize in
           bindE (if headSize > 0 then
                    bindE (locateStart img ino headSize) (\<lambda>(dev, off).
                    Inr [\<lparr> dr_Device = dev, dr_Offset = off, dr_Size = headSize \<rparr>])
                  else Inr []) (\<lambda>dst.
           bindE (checkImageRange img trailingAddr tailSize) (\<lambda>_.
           Inr (dst @ [\<lparr> dr_Device = 0, dr_Offset = trailingAddr, dr_Size = tailSize \<rparr>]))))
      else if inodeLayout ino = LayoutChunkBased then buildChunkDataRanges img ino
      else Inr [])"

section \<open>Lemmas on data ranges\<close>

text \<open>The extent known for a device, zero when none is.\<close>

definition device_extent :: "image \<Rightarrow> u16 \<Rightarrow> int" where
  "device_extent img dev =
     (if dev = 0 then isize img
      else let d = devices img ! (unat dev - 1) in
           if dsize d > 0 then dsize d else uint (dblocks d) * 2 ^ blkbits img)"

lemma boundOnDevice_iff:
  assumes "blkbits img \<le> 16"
  shows "boundOnDevice img dev off n = Inr () \<longleftrightarrow>
    unat dev \<le> length (devices img) \<and> 0 \<le> off \<and> 0 \<le> n \<and> off + n \<le> MaxInt64 \<and>
    (device_extent img dev > 0 \<longrightarrow> off + n \<le> device_extent img dev)"
proof (cases "dev = 0")
  case True
  then show ?thesis by (auto simp: boundOnDevice_def checkImageRange_iff device_extent_def)
next
  case False
  have z: "uint w * 2 ^ blkbits img > 0 \<longleftrightarrow> uint w \<noteq> 0" for w :: u32
    using uint_nonnegative [of w] by (auto simp: zero_less_mult_iff order_le_less)
  have nz: "\<not> (0 \<le> off \<and> 0 \<le> n \<and> off + n \<le> MaxInt64) \<Longrightarrow> ?thesis"
    using False by (auto simp: boundOnDevice_def)
  show ?thesis
  proof (cases "0 \<le> off \<and> 0 \<le> n \<and> off + n \<le> MaxInt64")
    case True
    then have "i64 (off + n) = off + n" by (intro i64_id_nonneg) auto
    with True False z assms show ?thesis
      by (auto simp: boundOnDevice_def device_extent_def Let_def shl64_u32)
  qed (rule nz)
qed

lemma boundOnDevice_join:
  assumes "blkbits img \<le> 16" and "boundOnDevice img dev off m = Inr ()"
    and "boundOnDevice img dev (off + m) n = Inr ()"
  shows "boundOnDevice img dev off (m + n) = Inr ()"
  using assms by (auto simp: boundOnDevice_iff)

lemma chunkBits_eq:
  assumes "blkbits img \<le> 16"
  shows "chunkBits img fi = blkbits img + unat (chunkFormat fi AND 0x1F)"
    and "unat (chunkFormat fi AND 0x1F) \<le> 31"
proof -
  have m: "chunkFormat fi AND 0x1F \<le> 0x1F" by (rule word_and_le1)
  then show u: "unat (chunkFormat fi AND 0x1F) \<le> 31" by (simp add: word_le_nat_alt)
  then have "unat (ucast (chunkFormat fi AND 0x1F) :: byte) = unat (chunkFormat fi AND 0x1F)"
    by (simp add: unsigned_ucast_eq take_bit_nat_eq_self)
  moreover have "unat ((a :: byte) + b) = unat a + unat b" if "unat a + unat b < 256" for a b
    using that by (simp add: unat_word_ariths)
  ultimately show "chunkBits img fi = blkbits img + unat (chunkFormat fi AND 0x1F)"
    using u assms by (simp add: chunkBits_def)
qed

lemma chunkBits_bounds: "blkbits img \<le> 16 \<Longrightarrow> blkbits img \<le> chunkBits img fi \<and> chunkBits img fi \<le> 47"
  using chunkBits_eq [of img fi] by linarith

lemma shl64_one: "k \<le> 47 \<Longrightarrow> shl64 1 k = 2 ^ k"
proof -
  assume "k \<le> 47"
  then have "(2 :: int) ^ k \<le> 2 ^ 47" by (intro power_increasing) auto
  then show ?thesis by (simp add: shl64_def push_bit_eq_mult i64_id_nonneg)
qed

text \<open>A list of ranges a caller may follow: every entry has bytes, and every data entry lies on a
  device of the image within the extent known for it.\<close>

definition range_ok :: "image \<Rightarrow> DataRange \<Rightarrow> bool" where
  "range_ok img r \<longleftrightarrow> dr_Size r > 0 \<and>
     (dr_Offset r = holeOffset \<or> boundOnDevice img (dr_Device r) (dr_Offset r) (dr_Size r) = Inr ())"

definition total :: "DataRange list \<Rightarrow> int" where
  "total rs = sum_list (map dr_Size rs)"

lemma total_simps [simp]: "total [] = 0" "total (r # rs) = dr_Size r + total rs" "total (xs @ ys) = total xs + total ys"
  by (simp_all add: total_def)

lemma joinRange_total: "total (joinRange rs r) = total rs + dr_Size r"
proof (cases "rs = []")
  case False
  then have "total rs = total (butlast rs) + dr_Size (last rs)"
    by (metis append_butlast_last_id total_simps(1,2,3) add.right_neutral)
  then show ?thesis by (simp add: joinRange_def)
qed (simp add: joinRange_def)

lemma joinRange_ok:
  assumes k: "blkbits img \<le> 16" and rs: "\<forall>x \<in> set rs. range_ok img x" and r: "range_ok img r"
  shows "\<forall>x \<in> set (joinRange rs r). range_ok img x"
proof (cases "joinRange rs r = rs @ [r]")
  case True
  with rs r show ?thesis by auto
next
  case False
  let ?l = "last rs"
  have ne: "rs \<noteq> []" and j: "joinRange rs r = butlast rs @ [?l\<lparr>dr_Size := dr_Size ?l + dr_Size r\<rparr>]"
    and c: "if dr_Offset r = holeOffset then dr_Offset ?l = holeOffset
      else dr_Offset ?l \<noteq> holeOffset \<and> dr_Device ?l = dr_Device r \<and>
           i64 (dr_Offset ?l + dr_Size ?l) = dr_Offset r"
    using False by (auto simp: joinRange_def split: if_splits)
  have l: "range_ok img ?l" using ne rs by simp
  have "range_ok img (?l\<lparr>dr_Size := dr_Size ?l + dr_Size r\<rparr>)"
  proof (cases "dr_Offset r = holeOffset")
    case True
    with c l r show ?thesis by (auto simp: range_ok_def)
  next
    case hole: False
    with c l have b: "boundOnDevice img (dr_Device r) (dr_Offset ?l) (dr_Size ?l) = Inr ()"
      by (auto simp: range_ok_def)
    then have "i64 (dr_Offset ?l + dr_Size ?l) = dr_Offset ?l + dr_Size ?l"
      using boundOnDevice_iff [OF k] by (intro i64_id_nonneg) auto
    with c hole r have "boundOnDevice img (dr_Device r) (dr_Offset ?l + dr_Size ?l) (dr_Size r) = Inr ()"
      by (auto simp: range_ok_def)
    from boundOnDevice_join [OF k b this] c hole l r show ?thesis
      by (auto simp: range_ok_def)
  qed
  with rs show ?thesis by (auto simp: j dest: in_set_butlastD)
qed

lemma chunkRange_ok:
  "chunkRange img ino idxBuf i sz = Inr r \<Longrightarrow> sz > 0 \<Longrightarrow> range_ok img r \<and> dr_Size r = sz"
  by (auto simp: chunkRange_def range_ok_def Let_def split: if_splits)

lemma chunkRanges_ok:
  assumes k: "blkbits img \<le> 16" and f: "fsize ino \<le> MaxInt64"
    and "chunkRanges img ino idxBuf i n rs = Inr out"
    and "n > 0 \<Longrightarrow> int (i + n - 1) * 2 ^ chunkBits img ino < fsize ino"
    and "\<forall>x \<in> set rs. range_ok img x"
  shows "(\<forall>x \<in> set out. range_ok img x) \<and>
    total out = total rs + (if n = 0 then 0 else fsize ino - int i * 2 ^ chunkBits img ino)"
  using assms(3-)
proof (induction n arbitrary: i rs)
  case (Suc n)
  let ?c = "2 ^ chunkBits img ino :: int"
  have c: "shl64 1 (chunkBits img ino) = ?c" using chunkBits_bounds [OF k] by (intro shl64_one) blast
  have le: "int i * ?c \<le> int (i + n) * ?c" by (intro mult_right_mono) auto
  have lt: "int (i + n) * ?c < fsize ino" using Suc.prems(2) by simp
  define sz where "sz = (if n = 0 then fsize ino - int i * ?c else ?c)"
  have nn: "0 \<le> int i * ?c" by simp
  have w: "i64 (int i * ?c) = int i * ?c" "i64 (fsize ino - int i * ?c) = fsize ino - int i * ?c"
    by (rule i64_id_nonneg; use nn le lt f in linarith)+
  obtain r where r: "chunkRange img ino idxBuf i sz = Inr r"
    and rest: "chunkRanges img ino idxBuf (Suc i) n (joinRange rs r) = Inr out"
    using Suc.prems(1) unfolding chunkRanges.simps Let_def c w sz_def by auto
  have sz: "sz > 0" using lt by (auto simp: sz_def)
  note rk = chunkRange_ok [OF r sz]
  have ok: "\<forall>x \<in> set (joinRange rs r). range_ok img x"
    using joinRange_ok [OF k Suc.prems(3)] rk by blast
  have "n > 0 \<Longrightarrow> int (Suc i + n - 1) * ?c < fsize ino" using lt by simp
  from Suc.IH [OF rest this ok] rk show ?case
    by (auto simp: joinRange_total sz_def algebra_simps)
qed simp

lemma div_mult_le: "0 < c \<Longrightarrow> a div c * c \<le> (a :: int)"
  using div_mult_mod_eq [of a c] pos_mod_sign [of c a] by linarith

lemma buildChunkDataRanges_ok:
  assumes k: "blkbits img \<le> 16" and f: "0 < fsize ino" "fsize ino \<le> MaxInt64"
    and b: "buildChunkDataRanges img ino = Inr rs"
  shows "(\<forall>r \<in> set rs. range_ok img r) \<and> total rs = fsize ino"
proof -
  let ?c = "2 ^ chunkBits img ino :: int"
  define n where "n = nat ((fsize ino - 1) div ?c + 1)"
  have q: "0 \<le> (fsize ino - 1) div ?c" using f by (simp add: pos_imp_zdiv_nonneg_iff)
  obtain idx where "chunkRanges img ino idx 0 n [] = Inr rs"
    using b unfolding n_def
    by (auto simp: buildChunkDataRanges_def Let_def drop_bit_eq_div split: if_splits prod.splits option.splits)
  moreover have "int (0 + n - 1) * ?c < fsize ino" if "n > 0"
  proof -
    have "(fsize ino - 1) div ?c * ?c \<le> fsize ino - 1"
      by (rule div_mult_le) simp
    moreover have "int (0 + n - 1) = (fsize ino - 1) div ?c" using q by (simp add: n_def nat_add_distrib)
    ultimately show ?thesis by simp
  qed
  moreover have "n > 0" using q by (simp add: n_def)
  ultimately show ?thesis using chunkRanges_ok [OF k f(2), of idx 0 n "[]" rs] by simp
qed


text \<open>The flat layouts bound a range on an extra device by the blocks of its slot.\<close>

definition flat_range_ok :: "image \<Rightarrow> DataRange \<Rightarrow> bool" where
  "flat_range_ok img r \<longleftrightarrow> dr_Size r > 0 \<and>
     (dr_Offset r = holeOffset \<or> (\<exists>pa. in_extent img (dr_Device r) pa (dr_Offset r) (dr_Size r)))"

lemma locateStart_in_extent:
  assumes "image_ok img" and "locateStart img ino n = Inr (dev, off)"
  shows "\<exists>pa. in_extent img dev pa off n"
  using assms(2) locateRange_sound(2) [OF image_okD(2,3) [OF assms(1)]]
  by (simp add: locateStart_def) blast

lemma checkImageRange_in_extent:
  "checkImageRange img off n = Inr () \<Longrightarrow> in_extent img 0 off off n"
  by (simp add: checkImageRange_iff in_extent_def)

lemma buildDataRanges_ok:
  assumes ok: "image_ok img" and f: "0 < fsize ino" "fsize ino \<le> MaxInt64"
    and b: "buildDataRanges img ino = Inr rs"
    and l: "inodeLayout ino \<in> {LayoutFlatPlain, LayoutFlatInline, LayoutChunkBased}"
  shows "(\<forall>r \<in> set rs. range_ok img r \<or> flat_range_ok img r) \<and> total rs = fsize ino"
proof -
  have k: "blkbits img \<le> 16" using ok by blast
  consider "inodeLayout ino = LayoutFlatPlain" | "inodeLayout ino = LayoutFlatInline" "fsize ino \<le> 2 ^ blkbits img"
    | "inodeLayout ino = LayoutFlatInline" "fsize ino > 2 ^ blkbits img" | "inodeLayout ino = LayoutChunkBased"
    using l by fastforce
  then show ?thesis
  proof cases
    case 1
    with b f show ?thesis
      by (auto simp: buildDataRanges_def flatPlainRange_def flat_range_ok_def Let_def
          dest: locateStart_in_extent [OF ok] split: if_splits)
  next
    case 2
    with b f show ?thesis
      by (auto simp: buildDataRanges_def flat_range_ok_def Let_def dest: checkImageRange_in_extent)
  next
    case 3
    let ?h = "(fsize ino - 1) div 2 ^ blkbits img * 2 ^ blkbits img"
    have h: "?h \<le> fsize ino - 1" by (rule div_mult_le) simp
    have "1 \<le> (fsize ino - 1) div 2 ^ blkbits img"
      using 3(2) by (subst int_le_div_iff) auto
    then have "0 < ?h" by simp
    with b 3 obtain dev off where s: "locateStart img ino ?h = Inr (dev, off)"
      and c: "checkImageRange img (i64 (inodeStart img (inid ino) + flatDataOffset ino)) (fsize ino - ?h) = Inr ()"
      and rs: "rs = [\<lparr> dr_Device = dev, dr_Offset = off, dr_Size = ?h \<rparr>,
         \<lparr> dr_Device = 0, dr_Offset = i64 (inodeStart img (inid ino) + flatDataOffset ino),
           dr_Size = fsize ino - ?h \<rparr>]"
      by (auto simp: buildDataRanges_def Let_def)
    from \<open>0 < ?h\<close> h locateStart_in_extent [OF ok s] checkImageRange_in_extent [OF c]
    show ?thesis by (auto simp: rs flat_range_ok_def)
  next
    case 4
    then have "buildChunkDataRanges img ino = Inr rs"
      using b by (simp add: buildDataRanges_def)
    from buildChunkDataRanges_ok [OF k f this] show ?thesis by blast
  qed
qed

section \<open>Sample files\<close>

text \<open>The sample image with one inode: a compact one of a regular file, of the given layout and
  size, at the given place of the body.\<close>

definition sample_compact :: "byte \<Rightarrow> byte \<Rightarrow> byte \<Rightarrow> bytes" where
  "sample_compact format szlo szhi =
     [format, 0, 0, 0, 0xA4, 0x81, 1, 0, szlo, szhi, 0, 0] @ replicate 20 0"

definition sample_inode :: "u64 \<Rightarrow> byte \<Rightarrow> int \<Rightarrow> inode" where
  "sample_inode nid layout sz =
     \<lparr> iname = [], inid = nid, icsize = 32, xsize = 0, inodeLayout = layout, inodeData = 0,
       startHi = 0, addr48 = False, fsize = sz, imode = 0x1A4, rawMode = 0x81A4,
       iuid = 0, igid = 0, inlink = 1, imtime = 0, imtimeNs = 0 \<rparr>"

text \<open>A file of five bytes stored behind its inode.\<close>

definition sample_hello :: bytes where
  "sample_hello = sample_compact 4 5 0 @ [104, 101, 108, 108, 111] @ replicate 347 0"

text \<open>A chunk-based file of ten bytes whose chunk map would start where the image ends.\<close>

definition sample_chunked :: bytes where
  "sample_chunked = replicate 352 0 @ sample_compact 8 10 0"

text \<open>A file of 400 bytes stored behind its inode, across the end of the inode's block.\<close>

definition sample_crossing :: bytes where
  "sample_crossing = sample_compact 4 0x90 1 @ replicate 864 7"

lemma sample_lengths [simp]:
  "length (sample_compact a b c) = 32" "length sample_hello = 384" "length sample_chunked = 384"
  "length sample_crossing = 896"
  by (simp_all add: sample_compact_def sample_hello_def sample_chunked_def sample_crossing_def)

lemma sample_img_simps [simp]:
  "blkbits (sample_img body) = 9" "isize (sample_img body) = 1536"
  "meta (sample_img body) = bytes_reader (sample_with body)" "devices (sample_img body) = []"
  "deviceIDMask (sample_img body) = 0"
  "sb_MetaBlkAddr (sb (sample_img body)) = 2" "sb_BuildTime (sb (sample_img body)) = 0" "sb_BuildTimeNs (sb (sample_img body)) = 0"
  by (simp_all add: sample_img_def sample_super_decode)

lemma sample_start [simp]:
  "metaStartPos (sample_img body) = 1024" "inodeStart (sample_img body) 4 = 1152" "inodeStart (sample_img body) 15 = 1504"
  "metaStartPos (sample_img body\<lparr>isize := z\<rparr>) = 1024" "inodeStart (sample_img body\<lparr>isize := z\<rparr>) 4 = 1152"
  by (simp_all add: inodeStart_def metaStartPos_def shl64_def i64_def)

lemma sample_compact_decode:
  "decodeInfo (sample_img body\<lparr>isize := z\<rparr>) [] nid 0 (sample_compact 4 a b @ rest) =
     (Some (sample_inode nid 2 (uint (le32 [a, b, 0, 0] 0))), Inr (sample_inode nid 2 (uint (le32 [a, b, 0, 0] 0))))"
  "decodeInfo (sample_img body) [] nid 0 (sample_compact 8 a b @ rest) =
     (Some (sample_inode nid 4 (uint (le32 [a, b, 0, 0] 0))), Inr (sample_inode nid 4 (uint (le32 [a, b, 0, 0] 0))))"
  by (simp_all add: decodeInfo_def sample_compact_def le16_def le32_def le64_def window_def Let_def checkInodeFormat_def
    decodeInode_def InodeCompact_Unmarshal_def FileMode_Type_def EroFSModeToGoFileMode_def finishInfo_def finishTarget_def
    checkChunkFormat_def i64_def sample_inode_def)

lemma sample_img_same: "sample_img body = sample_img body\<lparr>isize := 1536\<rparr>"
  by (simp add: sample_img_def)

lemma sample_hello_read:
  "readInfo (sample_img sample_hello) (new_file [] 4 0) =
     ((new_file [] 4 0)\<lparr>finfo := Some (sample_inode 4 2 5)\<rparr>, Inr (sample_inode 4 2 5))"
proof -
  have "decodeInfo (sample_img sample_hello) [] 4 0 sample_hello = (Some (sample_inode 4 2 5), Inr (sample_inode 4 2 5))"
    using sample_compact_decode(1) [where body = sample_hello and z = 1536 and nid = 4 and a = 5 and b = 0 and rest = "[104, 101, 108, 108, 111] @ replicate 347 0"]
    unfolding sample_img_same [symmetric] by (simp add: sample_hello_def le32_def window_def)
  moreover have "checkNid (sample_img sample_hello) 4 = Inr ()"
    by (simp add: checkNid_def i64_def Let_def)
  ultimately show ?thesis
    by (simp add: readInfo_def readInode_def new_file_def sample_read_inode)
qed

lemma sample_chunked_read:
  "readInfo (sample_img sample_chunked) (new_file [] 15 0) =
     ((new_file [] 15 0)\<lparr>finfo := Some (sample_inode 15 4 10)\<rparr>, Inr (sample_inode 15 4 10))"
proof -
  have "decodeInfo (sample_img sample_chunked) [] 15 0 (sample_compact 8 10 0) = (Some (sample_inode 15 4 10), Inr (sample_inode 15 4 10))"
    using sample_compact_decode(2) [of sample_chunked 15 10 0 "[]"]
    by (simp add: le32_def window_def)
  moreover have "checkNid (sample_img sample_chunked) 15 = Inr ()"
    by (simp add: checkNid_def i64_def Let_def)
  moreover have "ra_read (bytes_reader (sample_with sample_chunked)) 1504 64 = (sample_compact 8 10 0, Some EOF)"
    by (simp add: bytes_reader_def sample_with_def window_def sample_chunked_def)
  ultimately show ?thesis
    by (simp add: readInfo_def readInode_def new_file_def)
qed

lemma sample_crossing_open:
  "openSuper (bytes_reader (sample_with sample_crossing)) [] = Inr (sample_img sample_crossing\<lparr>isize := 2048\<rparr>)"
proof -
  have "ra_read (bytes_reader (sample_with sample_crossing)) 1024 128 = (sample_super, None)"
    by (simp add: bytes_reader_def sample_with_def window_append_exact)
  then show ?thesis
    unfolding openSuper_def
    by (simp add: sample_super_decode verifySuperblockChecksum_def FeatureIncompatAll_def openTable_def
      openGeometry_def imageSize_def bytes_reader_def sample_with_def sample_img_def
      shl64_def i64_def metaStartPos_def checkNid_def Let_def)
qed

lemma sample_crossing_read:
  "readInfo (sample_img sample_crossing\<lparr>isize := 2048\<rparr>) (new_file [] 4 0) =
     ((new_file [] 4 0)\<lparr>finfo := Some (sample_inode 4 2 400)\<rparr>, Inr (sample_inode 4 2 400))"
proof -
  have "decodeInfo (sample_img sample_crossing\<lparr>isize := 2048\<rparr>) [] 4 0 (sample_compact 4 0x90 1 @ replicate 352 7) =
      (Some (sample_inode 4 2 400), Inr (sample_inode 4 2 400))"
    using sample_compact_decode(1) [where body = sample_crossing and z = 2048 and nid = 4 and a = "0x90" and b = 1 and rest = "replicate 352 7"]
    by (simp add: le32_def window_def)
  moreover have "checkNid (sample_img sample_crossing\<lparr>isize := 2048\<rparr>) 4 = Inr ()"
    by (simp add: checkNid_def i64_def Let_def)
  moreover have "ra_read (bytes_reader (sample_with sample_crossing)) 1152 384 = (sample_compact 4 0x90 1 @ replicate 352 7, None)"
    by (simp add: bytes_reader_def sample_with_def window_def sample_crossing_def)
  ultimately show ?thesis
    by (simp add: readInfo_def readInode_def new_file_def)
qed

lemma sample_hello_block:
  "viewed (loadBlock_in pool (sample_img sample_hello) (sample_inode 4 2 5) 0) = Inr (160, 165, [104, 101, 108, 108, 111])"
  if "length pool = 512"
proof -
  have "ra_read (bytes_reader (sample_with sample_hello)) 1184 5 = ([104, 101, 108, 108, 111], None)"
    by (simp add: bytes_reader_def sample_with_def window_def sample_hello_def)
  then show ?thesis
    using that
    by (simp add: loadBlock_in_def sample_inode_def Let_def calculateBlocks_def flatDataOffset_def loadFlat_in_def
        bad_bounds_def i64_def checkImageRange_def view_read)
qed

lemma sample_chunked_block: "loadBlock (sample_img sample_chunked) (sample_inode 15 4 10) 0 = Inl EOF"
proof -
  have "ra_read (bytes_reader (sample_with sample_chunked)) 1536 4 = ([], Some EOF)"
    by (simp add: bytes_reader_def sample_with_def window_def sample_chunked_def)
  then show ?thesis
    by (simp add: loadBlock_def loadBlock_in_def sample_inode_def Let_def calculateBlocks_def flatDataOffset_def
        loadChunk_in_def chunkFormat_def chunkBits_def chunkMapBase_def chunkUnit_def loadChunkEntry_def i64_def
        sample_img_def sample_super_decode sample_start [unfolded sample_img_def sample_super_decode, simplified])
qed

section \<open>Lemmas on reading\<close>

text \<open>The fast path is a section of one device that lies in \<open>int64\<close>.\<close>

definition section_of :: "image \<Rightarrow> int \<Rightarrow> reader \<Rightarrow> bool" where
  "section_of img sz sr \<longleftrightarrow>
     (\<exists>dev rd off. deviceReader img dev = Inr rd \<and> sr = section_reader rd off sz \<and>
        0 \<le> off \<and> 0 \<le> sz \<and> off + sz \<le> MaxInt64)"

lemma in_extent_int64:
  assumes "blkbits img \<le> 16" and "in_extent img dev pa off n"
  shows "0 \<le> off \<and> off + n \<le> MaxInt64"
proof -
  have "uint (dblocks d) * 2 ^ blkbits img \<le> (2 ^ 32 - 1) * 2 ^ 16" for d
    by (rule mult_pow16) (use assms(1) uint_lt_u32 in auto)
  then have "uint (dblocks d) * 2 ^ blkbits img \<le> MaxInt64" for d by (rule order_trans) simp
  from order_trans [OF _ this, of "off + n"] assms(2) show ?thesis
    by (cases "dev = 0") (auto simp: in_extent_def Let_def)
qed

lemma okay_Some [simp]: "okay r = Some x \<longleftrightarrow> r = Inr x"
  by (auto simp: okay_def split: sum.splits)

lemma openDirect_section:
  assumes ok: "image_ok img" and o: "openDirect img ino = Some sr"
  shows "section_of img (fsize ino) sr"
proof -
  have k: "blkbits img \<le> 16" "length (devices img) < 65536" using ok by (auto simp: image_ok_def)
  have sz: "0 < fsize ino" using o by (auto simp: openDirect_def split: if_splits)
  consider "inodeLayout ino = LayoutFlatPlain" | "inodeLayout ino = LayoutFlatInline" | "inodeLayout ino = LayoutChunkBased"
    using o by (auto simp: openDirect_def Let_def split: if_splits)
  then show ?thesis
  proof cases
    case 1
    with o sz obtain pa dev off where "locateRange img pa (fsize ino) = Inr (dev, off)"
      "directAt img dev off (fsize ino) = Some sr"
      by (auto simp: openDirect_def Let_def locateStart_def bind_eq_Some_conv split: if_splits)
    moreover from in_extent_int64 [OF k(1) locateRange_sound(2) [OF k this(1)]]
    have "0 \<le> off \<and> off + fsize ino \<le> MaxInt64" .
    ultimately show ?thesis using sz by (auto simp: section_of_def directAt_def)
  next
    case 2
    define a where "a = i64 (inodeStart img (inid ino) + flatDataOffset ino)"
    from 2 o sz have "checkImageRange img a (fsize ino) = Inr ()" "sr = section_reader (meta img) a (fsize ino)"
      by (auto simp: openDirect_def Let_def a_def split: if_splits)
    moreover have "deviceReader img 0 = Inr (meta img)" by (simp add: deviceReader_def)
    ultimately show ?thesis unfolding section_of_def checkImageRange_iff by blast
  next
    case 3
    with o sz obtain dev off where "boundOnDevice img dev off (fsize ino) = Inr ()"
      "directAt img dev off (fsize ino) = Some sr"
      by (auto simp: openDirect_def openDirect_chunks_def Let_def bind_eq_Some_conv split: if_splits prod.splits option.splits)
    with k sz show ?thesis by (auto simp: section_of_def directAt_def boundOnDevice_iff)
  qed
qed

text \<open>The readers of an image keep the contract of \<open>io.ReaderAt\<close>.\<close>

definition image_reads :: "image \<Rightarrow> bool" where
  "image_reads img \<longleftrightarrow>
     (\<exists>data. reads_data (meta img) data) \<and> (\<forall>d \<in> set (devices img). \<exists>data. reads_data (device d) data)"

lemma section_of_reads:
  assumes "image_reads img" and "section_of img sz sr"
  shows "\<exists>data. reads_data sr data"
proof -
  obtain dev rd off where s: "deviceReader img dev = Inr rd" "sr = section_reader rd off sz"
    "0 \<le> off" "0 \<le> sz" "off + sz \<le> MaxInt64"
    using assms(2) by (auto simp: section_of_def)
  have "\<exists>data. reads_data rd data"
  proof (cases "dev = 0")
    case False
    then have "unat dev - 1 < length (devices img)" "rd = device (devices img ! (unat dev - 1))"
      using s(1) by (auto simp: deviceReader_def split: if_splits)
    then show ?thesis using assms(1) by (simp add: image_reads_def)
  qed (use s(1) assms(1) in \<open>simp add: deviceReader_def image_reads_def\<close>)
  with s section_reader_contract show ?thesis by blast
qed

text \<open>What an open file keeps: a fast path, once looked for, is a section for the cached inode.\<close>

definition direct_ok :: "image \<Rightarrow> open_file \<Rightarrow> bool" where
  "direct_ok img f \<longleftrightarrow>
     file_ok img f \<and> 0 \<le> foffset f \<and>
     (directChecked f \<longrightarrow> (\<exists>ino. finfo f = Some ino)) \<and>
     (\<forall>sr. fdirect f = Some sr \<longrightarrow> directChecked f \<and> section_of img (fsize (the (finfo f))) sr)"

lemma readLoop_result:
  assumes "readLoop img fi off n acc = (b, e, off')"
  shows "\<exists>d. b = acc @ d \<and> off' = off + int (length d) \<and> length d \<le> n \<and> (e = None \<longrightarrow> length d = n)"
  using assms
proof (induction img fi off n acc rule: readLoop.induct)
  case (1 img fi off n acc)
  show ?case
  proof (cases "n = 0 \<or> off \<ge> fsize fi")
    case True
    with "1.prems" show ?thesis by (subst (asm) readLoop.simps) (auto split: if_splits)
  next
    case False
    show ?thesis
    proof (cases "loadBlock img fi off")
      case (Inl err)
      with False "1.prems" show ?thesis by (subst (asm) readLoop.simps) auto
    next
      case (Inr blk)
      let ?c = "take n (block_bytes blk)"
      have r: "readLoop img fi (off + int (length ?c)) (n - length ?c) (acc @ ?c) = (b, e, off')"
        using False Inr "1.prems" by (subst (asm) readLoop.simps) (simp add: Let_def)
      from False Inr "1.IH" [OF _ _ Inr refl r] obtain d where
        "b = (acc @ ?c) @ d" "off' = off + int (length ?c) + int (length d)" "length d \<le> n - length ?c"
        "e = None \<longrightarrow> length d = n - length ?c"
        by auto
      moreover have "length ?c \<le> n" by simp
      ultimately show ?thesis by (intro exI [of _ "?c @ d"]) auto
    qed
  qed
qed

lemma readLoop_progress:
  assumes "readLoop img fi off n acc = (b, None, off')" and "0 < n"
  shows "off < fsize fi"
  using assms by (subst (asm) readLoop.simps) (auto split: if_splits)

lemma directReader_ok:
  assumes "image_ok img" and "file_ok img f" "0 \<le> foffset f" and "finfo f = Some fi" "direct_ok img f"
  shows "direct_ok img (directReader img f fi)"
  using assms openDirect_section [OF assms(1), of fi]
  by (auto simp: direct_ok_def directReader_def file_ok_def)

lemma readInfo_direct:
  assumes "direct_ok img f" and "readInfo img f = (f', r)"
  shows "direct_ok img f'" and "foffset f' = foffset f" and "r = Inr fi \<Longrightarrow> finfo f' = Some fi"
proof -
  have fo: "file_ok img f" using assms(1) by (simp add: direct_ok_def)
  note i = readInfo_ok [OF fo assms(2)]
  show "foffset f' = foffset f" using i(3) by (metis open_file.select_convs(4) open_file.surjective open_file.update_convs(5))
  show "r = Inr fi \<Longrightarrow> finfo f' = Some fi" by (rule i(2))
  show "direct_ok img f'"
  proof (cases "finfo f")
    case (Some ino)
    then have "f' = f" using assms(2) by (simp add: readInfo_def)
    with assms(1) show ?thesis by simp
  next
    case None
    then have "\<not> directChecked f" "fdirect f = None"
      using assms(1) by (auto simp: direct_ok_def)
    then have "\<not> directChecked f'" "fdirect f' = None" "0 \<le> foffset f'"
      using i(3) assms(1) by (metis direct_ok_def open_file.select_convs open_file.surjective open_file.update_convs(5))+
    with i(1) show ?thesis by (simp add: direct_ok_def)
  qed
qed

lemma Read_contract:
  assumes ok: "image_ok img" "image_reads img" "direct_ok img f" and r: "Read img f n = (f', b, e)"
  shows "direct_ok img f'" and "length b \<le> n" and "foffset f' = foffset f + int (length b)"
    and "e = None \<Longrightarrow> \<exists>ino. finfo f' = Some ino \<and> (length b = n \<or> foffset f' = fsize ino) \<and> (0 < n \<longrightarrow> b \<noteq> [])"
proof -
  obtain g q where g: "readInfo img f = (g, q)" by (cases "readInfo img f")
  note i = readInfo_direct [OF ok(3) g]
  have "direct_ok img f' \<and> length b \<le> n \<and> foffset f' = foffset f + int (length b) \<and>
    (e = None \<longrightarrow> (\<exists>ino. finfo f' = Some ino \<and> (length b = n \<or> foffset f' = fsize ino) \<and> (0 < n \<longrightarrow> b \<noteq> [])))"
  proof (cases q)
    case (Inl err)
    with r g i show ?thesis by (auto simp: Read_def)
  next
    case (Inr fi)
    have fi: "finfo g = Some fi" by (rule i(3) [OF Inr])
    have go: "file_ok img g" "0 \<le> foffset g" using i(1) by (auto simp: direct_ok_def)
    define h where "h = directReader img g fi"
    have h: "direct_ok img h" "foffset h = foffset f" "finfo h = Some fi"
      using directReader_ok [OF ok(1) go fi i(1)] i(2) fi by (auto simp: h_def directReader_def)
    show ?thesis
    proof (cases "fdirect h")
      case None
      then obtain off where l: "readLoop img fi (foffset h) n [] = (b, e, off)" "f' = h\<lparr>foffset := off\<rparr>"
        using r g Inr by (auto simp: Read_def h_def Let_def split: prod.splits)
      from readLoop_result [OF l(1)] have s: "off = foffset h + int (length b)" "length b \<le> n" "e = None \<longrightarrow> length b = n"
        by auto
      then have "direct_ok img f'" using h l(2) by (auto simp: direct_ok_def file_ok_def)
      with s l(2) h show ?thesis by auto
    next
      case (Some sr)
      have sec: "section_of img (fsize fi) sr" using h Some by (auto simp: direct_ok_def)
      then obtain data where rd: "reads_data sr data" using section_of_reads [OF ok(2)] by blast
      show ?thesis
      proof (cases "foffset h \<ge> fsize fi")
        case True
        with r g Inr Some h show ?thesis by (auto simp: Read_def h_def [symmetric] Let_def)
      next
        case False
        let ?rem = "fsize fi - foffset h"
        have nn: "0 \<le> foffset h" "fsize fi \<le> MaxInt64" using h by (auto simp: direct_ok_def file_ok_def inode_ok_def)
        then have w: "i64 ?rem = ?rem" using False by (intro i64_id_nonneg) auto
        define m where "m = (if int n > ?rem then nat ?rem else n)"
        obtain e' where x: "ra_read sr (foffset h) m = (b, e')" "f' = h\<lparr>foffset := foffset h + int (length b)\<rparr>"
          "e = (if e' = Some EOF \<and> length b = m then None else e')"
          using r g Inr Some False by (auto simp: Read_def h_def [symmetric] Let_def w m_def split: prod.splits)
        have len: "length b \<le> m" "length b < m \<Longrightarrow> e' \<noteq> None" using reads_dataD [OF rd x(1)] by auto
        have m: "m \<le> n" "m = n \<or> int m = ?rem" "0 < n \<Longrightarrow> 0 < m" using False by (auto simp: m_def)
        have "direct_ok img f'" using h x(2) by (auto simp: direct_ok_def file_ok_def)
        moreover have "length b = m" if "e = None" using that x(3) len by (cases "length b < m") (auto split: if_splits)
        ultimately show ?thesis using x(2) h len m by auto
      qed
    qed
  qed
  then show "direct_ok img f'" "length b \<le> n" "foffset f' = foffset f + int (length b)"
    "e = None \<Longrightarrow> \<exists>ino. finfo f' = Some ino \<and> (length b = n \<or> foffset f' = fsize ino) \<and> (0 < n \<longrightarrow> b \<noteq> [])"
    by blast+
qed

lemma ReadFull_total:
  assumes ok: "image_ok img" "image_reads img" "direct_ok img f"
  shows "\<exists>r. ReadFull img f n acc = Some r"
  using assms(3)
proof (induction n arbitrary: f acc rule: less_induct)
  case (less n)
  obtain f' b e where r: "Read img f n = (f', b, e)" by (metis prod_cases3)
  note c = Read_contract [OF ok(1,2) less.prems r]
  show ?case
  proof (cases "length b \<ge> n \<or> e \<noteq> None")
    case True
    then show ?thesis by (subst ReadFull.simps) (auto simp: r)
  next
    case False
    with c(4) have "0 < n" "b \<noteq> []" by auto
    then have "n - length b < n" by simp
    from less.IH [OF this c(1), of "acc @ b"] False show ?thesis
      by (subst ReadFull.simps) (auto simp: r)
  qed
qed

section \<open>Properties\<close>

text \<open>
  C28. What a caller sees of a block does not depend on the bytes the pooled buffer held
  before. Blocks are reused without being cleared, so this is what keeps one file's content
  out of another's: for any two previous contents of the buffer, \<open>loadBlock\<close> gives the same
  answer, window and bytes, or the same error.
\<close>

theorem loadBlock_ignores_pool:
  assumes "length p = 2 ^ blkbits img" and "length q = 2 ^ blkbits img"
  shows "viewed (loadBlock_in p img fi pos) = viewed (loadBlock_in q img fi pos)"
  by (rule loadBlock_view [OF assms])

theorem loadBlock_ignores_pool_witness:
  "viewed (loadBlock_in (replicate 512 1) (sample_img sample_hello) (sample_inode 4 2 5) 0) =
   viewed (loadBlock_in (replicate 512 2) (sample_img sample_hello) (sample_inode 4 2 5) 0)"
  by (rule loadBlock_ignores_pool) simp_all

text \<open>
  C29. A block \<open>loadBlock\<close> serves inside a file holds exactly the bytes from the position to
  the end of the file or of the file's block, whichever comes first: it is never empty, never
  short, and never reaches past the buffer, for every layout.
\<close>

theorem loadBlock_exact_length:
  assumes "0 \<le> pos" and "pos < fsize fi" and "loadBlock img fi pos = Inr blk"
  shows "int (length (block_bytes blk)) = min (2 ^ blkbits img - pos mod 2 ^ blkbits img) (fsize fi - pos)
    \<and> block_bytes blk \<noteq> [] \<and> offset blk < bend blk \<and> bend blk \<le> 2 ^ blkbits img"
proof -
  have v: "viewed (loadBlock_in (getBlock img) img fi pos) = Inr (offset blk, bend blk, block_bytes blk)"
    using assms(3) by (simp add: loadBlock_def block_view_def)
  have pool: "length (getBlock img) = 2 ^ blkbits img" by (simp add: getBlock_def)
  show ?thesis
    using loadBlock_shape [OF assms(1,2) pool v] block_bytes_nonempty [OF assms(3)]
    by (simp add: block_len_def)
qed

theorem loadBlock_exact_length_witness:
  "\<exists>blk. loadBlock (sample_img sample_hello) (sample_inode 4 2 5) 0 = Inr blk \<and>
     int (length (block_bytes blk)) = min (2 ^ blkbits (sample_img sample_hello) - 0) 5 \<and>
     block_bytes blk = [104, 101, 108, 108, 111]"
proof -
  obtain blk where b: "loadBlock (sample_img sample_hello) (sample_inode 4 2 5) 0 = Inr blk"
    "block_view blk = (160, 165, [104, 101, 108, 108, 111])"
    using sample_hello_block [of "getBlock (sample_img sample_hello)"]
    by (auto simp: loadBlock_def getBlock_def viewed_eq_Inr)
  with loadBlock_exact_length [of 0 "sample_inode 4 2 5" "sample_img sample_hello" blk] show ?thesis
    by (simp add: sample_inode_def block_view_def)
qed

text \<open>
  C30. A call of \<open>Read\<close> stores at most the bytes asked for, advances the file's offset by what
  it stored, and reports no error only when it filled the buffer or reached the end of the
  file, and never with an empty answer to a non-empty request. The open file's cache and its
  fast path stay well formed.
\<close>

theorem Read_fills_or_reports:
  assumes "image_ok img" and "image_reads img" and "direct_ok img f" and "Read img f n = (f', b, e)"
  shows "direct_ok img f' \<and> length b \<le> n \<and> foffset f' = foffset f + int (length b) \<and>
    (e = None \<longrightarrow> (\<exists>ino. finfo f' = Some ino \<and> (length b = n \<or> foffset f' = fsize ino) \<and>
       (0 < n \<longrightarrow> b \<noteq> [])))"
  using Read_contract [OF assms] by blast

lemma sample_ok: "length body = 384 \<Longrightarrow> image_ok (sample_img body)" "image_reads (sample_img body)"
  "direct_ok img (new_file name nid ft)"
  using openSuper_ok [OF sample_open [of body]] bytes_reader_contract [of "sample_with body"]
  by (auto simp: image_reads_def direct_ok_def new_file_ok) (simp_all add: new_file_def)

lemma sample_hello_Read:
  "\<exists>f'. Read (sample_img sample_hello) (new_file [] 4 0) 5 = (f', [104, 101, 108, 108, 111], None)"
proof -
  have d: "openDirect (sample_img sample_hello) (sample_inode 4 2 5) =
      Some (section_reader (bytes_reader (sample_with sample_hello)) 1184 5)"
    by (simp add: openDirect_def sample_inode_def Let_def flatDataOffset_def i64_def checkImageRange_def)
  have r: "ra_read (section_reader (bytes_reader (sample_with sample_hello)) 1184 5) 0 5 =
      ([104, 101, 108, 108, 111], None)"
    by (simp add: section_reader_def bytes_reader_def sample_with_def window_def sample_hello_def)
  show ?thesis
    using sample_hello_read d r
    by (simp add: Read_def directReader_def new_file_def Let_def sample_inode_def i64_def)
qed

theorem Read_fills_or_reports_witness:
  "\<exists>f'. Read (sample_img sample_hello) (new_file [] 4 0) 5 = (f', [104, 101, 108, 108, 111], None) \<and>
     direct_ok (sample_img sample_hello) f' \<and> foffset f' = 5"
proof -
  obtain f' where f: "Read (sample_img sample_hello) (new_file [] 4 0) 5 = (f', [104, 101, 108, 108, 111], None)"
    using sample_hello_Read by blast
  have "image_ok (sample_img sample_hello)" by (rule sample_ok(1)) simp
  from Read_fills_or_reports [OF this sample_ok(2,3) f] f show ?thesis
    by (simp add: new_file_def)
qed

text \<open>
  C31. \<open>readAll\<close> returns for every file and every size: the loop of \<open>io.ReadFull\<close> over \<open>Read\<close>
  ends, because a read without an error makes progress.
\<close>

theorem readAll_returns:
  assumes "image_ok img" and "image_reads img" and "direct_ok img f"
  shows "\<exists>f' r. readAll img f n = Some (f', r)"
  using ReadFull_total [OF assms, of n "[]"] by (auto simp: readAll_def split: prod.split)

theorem readAll_returns_witness:
  "\<exists>f' r. readAll (sample_img sample_chunked) (new_file [] 15 0) 10 = Some (f', r)"
  by (rule readAll_returns) (simp_all add: sample_ok)

text \<open>
  C32. The data ranges published for a file with content cover it: their sizes add up to the
  file's size, none is empty, and each is a hole or lies on a device of the image within the
  extent known for it.
\<close>

theorem buildDataRanges_cover_file:
  assumes "image_ok img" and "0 < fsize ino" and "fsize ino \<le> MaxInt64"
    and "inodeLayout ino \<in> {LayoutFlatPlain, LayoutFlatInline, LayoutChunkBased}"
    and "buildDataRanges img ino = Inr rs"
  shows "(\<forall>r \<in> set rs. range_ok img r \<or> flat_range_ok img r) \<and> total rs = fsize ino"
  by (rule buildDataRanges_ok [OF assms(1-3,5,4)])

theorem buildDataRanges_cover_file_witness:
  "buildDataRanges (sample_img sample_hello) (sample_inode 4 2 5) =
     Inr [\<lparr> dr_Device = 0, dr_Offset = 1184, dr_Size = 5 \<rparr>] \<and>
   total [\<lparr> dr_Device = 0, dr_Offset = 1184, dr_Size = 5 \<rparr>] = 5"
proof -
  have b: "buildDataRanges (sample_img sample_hello) (sample_inode 4 2 5) =
     Inr [\<lparr> dr_Device = 0, dr_Offset = 1184, dr_Size = 5 \<rparr>]"
    by (simp add: buildDataRanges_def sample_inode_def Let_def flatDataOffset_def i64_def checkImageRange_def)
  have "image_ok (sample_img sample_hello)" by (rule sample_ok(1)) simp
  from buildDataRanges_cover_file [OF this _ _ _ b] b show ?thesis
    by (simp add: sample_inode_def)
qed

text \<open>
  C33. A chunk map that lies past the end of the image is read as the end of the file. The image
  \<open>sample_with sample_chunked\<close> opens; the inode at nid 15 decodes to a chunk-based file of ten
  bytes whose chunk map starts at or past the end of the image, and loading its first block fails
  with \<open>io.EOF\<close>, the error of the read of the map entry passed on as it is. The first \<open>Read\<close> of the
  freshly opened file answers no bytes and \<open>io.EOF\<close>, the answer of an empty file.
\<close>

theorem missing_chunk_map_reads_as_empty:
  "\<exists>img ino f'.
     openSuper (bytes_reader (sample_with sample_chunked)) [] = Inr img \<and>
     readInfo img (new_file [] 15 0) = (f', Inr ino) \<and>
     inodeLayout ino = LayoutChunkBased \<and> fsize ino = 10 \<and>
     int (length (sample_with sample_chunked)) \<le> chunkMapBase img ino \<and>
     loadBlock img ino 0 = Inl EOF \<and>
     snd (Read img (new_file [] 15 0) 10) = ([], Some EOF)"
proof (intro exI conjI)
  show "openSuper (bytes_reader (sample_with sample_chunked)) [] = Inr (sample_img sample_chunked)"
    by (rule sample_open) simp
  show i: "readInfo (sample_img sample_chunked) (new_file [] 15 0) =
     ((new_file [] 15 0)\<lparr>finfo := Some (sample_inode 15 4 10)\<rparr>, Inr (sample_inode 15 4 10))"
    by (rule sample_chunked_read)
  show "inodeLayout (sample_inode 15 4 10) = LayoutChunkBased" "fsize (sample_inode 15 4 10) = 10"
    by (simp_all add: sample_inode_def)
  show "int (length (sample_with sample_chunked)) \<le> chunkMapBase (sample_img sample_chunked) (sample_inode 15 4 10)"
    by (simp add: sample_with_def chunkMapBase_def chunkUnit_def chunkFormat_def sample_inode_def inodeStart_def flatDataOffset_def Let_def i64_def)
  show "loadBlock (sample_img sample_chunked) (sample_inode 15 4 10) 0 = Inl EOF"
    using sample_chunked_block by simp
  have d: "openDirect (sample_img sample_chunked) (sample_inode 15 4 10) = None"
    by (simp add: openDirect_def openDirect_chunks_def sample_inode_def chunkFormat_def)
  have l: "readLoop (sample_img sample_chunked) (sample_inode 15 4 10) 0 10 [] = ([], Some EOF, 0)"
    using sample_chunked_block by (subst readLoop.simps) (simp add: sample_inode_def)
  show "snd (Read (sample_img sample_chunked) (new_file [] 15 0) 10) = ([], Some EOF)"
    using i d l by (simp add: Read_def directReader_def new_file_def Let_def)
qed

text \<open>
  C34. The ranges published for an inline file are not checked the way its content is. The image
  \<open>sample_with sample_crossing\<close> opens; the inode at nid 4 decodes to an inline file of 400 bytes
  whose data, right behind the inode, runs across the end of its block. \<open>loadBlock\<close> refuses it as
  corrupt and \<open>openDirect\<close> gives no direct reader, while \<open>buildDataRanges\<close> publishes exactly that
  range of the image.
\<close>

theorem crossing_tail_has_ranges:
  "\<exists>img ino f'.
     openSuper (bytes_reader (sample_with sample_crossing)) [] = Inr img \<and>
     readInfo img (new_file [] 4 0) = (f', Inr ino) \<and>
     inodeLayout ino = LayoutFlatInline \<and> fsize ino = 400 \<and>
     (inodeStart img 4 + flatDataOffset ino) mod 2 ^ blkbits img + fsize ino > 2 ^ blkbits img \<and>
     loadBlock img ino 0 = Inl ErrCorrupt \<and> openDirect img ino = None \<and>
     buildDataRanges img ino =
       Inr [\<lparr> dr_Device = 0, dr_Offset = inodeStart img 4 + flatDataOffset ino, dr_Size = 400 \<rparr>]"
proof (intro exI conjI)
  let ?img = "sample_img sample_crossing\<lparr>isize := 2048\<rparr>" and ?ino = "sample_inode 4 2 400"
  have a: "inodeStart ?img 4 = 1152" by (simp add: inodeStart_def i64_def)
  show "openSuper (bytes_reader (sample_with sample_crossing)) [] = Inr ?img"
    by (rule sample_crossing_open)
  show "readInfo ?img (new_file [] 4 0) = ((new_file [] 4 0)\<lparr>finfo := Some ?ino\<rparr>, Inr ?ino)"
    by (rule sample_crossing_read)
  show "inodeLayout ?ino = LayoutFlatInline" "fsize ?ino = 400" by (simp_all add: sample_inode_def)
  show "(inodeStart ?img 4 + flatDataOffset ?ino) mod 2 ^ blkbits ?img + fsize ?ino > 2 ^ blkbits ?img"
    by (simp add: a sample_inode_def flatDataOffset_def)
  show "loadBlock ?img ?ino 0 = Inl ErrCorrupt"
    by (simp add: loadBlock_def loadBlock_in_def sample_inode_def Let_def calculateBlocks_def flatDataOffset_def i64_def)
  show "openDirect ?img ?ino = None"
    by (simp add: openDirect_def sample_inode_def Let_def flatDataOffset_def i64_def)
  show "buildDataRanges ?img ?ino =
      Inr [\<lparr> dr_Device = 0, dr_Offset = inodeStart ?img 4 + flatDataOffset ?ino, dr_Size = 400 \<rparr>]"
    unfolding a by (simp add: buildDataRanges_def sample_inode_def Let_def flatDataOffset_def i64_def checkImageRange_def)
qed

end
