(* ===== verification/Spec_Reader.thy ===== *)
theory Spec_Reader
  imports Image
begin

text \<open>
  The reference reader of \<open>internal/erofsspec\<close>, which the package's tests hold the reader to:
  \<open>erofsspec.go\<close> (superblock, device table, long xattr prefixes), \<open>inode.go\<close> (inodes and
  their xattrs) and \<open>data.go\<close> (extents and content). It works on whole images in memory and
  shares no definition with the reader's own theories; the names carry \<open>sp_\<close>.
\<close>

datatype spec_err =
    SpCorrupt | SpUnsupported | SpTruncated | SpTooLarge
  | SpNotDir | SpNotExist | SpLoop | SpPanic

type_synonym 'a spec_result = "spec_err + 'a"

definition sp_roundUp :: "int \<Rightarrow> int \<Rightarrow> int" where
  "sp_roundUp v to = i64 (go_div (i64 (v + to - 1)) to * to)"

text \<open>The loop \<open>for p < v { p <<= 1 }\<close>, which ends for every \<open>v\<close> up to \<open>2^63\<close>: at most 64
  doublings.\<close>

fun sp_pow2_from :: "nat \<Rightarrow> u64 \<Rightarrow> u64 \<Rightarrow> u64" where
  "sp_pow2_from 0 p v = p"
| "sp_pow2_from (Suc n) p v = (if p < v then sp_pow2_from n (push_bit 1 p) v else p)"

definition sp_roundupPow2 :: "u64 \<Rightarrow> u64" where
  "sp_roundupPow2 v = sp_pow2_from 64 1 v"

definition sp_sliceAt :: "bytes \<Rightarrow> int \<Rightarrow> int \<Rightarrow> bytes spec_result" where
  "sp_sliceAt b off n =
     (if off < 0 \<or> n < 0 \<or> off > int (length b) \<or> n > int (length b) - off then Inl SpTruncated
      else Inr (window b (nat off) (nat n)))"

section \<open>The superblock\<close>

record Super =
  su_Magic :: u32
  su_Checksum :: u32
  su_FeatureCompat :: u32
  su_BlockBits :: byte
  su_ExtSlots :: byte
  su_Inos :: u64
  su_Epoch :: int
  su_FixedNsec :: u32
  su_MetaBlkAddr :: u32
  su_XattrBlkAddr :: u32
  su_UUID :: bytes
  su_VolumeName :: bytes
  su_FeatureIncompat :: u32
  su_ComprAlgs :: u16
  su_ExtraDevices :: u16
  su_DevtSlotOff :: u16
  su_DirBlkBits :: byte
  su_XattrPrefixCount :: byte
  su_XattrPrefixStart :: u32
  su_PackedNid :: u64
  su_XattrFilterReserved :: byte
  su_IshareXattrPrefixID :: byte
  su_BuildTime :: u32
  su_BlockSize :: int
  su_RootNid :: u64
  su_Blocks :: u64
  su_Size :: int
  su_DeviceIDMask :: u16

record SpDevice =
  sd_Tag :: bytes
  sd_Blocks :: u64
  sd_UniAddr :: u64

record SpPrefix =
  spx_BaseIndex :: byte
  spx_Infix :: bytes

record SpImage =
  im_Super :: Super
  im_Devices :: "SpDevice list"
  im_Prefixes :: "SpPrefix list"
  im_data :: bytes
  im_extra :: "bytes list"

definition sp_bytesAt :: "SpImage \<Rightarrow> int \<Rightarrow> int \<Rightarrow> bytes spec_result" where
  "sp_bytesAt im off n = sp_sliceAt (im_data im) off n"

definition sp_verifyChecksum :: "bytes \<Rightarrow> int \<Rightarrow> u32 \<Rightarrow> unit spec_result" where
  "sp_verifyChecksum data blkSize checksum =
     (let n = (if blkSize > 1024 then blkSize - 1024 else blkSize) - 8 in
      bindE (sp_sliceAt data (1024 + 8) n) (\<lambda>d.
      if NOT (crc32_Update (NOT 0x5045B54A) d) \<noteq> checksum then Inl SpCorrupt else Inr ()))"

definition sp_deriveSuper :: "bytes \<Rightarrow> Super \<Rightarrow> Super spec_result" where
  "sp_deriveSuper raw s =
     (if su_FeatureCompat s AND 0x20 \<noteq> 0 \<and> su_IshareXattrPrefixID s \<ge> su_XattrPrefixCount s
      then Inl SpCorrupt
      else
        let rootnid8 = le64 raw 112;
            s = (if su_FeatureIncompat s AND 0x80 \<noteq> 0 \<and> rootnid8 \<noteq> 0
                 then s\<lparr>su_RootNid := rootnid8,
                        su_Blocks := su_Blocks s OR push_bit 32 (ucast (le16 raw 14))\<rparr>
                 else s\<lparr>su_RootNid := ucast (le16 raw 14)\<rparr>)
        in if su_FeatureIncompat s AND 0x100 \<noteq> 0 then Inl SpUnsupported else Inr s)"

definition sp_parseSuper :: "bytes \<Rightarrow> Super spec_result" where
  "sp_parseSuper data =
     bindE (sp_sliceAt data 1024 128) (\<lambda>raw.
     let blockBits = raw ! 12; compat = le32 raw 8; incompat = le32 raw 80;
         blkSize = 2 ^ unat blockBits; extSlots = raw ! 13;
         sz = 128 + int (unat extSlots) * 16
     in if le32 raw 0 \<noteq> 0xE0F5E1E2 then Inl SpCorrupt
        else if blockBits < 9 \<or> blockBits > 16 then Inl SpCorrupt
        else if raw ! 90 \<noteq> 0 then Inl SpCorrupt
        else bindE (if compat AND 1 \<noteq> 0 then sp_verifyChecksum data blkSize (le32 raw 4)
                    else Inr ()) (\<lambda>_.
        if incompat AND NOT 0x1FF \<noteq> 0 then Inl SpCorrupt
        else if sz > max blkSize 4096 - 1024 then Inl SpCorrupt
        else sp_deriveSuper raw
          \<lparr> su_Magic = le32 raw 0, su_Checksum = le32 raw 4, su_FeatureCompat = compat,
            su_BlockBits = blockBits, su_ExtSlots = extSlots, su_Inos = le64 raw 16,
            su_Epoch = sint (le64 raw 24), su_FixedNsec = le32 raw 32,
            su_MetaBlkAddr = le32 raw 40, su_XattrBlkAddr = le32 raw 44,
            su_UUID = window raw 48 16, su_VolumeName = window raw 64 16,
            su_FeatureIncompat = incompat, su_ComprAlgs = le16 raw 84,
            su_ExtraDevices = le16 raw 86, su_DevtSlotOff = le16 raw 88,
            su_DirBlkBits = raw ! 90, su_XattrPrefixCount = raw ! 91,
            su_XattrPrefixStart = le32 raw 92, su_PackedNid = le64 raw 96,
            su_XattrFilterReserved = raw ! 104, su_IshareXattrPrefixID = raw ! 105,
            su_BuildTime = le32 raw 108, su_BlockSize = blkSize, su_RootNid = 0,
            su_Blocks = ucast (le32 raw 36), su_Size = sz, su_DeviceIDMask = 0 \<rparr>))"

fun sp_devices_from :: "bytes \<Rightarrow> bool \<Rightarrow> nat \<Rightarrow> int \<Rightarrow> SpDevice list spec_result" where
  "sp_devices_from data wide 0 pos = Inr []"
| "sp_devices_from data wide (Suc n) pos =
     bindE (sp_sliceAt data pos 128) (\<lambda>raw.
     let blocks = ucast (le32 raw 64); uni = ucast (le32 raw 68);
         d = \<lparr> sd_Tag = window raw 0 64,
               sd_Blocks = (if wide then blocks OR push_bit 32 (ucast (le16 raw 72)) else blocks),
               sd_UniAddr = (if wide then uni OR push_bit 32 (ucast (le16 raw 74)) else uni) \<rparr>
     in bindE (sp_devices_from data wide n (pos + 128)) (\<lambda>ds. Inr (d # ds)))"

definition sp_parseDevices :: "SpImage \<Rightarrow> SpImage spec_result" where
  "sp_parseDevices im =
     (let s = im_Super im in
      if su_FeatureIncompat s AND 8 = 0 \<or> su_ExtraDevices s = 0 then Inr im
      else
        let mask = ucast (sp_roundupPow2 (ucast (su_ExtraDevices s) + 1) - 1);
            im = im\<lparr>im_Super := s\<lparr>su_DeviceIDMask := mask\<rparr>\<rparr>
        in bindE (sp_devices_from (im_data im) (su_FeatureIncompat s AND 0x80 \<noteq> 0)
                    (unat (su_ExtraDevices s)) (uint (su_DevtSlotOff s) * 128)) (\<lambda>ds.
           Inr (im\<lparr>im_Devices := ds\<rparr>)))"

text \<open>\<open>Parse\<close> up to the prefix table.\<close>

definition sp_Parse_head :: "bytes \<Rightarrow> bytes list \<Rightarrow> SpImage spec_result" where
  "sp_Parse_head img extra =
     bindE (sp_parseSuper img) (\<lambda>s.
     bindE (sp_parseDevices \<lparr> im_Super = s, im_Devices = [], im_Prefixes = [], im_data = img, im_extra = extra \<rparr>) (\<lambda>im.
     let ondisk = (if su_FeatureIncompat (im_Super im) AND 8 \<noteq> 0 then unat (su_ExtraDevices (im_Super im)) else 0) in
     if extra \<noteq> [] \<and> ondisk \<noteq> length extra then Inl SpCorrupt else Inr im))"

section \<open>Inodes\<close>

record SpXattr =
  sx_Index :: byte
  sx_Prefix :: bytes
  sx_Suffix :: bytes
  sx_Value :: bytes
  sx_Shared :: bool
  sx_SharedID :: u32
  sx_Unresolved :: bool

record SpInode =
  sn_Nid :: u64
  sn_Extended :: bool
  sn_Format :: u16
  sn_Layout :: byte
  sn_Mode :: u16
  sn_Nlink :: u32
  sn_Size :: int
  sn_UID :: u32
  sn_GID :: u32
  sn_Mtime :: int
  sn_MtimeNs :: u32
  sn_Ino :: u32
  sn_XattrCnt :: u16
  sn_NB :: u16
  sn_XattrSize :: int
  sn_StartBlk :: u64
  sn_Rdev :: u32
  sn_ChunkFormat :: u16
  sn_ChunkBits :: nat
  sn_DotOmitted :: bool
  sn_NameFilter :: u32
  sn_SharedIDs :: "u32 list"
  sn_Xattrs :: "SpXattr list"
  sn_InlineTarget :: "bytes option"
  sn_loc :: int
  sn_isize :: int
  sn_mask48 :: bool

abbreviation (input) SpNullAddr :: u64 where "SpNullAddr \<equiv> - 1"

definition sp_xattrBodySize :: "u16 \<Rightarrow> int" where
  "sp_xattrBodySize count = (if count = 0 then 0 else 12 + 4 * (uint count - 1))"

definition sp_new_inode :: "u64 \<Rightarrow> int \<Rightarrow> SpInode" where
  "sp_new_inode nid loc =
     \<lparr> sn_Nid = nid, sn_Extended = False, sn_Format = 0, sn_Layout = 0, sn_Mode = 0, sn_Nlink = 0,
       sn_Size = 0, sn_UID = 0, sn_GID = 0, sn_Mtime = 0, sn_MtimeNs = 0, sn_Ino = 0,
       sn_XattrCnt = 0, sn_NB = 0, sn_XattrSize = 0, sn_StartBlk = 0, sn_Rdev = 0,
       sn_ChunkFormat = 0, sn_ChunkBits = 0, sn_DotOmitted = False, sn_NameFilter = 0,
       sn_SharedIDs = [], sn_Xattrs = [], sn_InlineTarget = None, sn_loc = loc, sn_isize = 0,
       sn_mask48 = False \<rparr>"

abbreviation (input) sp_ModeTypeMask :: u16 where "sp_ModeTypeMask \<equiv> 0xF000"

definition sp_IsDir :: "SpInode \<Rightarrow> bool" where
  "sp_IsDir n \<longleftrightarrow> sn_Mode n AND sp_ModeTypeMask = 0x4000"

definition sp_IsSymlink :: "SpInode \<Rightarrow> bool" where
  "sp_IsSymlink n \<longleftrightarrow> sn_Mode n AND sp_ModeTypeMask = 0xA000"

definition sp_decodeCompact :: "SpImage \<Rightarrow> SpInode \<Rightarrow> bytes \<Rightarrow> SpInode" where
  "sp_decodeCompact im n raw =
     (let nb = le16 raw 6; u = le32 raw 16;
          n = n\<lparr>sn_isize := 32, sn_XattrCnt := le16 raw 2,
                sn_XattrSize := sp_xattrBodySize (le16 raw 2), sn_Mode := le16 raw 4, sn_NB := nb,
                sn_Size := uint (le32 raw 8),
                sn_Mtime := i64 (su_Epoch (im_Super im) + uint (le32 raw 12)),
                sn_MtimeNs := su_FixedNsec (im_Super im), sn_Ino := le32 raw 20,
                sn_UID := ucast (le16 raw 24), sn_GID := ucast (le16 raw 26)\<rparr>;
          n = (if \<not> sp_IsDir n \<and> drop_bit 4 (sn_Format n) AND 1 = 1
               then n\<lparr>sn_Nlink := 1, sn_StartBlk := ucast u OR push_bit 32 (ucast nb),
                      sn_mask48 := True\<rparr>
               else n\<lparr>sn_Nlink := ucast nb, sn_StartBlk := ucast u\<rparr>)
      in n\<lparr>sn_Rdev := u, sn_ChunkFormat := ucast u\<rparr>)"

definition sp_decodeExtended :: "SpImage \<Rightarrow> SpInode \<Rightarrow> SpInode spec_result" where
  "sp_decodeExtended im n =
     bindE (sp_bytesAt im (sn_loc n) 64) (\<lambda>raw.
     let nb = le16 raw 6; u = le32 raw 16;
         n = n\<lparr>sn_isize := 64, sn_XattrCnt := le16 raw 2,
               sn_XattrSize := sp_xattrBodySize (le16 raw 2), sn_Mode := le16 raw 4, sn_NB := nb,
               sn_Size := sint (le64 raw 8), sn_Ino := le32 raw 20, sn_UID := le32 raw 24,
               sn_GID := le32 raw 28, sn_Mtime := sint (le64 raw 32), sn_MtimeNs := le32 raw 40,
               sn_Nlink := le32 raw 44, sn_StartBlk := ucast u OR push_bit 32 (ucast nb),
               sn_mask48 := True, sn_Rdev := u, sn_ChunkFormat := ucast u\<rparr>
     in if sn_Size n < 0 then Inl SpCorrupt else Inr n)"

definition sp_decodeInlineSymlink :: "SpImage \<Rightarrow> SpInode \<Rightarrow> SpInode spec_result" where
  "sp_decodeInlineSymlink im n =
     (let bsz = su_BlockSize (im_Super im);
          ofs = sn_loc n mod bsz + sn_isize n + sn_XattrSize n
      in if sn_Layout n \<noteq> 2 \<or> i64 (ofs + sn_Size n) > bsz then Inr n
         else bindE (sp_bytesAt im (i64 (sn_loc n + sn_isize n + sn_XattrSize n)) (sn_Size n))
                (\<lambda>target.
              if sn_Size n = 0 \<or> IndexByte target 0 \<noteq> None then Inl SpCorrupt
              else Inr (n\<lparr>sn_InlineTarget := Some target\<rparr>)))"

definition sp_decodeType :: "SpImage \<Rightarrow> SpInode \<Rightarrow> SpInode spec_result" where
  "sp_decodeType im n =
     (let t = sn_Mode n AND sp_ModeTypeMask;
          m = (if sn_mask48 n then push_bit 48 1 - 1 else push_bit 32 1 - 1);
          data = (\<lambda>n. (if sn_Layout n = 0 \<and> sn_StartBlk n AND m = m
                       then n\<lparr>sn_StartBlk := SpNullAddr\<rparr> else n)\<lparr>sn_Rdev := 0\<rparr>)
      in bindE (if t = 0x4000
                then Inr (data (n\<lparr>sn_DotOmitted := (drop_bit 4 (sn_Format n) AND 1 = 1)\<rparr>))
                else if t = 0x8000 \<or> t = 0xA000 then Inr (data n)
                else if t = 0x2000 \<or> t = 0x6000 then Inr (n\<lparr>sn_StartBlk := 0\<rparr>)
                else if t = 0x1000 \<or> t = 0xC000 then Inr (n\<lparr>sn_StartBlk := 0, sn_Rdev := 0\<rparr>)
                else Inl SpCorrupt) (\<lambda>n.
         if sn_Layout n = 1 \<or> sn_Layout n = 3 then Inl SpUnsupported
         else bindE (if sn_Layout n = 4 then
                       (if sn_ChunkFormat n AND NOT 0x7F \<noteq> 0 then Inl SpUnsupported
                        else Inr (n\<lparr>sn_ChunkBits := unat (su_BlockBits (im_Super im)) +
                                      unat (sn_ChunkFormat n AND 0x1F)\<rparr>))
                     else Inr n) (\<lambda>n.
         if sp_IsSymlink n then sp_decodeInlineSymlink im n else Inr n)))"

section \<open>Extended attributes\<close>

definition sp_builtinPrefix :: "byte \<Rightarrow> bytes \<times> bool" where
  "sp_builtinPrefix index =
     (if index = 1 then (bs ''user.'', True)
      else if index = 2 then (bs ''system.posix_acl_access'', True)
      else if index = 3 then (bs ''system.posix_acl_default'', True)
      else if index = 4 then (bs ''trusted.'', True)
      else if index = 6 then (bs ''security.'', True)
      else ([], False))"

definition sp_xattrPrefix :: "SpImage \<Rightarrow> byte \<Rightarrow> bytes \<times> bool" where
  "sp_xattrPrefix im index =
     (if index AND 0x80 \<noteq> 0 then
        (let i = unat (index AND 0x7F) in
         if i \<ge> length (im_Prefixes im) then ([], True)
         else let (base, ok) = sp_builtinPrefix (spx_BaseIndex (im_Prefixes im ! i))
              in (base @ spx_Infix (im_Prefixes im ! i), \<not> ok))
      else let (pfx, ok) = sp_builtinPrefix index in (pfx, \<not> ok))"

definition sp_xattrEntry :: "SpImage \<Rightarrow> int \<Rightarrow> (SpXattr \<times> int) spec_result" where
  "sp_xattrEntry im pos =
     bindE (sp_bytesAt im pos 4) (\<lambda>hdr.
     let nameLen = unat (hdr ! 0); index = hdr ! 1; valueLen = unat (le16 hdr 2) in
     bindE (sp_bytesAt im (i64 (pos + 4)) (int nameLen + int valueLen)) (\<lambda>body.
     let (pfx, unres) = sp_xattrPrefix im index in
     Inr (\<lparr> sx_Index = index, sx_Prefix = pfx, sx_Suffix = take nameLen body,
            sx_Value = drop nameLen body, sx_Shared = False, sx_SharedID = 0,
            sx_Unresolved = unres \<rparr>,
          sp_roundUp (4 + int nameLen + int valueLen) 4)))"

fun sp_u32s :: "bytes \<Rightarrow> nat \<Rightarrow> nat \<Rightarrow> u32 list" where
  "sp_u32s ids i 0 = []"
| "sp_u32s ids i (Suc n) = le32 ids (4 * i) # sp_u32s ids (Suc i) n"

text \<open>The loop over the inline entries. Every entry is at least four bytes, so the bytes left
  bound the number of turns.\<close>

fun sp_inlineXattrs ::
  "SpImage \<Rightarrow> nat \<Rightarrow> int \<Rightarrow> int \<Rightarrow> SpXattr list \<Rightarrow> SpXattr list spec_result" where
  "sp_inlineXattrs im 0 pos remaining acc = (if remaining > 0 then Inl SpCorrupt else Inr acc)"
| "sp_inlineXattrs im (Suc fuel) pos remaining acc =
     (if remaining > 0 then
        bindE (sp_xattrEntry im pos) (\<lambda>(x, sz).
        if remaining < sz then Inl SpCorrupt
        else sp_inlineXattrs im fuel (i64 (pos + sz)) (remaining - sz) (acc @ [x]))
      else Inr acc)"

fun sp_sharedXattrs :: "SpImage \<Rightarrow> u32 list \<Rightarrow> SpXattr list \<Rightarrow> SpXattr list spec_result" where
  "sp_sharedXattrs im [] acc = Inr acc"
| "sp_sharedXattrs im (i # ids) acc =
     bindE (sp_xattrEntry im (uint (su_XattrBlkAddr (im_Super im)) * su_BlockSize (im_Super im) +
              uint i * 4)) (\<lambda>(x, _).
     sp_sharedXattrs im ids (acc @ [x\<lparr>sx_Shared := True, sx_SharedID := i\<rparr>]))"

definition sp_decodeXattrs :: "SpImage \<Rightarrow> SpInode \<Rightarrow> SpInode spec_result" where
  "sp_decodeXattrs im n =
     (if sn_XattrSize n = 0 then Inr n
      else if sn_XattrSize n = 12 then Inl SpUnsupported
      else if sn_XattrSize n < 12 then Inl SpCorrupt
      else
        let pos = i64 (sn_loc n + sn_isize n) in
        bindE (sp_bytesAt im pos 12) (\<lambda>hdr.
        let shared = int (unat (hdr ! 4)) in
        if shared * 4 > sn_XattrSize n - 12 then Inl SpCorrupt
        else
          bindE (sp_bytesAt im (i64 (pos + 12)) (shared * 4)) (\<lambda>raw.
          let ids = sp_u32s raw 0 (nat shared);
              remaining = sn_XattrSize n - 12 - shared * 4
          in bindE (sp_inlineXattrs im (nat remaining) (i64 (pos + 12 + shared * 4)) remaining [])
               (\<lambda>xs.
             bindE (sp_sharedXattrs im ids xs) (\<lambda>xs.
             Inr (n\<lparr>sn_NameFilter := le32 hdr 0, sn_SharedIDs := ids, sn_Xattrs := xs\<rparr>))))))"

text \<open>\<open>Inode\<close> up to its xattrs, and the whole.\<close>

definition sp_Inode_core :: "SpImage \<Rightarrow> u64 \<Rightarrow> SpInode spec_result" where
  "sp_Inode_core im nid =
     (if drop_bit 63 nid \<noteq> 0 then Inl SpUnsupported
      else
        let n = sp_new_inode nid (i64 (uint (su_MetaBlkAddr (im_Super im)) *
                  su_BlockSize (im_Super im) + i64 (sint nid * 32))) in
        bindE (sp_bytesAt im (sn_loc n) 32) (\<lambda>raw.
        let format = le16 raw 0; layout = ucast (drop_bit 1 format) AND 7 in
        if format AND NOT 0x1F \<noteq> 0 then Inl SpUnsupported
        else if layout \<ge> 5 then Inl SpUnsupported
        else
          let n = n\<lparr>sn_Format := format, sn_Layout := layout,
                    sn_Extended := (format AND 1 = 1)\<rparr> in
          bindE (if sn_Extended n then sp_decodeExtended im n else Inr (sp_decodeCompact im n raw))
            (sp_decodeType im)))"

definition sp_Inode :: "SpImage \<Rightarrow> u64 \<Rightarrow> SpInode spec_result" where
  "sp_Inode im nid = bindE (sp_Inode_core im nid) (sp_decodeXattrs im)"

section \<open>Content\<close>

record Extent =
  ex_Logical :: int
  ex_Length :: int
  ex_Device :: u16
  ex_Physical :: int
  ex_Hole :: bool

definition sp_flatExtents :: "SpImage \<Rightarrow> SpInode \<Rightarrow> Extent list spec_result" where
  "sp_flatExtents im n =
     (let bsz = su_BlockSize (im_Super im); inline = (sn_Layout n = 2) in
      if \<not> inline \<and> sn_StartBlk n = SpNullAddr
      then Inr [\<lparr> ex_Logical = 0, ex_Length = sn_Size n, ex_Device = 0, ex_Physical = 0,
                  ex_Hole = True \<rparr>]
      else
        let blocks = go_div (i64 (sn_Size n + bsz - 1)) bsz;
            mapped = i64 ((if inline then blocks - 1 else blocks) * bsz);
            out = (if mapped > 0
                   then [\<lparr> ex_Logical = 0, ex_Length = min mapped (sn_Size n), ex_Device = 0,
                           ex_Physical = i64 (sint (sn_StartBlk n) * bsz), ex_Hole = False \<rparr>]
                   else [])
        in if inline then
             let pa = i64 (sn_loc n + sn_isize n + sn_XattrSize n); tail = i64 (sn_Size n - mapped) in
             if i64 (pa mod bsz + tail) > bsz then Inl SpCorrupt
             else Inr (out @ [\<lparr> ex_Logical = mapped, ex_Length = tail, ex_Device = 0,
                                ex_Physical = pa, ex_Hole = False \<rparr>])
           else Inr out)"

definition sp_chunkUnit :: "SpInode \<Rightarrow> int" where
  "sp_chunkUnit n = (if sn_ChunkFormat n AND 0x20 \<noteq> 0 then 8 else 4)"

definition sp_chunkExtent :: "SpImage \<Rightarrow> SpInode \<Rightarrow> int \<Rightarrow> Extent spec_result" where
  "sp_chunkExtent im n i =
     (let bsz = su_BlockSize (im_Super im); unit = sp_chunkUnit n;
          addrMask = (if sn_ChunkFormat n AND 0x40 \<noteq> 0 then push_bit 48 1 - 1
                      else push_bit 32 1 - 1) :: u64;
          chunk = shl64 1 (sn_ChunkBits n);
          pos = i64 (sp_roundUp (i64 (sn_loc n + sn_isize n + sn_XattrSize n)) unit + i64 (i * unit))
      in bindE (sp_bytesAt im pos unit) (\<lambda>entry.
         let logical = i64 (i * chunk); len = min chunk (i64 (sn_Size n - i64 (i * chunk)));
             addr = (if unit = 4 then ucast (le32 entry 0)
                     else push_bit 32 (ucast (le16 entry 0)) OR ucast (le32 entry 4)) AND addrMask;
             dev = (if unit = 4 then 0 else le16 entry 2 AND su_DeviceIDMask (im_Super im))
         in if addr = addrMask
            then Inr \<lparr> ex_Logical = logical, ex_Length = len, ex_Device = 0, ex_Physical = 0,
                       ex_Hole = True \<rparr>
            else Inr \<lparr> ex_Logical = logical, ex_Length = len, ex_Device = dev,
                       ex_Physical = i64 (sint addr * bsz), ex_Hole = False \<rparr>))"

fun sp_extentAt :: "Extent list \<Rightarrow> int \<Rightarrow> Extent option" where
  "sp_extentAt [] pos = None"
| "sp_extentAt (e # es) pos =
     (if pos \<ge> ex_Logical e \<and> pos < i64 (ex_Logical e + ex_Length e) then Some e
      else sp_extentAt es pos)"

text \<open>\<open>ExtentAt\<close>; the extents of an inode that is not chunk-based are the flat ones, and none for
  an empty file, whose positions are refused first.\<close>

definition sp_ExtentAt :: "SpImage \<Rightarrow> SpInode \<Rightarrow> int \<Rightarrow> Extent spec_result" where
  "sp_ExtentAt im n pos =
     (if pos < 0 \<or> pos \<ge> sn_Size n then Inl SpTruncated
      else if sn_Layout n \<noteq> 4 then
        bindE (if sn_Layout n = 0 \<or> sn_Layout n = 2 then sp_flatExtents im n else Inl SpUnsupported)
          (\<lambda>es. case sp_extentAt es pos of None \<Rightarrow> Inl SpCorrupt | Some e \<Rightarrow> Inr e)
      else sp_chunkExtent im n (go_div pos (shl64 1 (sn_ChunkBits n))))"

fun sp_unified_from :: "int \<Rightarrow> nat \<Rightarrow> SpDevice list \<Rightarrow> int \<Rightarrow> (nat \<times> int) option" where
  "sp_unified_from bsz i [] off = None"
| "sp_unified_from bsz i (d # ds) off =
     (let start = i64 (sint (sd_UniAddr d) * bsz); fin = i64 (start + i64 (sint (sd_Blocks d) * bsz))
      in if sd_UniAddr d \<noteq> 0 \<and> off \<ge> start \<and> off < fin then Some (i, start)
         else sp_unified_from bsz (Suc i) ds off)"

definition sp_unifiedDevice :: "SpImage \<Rightarrow> int \<Rightarrow> (nat \<times> int) option" where
  "sp_unifiedDevice im off =
     (if im_extra im = [] then None
      else sp_unified_from (su_BlockSize (im_Super im)) 0 (im_Devices im) off)"

definition sp_extraBytes :: "SpImage \<Rightarrow> nat \<Rightarrow> int \<Rightarrow> int \<Rightarrow> bytes spec_result" where
  "sp_extraBytes im i off n =
     (if i \<ge> length (im_extra im) then Inl SpTruncated else sp_sliceAt (im_extra im ! i) off n)"

definition sp_deviceBytes :: "SpImage \<Rightarrow> u16 \<Rightarrow> int \<Rightarrow> int \<Rightarrow> bytes spec_result" where
  "sp_deviceBytes im dev off n =
     (if dev = 0 then
        (case sp_unifiedDevice im off of
           Some (i, start) \<Rightarrow> sp_extraBytes im i (i64 (off - start)) n
         | None \<Rightarrow> sp_bytesAt im off n)
      else
        let i = unat dev - 1 in
        if i \<ge> length (im_Devices im) then Inl SpCorrupt
        else if im_extra im = [] then
          sp_bytesAt im (i64 (off + i64 (sint (sd_UniAddr (im_Devices im ! i)) *
                                su_BlockSize (im_Super im)))) n
        else sp_extraBytes im i off n)"

text \<open>The loop of \<open>ReadAt\<close> from \<open>pos\<close> to \<open>fin\<close>, with the content it assembles. The extent of a
  position reaches past it, so every turn reads at least one byte and \<open>fin - pos\<close> turns are
  enough; an extent that did not would leave the loop where it is, which is \<open>SpCorrupt\<close> here.\<close>

fun sp_readFrom :: "SpImage \<Rightarrow> SpInode \<Rightarrow> nat \<Rightarrow> int \<Rightarrow> int \<Rightarrow> bytes \<Rightarrow> bytes spec_result" where
  "sp_readFrom im n 0 pos fin acc = (if pos < fin then Inl SpCorrupt else Inr acc)"
| "sp_readFrom im n (Suc fuel) pos fin acc =
     (if pos < fin then
        bindE (sp_ExtentAt im n pos) (\<lambda>e.
        let hi = min (i64 (ex_Logical e + ex_Length e)) fin in
        bindE (if ex_Hole e then Inr (replicate (nat (hi - pos)) 0)
               else sp_deviceBytes im (ex_Device e) (i64 (ex_Physical e + (pos - ex_Logical e)))
                      (hi - pos)) (\<lambda>b.
        sp_readFrom im n fuel hi fin (acc @ b)))
      else Inr acc)"

definition sp_ReadAt :: "SpImage \<Rightarrow> SpInode \<Rightarrow> int \<Rightarrow> int \<Rightarrow> bytes spec_result" where
  "sp_ReadAt im n off len =
     (if off < 0 \<or> len < 0 \<or> off > sn_Size n \<or> len > sn_Size n - off then Inl SpTruncated
      else sp_readFrom im n (nat len) off (off + len) [])"

abbreviation (input) sp_MaxContent :: int where "sp_MaxContent \<equiv> 67108864"

definition sp_Read :: "SpImage \<Rightarrow> SpInode \<Rightarrow> bytes spec_result" where
  "sp_Read im n = (if sn_Size n > sp_MaxContent then Inl SpTooLarge else sp_ReadAt im n 0 (sn_Size n))"

definition sp_Target :: "SpImage \<Rightarrow> SpInode \<Rightarrow> bytes spec_result" where
  "sp_Target im n =
     (case sn_InlineTarget n of
        Some t \<Rightarrow> Inr t
      | None \<Rightarrow>
          bindE (sp_ReadAt im n 0 (min (sn_Size n) 4095)) (\<lambda>b.
          Inr (case IndexByte b 0 of Some i \<Rightarrow> take i b | None \<Rightarrow> b)))"

end
