(* ===== verification/Refine.thy ===== *)
theory Refine
  imports Data_Map Spec_Reader
begin

text \<open>
  The reader against the reference reader of \<open>internal/erofsspec\<close>. Both are handed the same
  image; \<open>image_sim\<close> and \<open>inode_sim\<close> relate what each of them keeps of it. The reference is
  written for clarity: it keeps the whole image in memory and answers a read by looking up the
  extent of every position. The reader goes block by block through a device table, a pool of
  blocks and a fast path. The lemmas here show that a block the reader serves holds the bytes
  the reference gives for the same positions.
\<close>

section \<open>Images\<close>

text \<open>The content of extra device \<open>i\<close>: the bytes given for it, or with none given the image from
  the device's unified address on.\<close>

definition dev_data :: "SpImage \<Rightarrow> nat \<Rightarrow> bytes" where
  "dev_data im i =
     (if im_extra im = [] then
        drop (nat (uint (sd_UniAddr (im_Devices im ! i)) * su_BlockSize (im_Super im))) (im_data im)
      else im_extra im ! i)"

definition dev_sim :: "SpImage \<Rightarrow> nat \<Rightarrow> deviceInfo \<Rightarrow> bool" where
  "dev_sim im i d \<longleftrightarrow>
     sd_Blocks (im_Devices im ! i) = ucast (dblocks d) \<and>
     sd_UniAddr (im_Devices im ! i) = ucast (mappedBlkAddr d) \<and>
     reads_data (device d) (dev_data im i)"

definition image_sim :: "image \<Rightarrow> SpImage \<Rightarrow> bool" where
  "image_sim img im \<longleftrightarrow>
     su_BlockBits (im_Super im) = sb_BlkSizeBits (sb img) \<and>
     su_BlockSize (im_Super im) = 2 ^ blkbits img \<and>
     su_MetaBlkAddr (im_Super im) = sb_MetaBlkAddr (sb img) \<and>
     su_DeviceIDMask (im_Super im) = deviceIDMask img \<and>
     reads_data (meta img) (im_data im) \<and>
     length (im_Devices im) = length (devices img) \<and>
     (im_extra im \<noteq> [] \<longrightarrow> length (im_extra im) = length (devices img)) \<and>
     (\<forall>i < length (devices img). dev_sim im i (devices img ! i))"

lemma uint_ucast_u32_u64 [simp]: "uint (ucast (w :: u32) :: u64) = uint w"
  by (simp add: unsigned_ucast_eq take_bit_int_eq_self uint_lt_u32 order_less_trans [OF uint_lt_u32])

lemma sint_ucast_u32_u64 [simp]: "sint (ucast (w :: u32) :: u64) = uint w"
  using uint_lt_u32 [of w] by (subst sint_small) simp_all

lemma ucast_u32_u64_eq_0 [simp]: "(ucast (w :: u32) :: u64) = 0 \<longleftrightarrow> w = 0"
  by (metis uint_ucast_u32_u64 uint_0_iff)

text \<open>A full read is a slice of the content.\<close>

lemma read_sliceAt:
  assumes "reads_data rd data" and "ra_read rd off n = (b, e)" and "length b = n" and "0 < n"
  shows "sp_sliceAt data off (int n) = Inr b"
proof -
  have "b \<noteq> []" using assms(3,4) by auto
  with reads_dataD(2,3) [OF assms(1,2)] have o: "0 \<le> off" and w: "window data (nat off) n = b"
    using assms(3) by auto
  from w assms(3,4) have "nat off + n \<le> length data"
    by (auto simp: window_def min_def split: if_splits)
  with o w show ?thesis by (auto simp: sp_sliceAt_def)
qed

lemma sliceAt_drop:
  assumes "sp_sliceAt (drop (nat s) data) off n = Inr b" and "0 \<le> s" and "0 < n"
  shows "sp_sliceAt data (s + off) n = Inr b"
proof -
  have o: "0 \<le> off" "off \<le> int (length data - nat s)" "n \<le> int (length data - nat s) - off"
    and b: "b = window data (nat s + nat off) (nat n)"
    using assms(1) by (auto simp: sp_sliceAt_def window_drop split: if_splits)
  have "nat s \<le> length data"
  proof (rule ccontr)
    assume "\<not> nat s \<le> length data"
    with o assms(3) show False by simp
  qed
  with o b assms(2,3) show ?thesis
    by (auto simp: sp_sliceAt_def nat_add_distrib of_nat_diff)
qed

lemma sim_blkbits: "image_sim img im \<Longrightarrow> su_BlockSize (im_Super im) = 2 ^ blkbits img"
  by (simp add: image_sim_def)

text \<open>The device a read of the reader goes to is the one the reference reads.\<close>

lemma device_read:
  assumes sim: "image_sim img im" and rd: "deviceReader img dev = Inr rd"
    and r: "ra_read rd off n = (b, e)" "length b = n" "0 < n"
  shows "if dev = 0 then sp_bytesAt im off (int n) = Inr b
    else unat dev - 1 < length (im_Devices im) \<and>
      (if im_extra im = [] then
         sp_bytesAt im (uint (mappedBlkAddr (devices img ! (unat dev - 1))) * 2 ^ blkbits img + off) (int n) = Inr b
       else sp_extraBytes im (unat dev - 1) off (int n) = Inr b)"
proof (cases "dev = 0")
  case True
  with rd sim r show ?thesis
    using read_sliceAt [of "meta img" "im_data im" off n b e]
    by (simp add: deviceReader_def image_sim_def sp_bytesAt_def)
next
  case False
  let ?i = "unat dev - 1"
  have i: "?i < length (devices img)" and d: "rd = device (devices img ! ?i)"
    using False rd by (auto simp: deviceReader_def split: if_splits)
  then have ds: "dev_sim im ?i (devices img ! ?i)" and l: "?i < length (im_Devices im)"
    using sim by (auto simp: image_sim_def)
  have s: "sp_sliceAt (dev_data im ?i) off (int n) = Inr b"
    by (rule read_sliceAt [OF _ r]) (use ds d in \<open>simp add: dev_sim_def\<close>)
  show ?thesis
  proof (cases "im_extra im = []")
    case True
    then have "dev_data im ?i = drop (nat (uint (mappedBlkAddr (devices img ! ?i)) * 2 ^ blkbits img)) (im_data im)"
      using ds sim_blkbits [OF sim] by (simp add: dev_data_def dev_sim_def)
    with s sliceAt_drop [of "uint (mappedBlkAddr (devices img ! ?i)) * 2 ^ blkbits img" "im_data im" off "int n" b]
      r(3) True False l show ?thesis by (simp add: sp_bytesAt_def)
  next
    case extra: False
    with s i False l sim show ?thesis by (simp add: sp_extraBytes_def dev_data_def image_sim_def)
  qed
qed


section \<open>Devices\<close>

text \<open>The device whose mapped range holds an address: what the three loops over a device table
  look for.\<close>

definition in_mapped :: "nat \<Rightarrow> deviceInfo \<Rightarrow> int \<Rightarrow> bool" where
  "in_mapped bits d pa \<longleftrightarrow> mappedBlkAddr d \<noteq> 0 \<and> uint (mappedBlkAddr d) * 2 ^ bits \<le> pa \<and>
     pa < uint (mappedBlkAddr d) * 2 ^ bits + uint (dblocks d) * 2 ^ bits"

fun find_dev :: "nat \<Rightarrow> deviceInfo list \<Rightarrow> int \<Rightarrow> nat option" where
  "find_dev bits [] pa = None"
| "find_dev bits (d # ds) pa =
     (if in_mapped bits d pa then Some 0 else map_option Suc (find_dev bits ds pa))"

lemma find_dev_bound: "find_dev bits devs pa = Some j \<Longrightarrow> j < length devs"
  by (induction devs arbitrary: j) (auto split: if_splits)

lemma in_mapped_iff:
  assumes "bits \<le> 16"
  shows "in_mapped bits d pa \<longleftrightarrow> mappedBlkAddr d \<noteq> 0 \<and> shl64 (uint (mappedBlkAddr d)) bits \<le> pa \<and>
     pa < i64 (shl64 (uint (mappedBlkAddr d)) bits + shl64 (uint (dblocks d)) bits)"
  using assms mapped_eqs(1) [OF assms, of "mappedBlkAddr d" "dblocks d"]
  by (simp add: in_mapped_def shl64_u32)

lemma in_mapped_sub:
  "bits \<le> 16 \<Longrightarrow> in_mapped bits d pa \<Longrightarrow>
   i64 (pa - shl64 (uint (mappedBlkAddr d)) bits) = pa - uint (mappedBlkAddr d) * 2 ^ bits"
  using mapped_eqs(2) [of bits "mappedBlkAddr d" pa "dblocks d"] by (simp add: in_mapped_iff)

lemma locate_dev_find:
  assumes "bits \<le> 16"
  shows "locate_dev bits i devs pa =
    map_option (\<lambda>j. (of_nat (i + j + 1), pa - uint (mappedBlkAddr (devs ! j)) * 2 ^ bits)) (find_dev bits devs pa)"
proof (induction devs arbitrary: i)
  case (Cons d devs)
  show ?case
  proof (cases "in_mapped bits d pa")
    case True
    then show ?thesis
      using in_mapped_sub [OF assms True] True [unfolded in_mapped_iff [OF assms]] by (simp add: Let_def)
  next
    case False
    then have "locate_dev bits i (d # devs) pa = locate_dev bits (Suc i) devs pa"
      by (auto simp: Let_def in_mapped_iff [OF assms])
    with False Cons show ?thesis by (simp add: option.map_comp o_def)
  qed
qed simp

lemma locateRange_dev_find:
  assumes "bits \<le> 16"
  shows "locateRange_dev bits i devs pa n =
    map_option (\<lambda>j. if i64 (pa + n) > uint (mappedBlkAddr (devs ! j)) * 2 ^ bits + uint (dblocks (devs ! j)) * 2 ^ bits
                    then Inl ErrCorrupt
                    else Inr (of_nat (i + j + 1), pa - uint (mappedBlkAddr (devs ! j)) * 2 ^ bits))
      (find_dev bits devs pa)"
proof (induction devs arbitrary: i)
  case (Cons d devs)
  show ?case
  proof (cases "in_mapped bits d pa")
    case True
    then show ?thesis
      using in_mapped_sub [OF assms True] True [unfolded in_mapped_iff [OF assms]]
        mapped_eqs(1) [OF assms, of "mappedBlkAddr d" "dblocks d"] by (simp add: Let_def)
  next
    case False
    then have "locateRange_dev bits i (d # devs) pa n = locateRange_dev bits (Suc i) devs pa n"
      by (auto simp: Let_def in_mapped_iff [OF assms])
    with False Cons show ?thesis by (simp add: option.map_comp o_def cong: if_cong)
  qed
qed simp

lemma unified_find:
  assumes b: "bits \<le> 16" and "length ds = length devs"
    and "\<forall>j < length devs. sd_Blocks (ds ! j) = ucast (dblocks (devs ! j)) \<and>
           sd_UniAddr (ds ! j) = ucast (mappedBlkAddr (devs ! j))"
  shows "sp_unified_from (2 ^ bits) i ds off =
    map_option (\<lambda>j. (i + j, uint (mappedBlkAddr (devs ! j)) * 2 ^ bits)) (find_dev bits devs off)"
  using assms(2,3)
proof (induction devs arbitrary: i ds)
  case (Cons d devs)
  then obtain s ds' where ds: "ds = s # ds'" and l: "length ds' = length devs" by (cases ds) auto
  have s: "sd_Blocks s = ucast (dblocks d)" "sd_UniAddr s = ucast (mappedBlkAddr d)"
    using Cons.prems(2) by (force simp: ds)+
  have rest: "\<forall>j < length devs. sd_Blocks (ds' ! j) = ucast (dblocks (devs ! j)) \<and>
           sd_UniAddr (ds' ! j) = ucast (mappedBlkAddr (devs ! j))"
    using Cons.prems(2) by (force simp: ds)
  have w: "i64 (uint (x :: u32) * 2 ^ bits) = uint x * 2 ^ bits" for x
    using shl64_u32 [OF b, of x] by (simp add: shl64_def push_bit_eq_mult)
  have e: "i64 (uint (mappedBlkAddr d) * 2 ^ bits + uint (dblocks d) * 2 ^ bits) =
      uint (mappedBlkAddr d) * 2 ^ bits + uint (dblocks d) * 2 ^ bits"
    using mapped_eqs(1) [OF b, of "mappedBlkAddr d" "dblocks d"] by (simp add: shl64_u32 [OF b])
  show ?case
    using Cons.IH [OF l rest, of "Suc i"]
    by (simp add: ds s Let_def w e in_mapped_def option.map_comp o_def)
qed simp

lemma find_dev_aligned:
  assumes "0 \<le> r" and "r < 2 ^ bits"
  shows "find_dev bits devs (q * 2 ^ bits + r) = find_dev bits devs (q * 2 ^ bits)"
proof (induction devs)
  case (Cons d devs)
  have le: "a * 2 ^ bits \<le> q * 2 ^ bits + r \<longleftrightarrow> a \<le> q" for a :: int
  proof
    assume "a * 2 ^ bits \<le> q * 2 ^ bits + r"
    also have "\<dots> < (q + 1) * 2 ^ bits" using assms by (simp add: algebra_simps)
    finally show "a \<le> q" by simp
  next
    assume "a \<le> q"
    then have "a * 2 ^ bits \<le> q * 2 ^ bits" by simp
    with assms show "a * 2 ^ bits \<le> q * 2 ^ bits + r" by linarith
  qed
  have "in_mapped bits d (q * 2 ^ bits + r) = in_mapped bits d (q * 2 ^ bits)"
    using le [of "uint (mappedBlkAddr d)"] le [of "uint (mappedBlkAddr d) + uint (dblocks d)"]
    by (auto simp: in_mapped_def not_le [symmetric] distrib_right [symmetric] simp del: not_le)
  with Cons show ?case by simp
qed simp


lemma sim_unified:
  assumes "image_sim img im" and "image_ok img"
  shows "sp_unifiedDevice im off =
    (if im_extra im = [] then None
     else map_option (\<lambda>j. (j, uint (mappedBlkAddr (devices img ! j)) * 2 ^ blkbits img))
            (find_dev (blkbits img) (devices img) off))"
proof -
  have "sp_unified_from (2 ^ blkbits img) 0 (im_Devices im) off =
    map_option (\<lambda>j. (0 + j, uint (mappedBlkAddr (devices img ! j)) * 2 ^ blkbits img))
      (find_dev (blkbits img) (devices img) off)"
    using assms by (intro unified_find) (auto simp: image_sim_def dev_sim_def)
  with assms(1) show ?thesis by (simp add: sp_unifiedDevice_def sim_blkbits)
qed

lemma find_dev_in_mapped: "find_dev bits devs pa = Some j \<Longrightarrow> in_mapped bits (devs ! j) pa"
  by (induction devs arbitrary: j) (auto split: if_splits)

text \<open>Bytes read at an offset of the device a primary address was found on, whatever loop found
  it, are the bytes the reference reads at the address.\<close>

lemma mapped_read:
  assumes sim: "image_sim img im" and ok: "image_ok img"
    and f: "find_dev (blkbits img) (devices img) pa = Some j"
    and rd: "deviceReader img (of_nat (Suc j)) = Inr rd"
    and r: "ra_read rd (pa - uint (mappedBlkAddr (devices img ! j)) * 2 ^ blkbits img) n = (b, e)"
      "length b = n" "0 < n"
  shows "sp_deviceBytes im 0 pa (int n) = Inr b"
proof -
  have k: "blkbits img \<le> 16" using ok by blast
  have j: "j < length (devices img)" by (rule find_dev_bound [OF f])
  then have u: "unat (of_nat (Suc j) :: u16) = Suc j" using ok by (intro unat_of_nat_u16) auto
  then have nz: "(of_nat (Suc j) :: u16) \<noteq> 0" by (metis unat_0 nat.distinct(1))
  have w: "i64 (pa - uint (mappedBlkAddr (devices img ! j)) * 2 ^ blkbits img) =
      pa - uint (mappedBlkAddr (devices img ! j)) * 2 ^ blkbits img"
    using in_mapped_sub [OF k find_dev_in_mapped [OF f]] by (simp add: shl64_u32 [OF k])
  from device_read [OF sim rd r] u nz f w show ?thesis
    by (auto simp: sp_deviceBytes_def sim_unified [OF sim ok] split: if_splits)
qed

lemma locateRange_read:
  assumes sim: "image_sim img im" and ok: "image_ok img"
    and l: "locateRange img pa (int n) = Inr (dev, off)" and rd: "deviceReader img dev = Inr rd"
    and r: "ra_read rd off n = (b, e)" "length b = n" "0 < n"
  shows "sp_deviceBytes im 0 pa (int n) = Inr b"
proof (cases "find_dev (blkbits img) (devices img) pa")
  case None
  have k: "blkbits img \<le> 16" using ok by blast
  from None l have "dev = 0" "off = pa"
    by (auto simp: locateRange_def locateRange_dev_find [OF k] split: if_splits)
  with device_read [OF sim rd r] None show ?thesis
    by (simp add: sp_deviceBytes_def sim_unified [OF sim ok])
next
  case (Some j)
  have k: "blkbits img \<le> 16" using ok by blast
  from Some l have "dev = of_nat (Suc j)" "off = pa - uint (mappedBlkAddr (devices img ! j)) * 2 ^ blkbits img"
    by (auto simp: locateRange_def locateRange_dev_find [OF k] split: if_splits)
  with mapped_read [OF sim ok Some] rd r show ?thesis by simp
qed

lemma locate_read:
  assumes sim: "image_sim img im" and ok: "image_ok img"
    and l: "locate img did (q * 2 ^ blkbits img) = Inr (dev, off)" and rd: "deviceReader img dev = Inr rd"
    and x: "0 \<le> x" "x < 2 ^ blkbits img" "0 \<le> q" "q * 2 ^ blkbits img \<le> 2 ^ 60"
    and r: "ra_read rd (i64 (off + x)) n = (b, e)" "length b = n" "0 < n"
  shows "sp_deviceBytes im did (q * 2 ^ blkbits img + x) (int n) = Inr b"
proof -
  let ?pa = "q * 2 ^ blkbits img"
  have k: "blkbits img \<le> 16" using ok by blast
  have B: "(2 :: int) ^ blkbits img \<le> 2 ^ 16" using k by (intro power_increasing) auto
  have big: "i64 (?pa + x) = ?pa + x" using x B by (intro i64_id_nonneg) auto
  show ?thesis
  proof (cases "did = 0")
    case True
    show ?thesis
    proof (cases "find_dev (blkbits img) (devices img) ?pa")
      case None
      with l True have "dev = 0" "off = ?pa"
        by (auto simp: locate_def locate_dev_find [OF k] split: if_splits)
      with device_read [OF sim rd r] None True big find_dev_aligned [OF x(1,2)] show ?thesis
        by (simp add: sp_deviceBytes_def sim_unified [OF sim ok])
    next
      case (Some j)
      with l True have d: "dev = of_nat (Suc j)" "off = ?pa - uint (mappedBlkAddr (devices img ! j)) * 2 ^ blkbits img"
        by (auto simp: locate_def locate_dev_find [OF k])
      have "0 \<le> off" "off \<le> ?pa"
        using find_dev_in_mapped [OF Some] by (auto simp: in_mapped_def d)
      then have "i64 (off + x) = off + x" using x B by (intro i64_id_nonneg) auto
      moreover have "off + x = ?pa + x - uint (mappedBlkAddr (devices img ! j)) * 2 ^ blkbits img"
        by (simp add: d(2))
      ultimately have rr: "ra_read rd (?pa + x - uint (mappedBlkAddr (devices img ! j)) * 2 ^ blkbits img) n = (b, e)"
        using r(1) by argo
      have f: "find_dev (blkbits img) (devices img) (?pa + x) = Some j"
        using Some find_dev_aligned [OF x(1,2)] by simp
      show ?thesis
        unfolding True by (rule mapped_read [OF sim ok f rd [unfolded d(1)] rr r(2,3)])
    qed
  next
    case False
    then have d: "dev = did" "off = ?pa" "unat did \<le> length (devices img)" "did > 0"
      using l by (auto simp: locate_def word_gt_0 split: if_splits)
    have i: "unat did - 1 < length (devices img)" 
    proof -
      have "0 < unat did" using False by (simp add: unat_gt_0)
      with d(3) show ?thesis by linarith
    qed
    define m where "m = uint (mappedBlkAddr (devices img ! (unat did - 1)))"
    have "i64 (m * 2 ^ blkbits img) = m * 2 ^ blkbits img"
      using shl64_u32 [OF k, of "mappedBlkAddr (devices img ! (unat did - 1))"]
      by (simp add: shl64_def push_bit_eq_mult m_def)
    moreover have "m * 2 ^ blkbits img \<le> (2 ^ 32 - 1) * 2 ^ 16"
      unfolding m_def by (rule mult_pow16) (use k uint_lt_u32 in auto)
    moreover have "0 \<le> m * 2 ^ blkbits img" by (simp add: m_def)
    ultimately have "i64 (?pa + x + i64 (m * 2 ^ blkbits img)) = m * 2 ^ blkbits img + (?pa + x)"
      using x B by (subst i64_id_nonneg) auto
    moreover have "sint (sd_UniAddr (im_Devices im ! (unat did - 1))) = m"
      using sim i by (auto simp: image_sim_def dev_sim_def m_def)
    ultimately show ?thesis
      using device_read [OF sim rd r] d False big sim
      by (auto simp: sp_deviceBytes_def Let_def sim_blkbits m_def split: if_splits)
  qed
qed


section \<open>Extents\<close>

definition inode_sim :: "image \<Rightarrow> inode \<Rightarrow> SpInode \<Rightarrow> bool" where
  "inode_sim img ino n \<longleftrightarrow>
     sn_Layout n = inodeLayout ino \<and> sn_Size n = fsize ino \<and>
     sn_loc n = nid_addr img (inid ino) \<and> sn_isize n = icsize ino \<and>
     sn_XattrSize n = xsize ino \<and> sn_ChunkFormat n = chunkFormat ino \<and>
     (inodeLayout ino = LayoutChunkBased \<longrightarrow> sn_ChunkBits n = chunkBits img ino) \<and>
     sn_StartBlk n = (if nullAddress ino then SpNullAddr else startBlock ino)"

lemma readFrom_end [simp]: "sp_readFrom im n fuel pos pos acc = Inr acc"
  by (cases fuel) auto

lemma ReadAt_one:
  assumes "0 \<le> pos" and "0 < len" and "pos + len \<le> sn_Size n"
    and e: "sp_ExtentAt im n pos = Inr e" "pos + len \<le> i64 (ex_Logical e + ex_Length e)"
    and b: "if ex_Hole e then b = replicate (nat len) 0
      else sp_deviceBytes im (ex_Device e) (i64 (ex_Physical e + (pos - ex_Logical e))) len = Inr b"
  shows "sp_ReadAt im n pos len = Inr b"
proof -
  obtain m where m: "nat len = Suc m" using assms(2) by (cases "nat len") auto
  have "min (i64 (ex_Logical e + ex_Length e)) (pos + len) = pos + len"
    using e(2) by simp
  with assms m show ?thesis
    by (auto simp: sp_ReadAt_def Let_def split: if_splits)
qed

lemma startBlock_bound: "uint (startBlock ino) < 2 ^ 48"
proof -
  have "take_bit 48 (startBlock ino) = startBlock ino"
    by (rule bit_word_eqI) (auto simp: startBlock_def bit_simps dest: bit_imp_le_length)
  then have "uint (startBlock ino) = take_bit 48 (uint (startBlock ino))" by (metis unsigned_take_bit_eq)
  then show ?thesis by (metis take_bit_int_less_exp)
qed

lemma startBlock_not_null: "startBlock ino \<noteq> SpNullAddr"
proof
  assume "startBlock ino = SpNullAddr"
  moreover have "uint (SpNullAddr :: u64) = 2 ^ 64 - 1" by (simp add: unsigned_minus_1_eq_mask mask_eq_exp_minus_1)
  ultimately have "uint (startBlock ino) = 2 ^ 64 - 1" by simp
  with startBlock_bound [of ino] show False by simp
qed

lemma sint_startBlock [simp]: "sint (startBlock ino) = uint (startBlock ino)"
  using startBlock_bound [of ino] by (intro sint_small) simp

lemma ExtentAt_plain:
  assumes sim: "image_sim img im" "inode_sim img ino n" and ok: "image_ok img"
    and f: "fsize ino \<le> 2 ^ 62" "inodeLayout ino = LayoutFlatPlain" and pos: "0 \<le> pos" "pos < fsize ino"
  shows "\<exists>e. sp_ExtentAt im n pos = Inr e \<and> ex_Logical e = 0 \<and> ex_Length e = fsize ino \<and> ex_Device e = 0 \<and>
     ex_Hole e = nullAddress ino \<and>
     (\<not> nullAddress ino \<longrightarrow> ex_Physical e = i64 (uint (startBlock ino) * 2 ^ blkbits img))"
proof -
  have k: "blkbits img \<le> 16" using ok by blast
  have w: "i64 (fsize ino) = fsize ino" using f pos by (intro i64_id_nonneg) auto
  have sz: "0 < fsize ino" using pos by simp
  note b = blocks_eq [OF sz f(1) k] calculateBlocks_bounds(1) [of "fsize ino" "blkbits img"]
  have m: "min (calculateBlocks (blkbits img) (fsize ino) * 2 ^ blkbits img) (fsize ino) = fsize ino"
    using b(5) by simp
  have p: "0 < calculateBlocks (blkbits img) (fsize ino) * 2 ^ blkbits img" using b(4) by simp
  show ?thesis
    using sim f pos startBlock_not_null [of ino]
    by (cases "nullAddress ino")
      (simp_all add: sp_ExtentAt_def sp_flatExtents_def inode_sim_def sim_blkbits Let_def b(1,2) m p w)
qed

lemma ExtentAt_inline:
  assumes sim: "image_sim img im" "inode_sim img ino n" and ok: "image_ok img"
    and f: "fsize ino \<le> 2 ^ 62" "inodeLayout ino = LayoutFlatInline" and pos: "0 \<le> pos" "pos < fsize ino"
    and fit: "i64 (inodeStart img (inid ino) + flatDataOffset ino) mod 2 ^ blkbits img + (fsize ino - mp) \<le> 2 ^ blkbits img"
    and a: "inodeStart img (inid ino) = nid_addr img (inid ino)"
    and mp: "mp = (calculateBlocks (blkbits img) (fsize ino) - 1) * 2 ^ blkbits img"
  shows "\<exists>e. sp_ExtentAt im n pos = Inr e \<and> ex_Device e = 0 \<and> \<not> ex_Hole e \<and>
     (if pos < mp then ex_Logical e = 0 \<and> ex_Length e = mp \<and> ex_Physical e = i64 (uint (startBlock ino) * 2 ^ blkbits img)
      else ex_Logical e = mp \<and> ex_Length e = fsize ino - mp \<and>
           ex_Physical e = i64 (inodeStart img (inid ino) + flatDataOffset ino))"
proof -
  let ?B = "2 ^ blkbits img :: int"
  have k: "blkbits img \<le> 16" using ok by blast
  have sz: "0 < fsize ino" using pos by simp
  note b = blocks_eq [OF sz f(1) k] calculateBlocks_bounds(2) [of "blkbits img" "fsize ino"]
  have mpb: "0 \<le> mp" "mp < fsize ino" using b(4,5) by (simp_all add: mp)
  have w: "i64 mp = mp" "i64 (fsize ino) = fsize ino" "i64 (fsize ino - mp) = fsize ino - mp"
    by (rule i64_id_nonneg; use f(1) mpb in simp)+
  let ?pa = "i64 (inodeStart img (inid ino) + flatDataOffset ino)"
  have pm: "0 \<le> ?pa mod ?B" by simp
  have "i64 (?pa mod ?B + (fsize ino - mp)) = ?pa mod ?B + (fsize ino - mp)"
  proof (rule i64_id_nonneg)
    show "0 \<le> ?pa mod ?B + (fsize ino - mp)" using pm mpb by linarith
    have "?B \<le> 2 ^ 16" using k by (intro power_increasing) auto
    with fit show "?pa mod ?B + (fsize ino - mp) \<le> MaxInt64" by simp
  qed
  then show ?thesis
    using sim f pos fit a mpb
    by (auto simp: sp_ExtentAt_def sp_flatExtents_def inode_sim_def sim_blkbits nullAddress_def Let_def b(1,3)
        w mp [symmetric] flatDataOffset_def add.assoc min_def)
qed

section \<open>Blocks\<close>

lemma i64_mod_cong: "x mod 2 ^ 64 = y mod 2 ^ 64 \<Longrightarrow> i64 x = i64 y"
  unfolding i64_def by (drule mod_add_cong [OF _ refl, where b = "2 ^ 63"]) (simp only:)

lemma i64_mod: "i64 x mod 2 ^ 64 = x mod 2 ^ 64"
  unfolding i64_def by (simp only: mod_diff_left_eq add_diff_cancel_right')

lemma i64_add_left [simp]: "i64 (i64 x + y) = i64 (x + y)"
  by (rule i64_mod_cong, subst mod_add_left_eq [symmetric]) (simp only: i64_mod mod_add_left_eq)

lemma i64_add_right [simp]: "i64 (x + i64 y) = i64 (x + y)"
  by (rule i64_mod_cong, subst mod_add_right_eq [symmetric]) (simp only: i64_mod mod_add_right_eq)

lemma i64_diff_left [simp]: "i64 (i64 x - y) = i64 (x - y)"
  by (rule i64_mod_cong, subst mod_diff_left_eq [symmetric]) (simp only: i64_mod mod_diff_left_eq)

lemma i64_diff_right [simp]: "i64 (x - i64 y) = i64 (x - y)"
  by (rule i64_mod_cong, subst mod_diff_right_eq [symmetric]) (simp only: i64_mod mod_diff_right_eq)

lemma blockAddr_iff:
  assumes "blkbits img \<le> 16"
  shows "blockAddr img blk = Inr a \<longleftrightarrow> uint blk * 2 ^ blkbits img \<le> MaxInt64 \<and> a = uint blk * 2 ^ blkbits img"
  using chunkAddr_iff [OF assms, of blk a] by (simp add: blockAddr_def chunkAddr_def)

lemma uint_startBlock_add:
  assumes "0 \<le> q" and "q \<le> 2 ^ 62"
  shows "uint (startBlock ino + word_of_int q) = uint (startBlock ino) + q"
proof -
  have "uint (word_of_int q :: u64) = q" using assms by (simp add: unsigned_of_int take_bit_int_eq_self)
  then show ?thesis
    using startBlock_bound [of ino] assms
    by (subst uint_add_lem [THEN iffD1]) simp_all
qed

lemma block_div_bound:
  assumes "0 \<le> pos" and "pos < sz" and "sz \<le> (2 :: int) ^ 62"
  shows "0 \<le> pos div 2 ^ k" and "pos div 2 ^ k \<le> 2 ^ 62"
proof -
  show "0 \<le> pos div 2 ^ k" using assms by (simp add: pos_imp_zdiv_nonneg_iff)
  have "pos div 2 ^ k \<le> pos div 1" using assms by (intro zdiv_mono2) auto
  then have "pos div 2 ^ k \<le> pos" by simp
  then show "pos div 2 ^ k \<le> 2 ^ 62" using assms by linarith
qed

text \<open>A block of the primary device: the window the reader loads is at the place the reference's
  extent puts it.\<close>

lemma loadFlat_data:
  assumes sim: "image_sim img im" and ok: "image_ok img" and k: "k = blkbits img"
    and pos: "0 \<le> pos" "pos < sz" "sz \<le> 2 ^ 62"
    and b: "blockAddr img (startBlock ino + word_of_int (pos div 2 ^ k)) = Inr pa"
    and v: "viewed (loadFlat_in pool img pa (pos mod 2 ^ k) (pos mod 2 ^ k + n) True) = Inr (lo, hi, d)"
    and pool: "length pool = 2 ^ blkbits img"
  shows "sp_deviceBytes im 0 (i64 (i64 (uint (startBlock ino) * 2 ^ k) + pos)) n = Inr d"
proof -
  have k16: "blkbits img \<le> 16" using ok by blast
  obtain rd start e dev where r: "ra_read rd start (nat n) = (d, e)" "length d = nat n" "0 < n"
    "locateRange img (i64 (pa + pos mod 2 ^ k)) (int (nat n)) = Inr (dev, start)" "deviceReader img dev = Inr rd"
    using loadFlat_Inr [OF v pool] by auto
  have "pa = (uint (startBlock ino) + pos div 2 ^ k) * 2 ^ k"
    using b uint_startBlock_add [OF block_div_bound [OF pos], where ino = ino]
    by (simp add: blockAddr_iff [OF k16] k)
  then have "pa + pos mod 2 ^ k = uint (startBlock ino) * 2 ^ k + pos"
    using block_index(2) [OF pos(1,2), of k] by (simp add: algebra_simps)
  then have e: "i64 (pa + pos mod 2 ^ k) = i64 (i64 (uint (startBlock ino) * 2 ^ k) + pos)" by simp
  have "sp_deviceBytes im 0 (i64 (pa + pos mod 2 ^ k)) (int (nat n)) = Inr d"
    using locateRange_read [OF sim ok r(4,5,1,2)] r(3) by simp
  with r(3) e show ?thesis by simp
qed

lemma loadBlock_plain_refines:
  assumes sim: "image_sim img im" "inode_sim img ino n" and ok: "image_ok img"
    and f: "fsize ino \<le> 2 ^ 62" "inodeLayout ino = LayoutFlatPlain" and pos: "0 \<le> pos" "pos < fsize ino"
    and pool: "length pool = 2 ^ blkbits img"
    and v: "viewed (loadBlock_in pool img ino pos) = Inr (lo, hi, d)"
  shows "sp_ReadAt im n pos (int (length d)) = Inr d"
proof -
  let ?n = "block_len (blkbits img) (fsize ino) pos" and ?l = "pos mod 2 ^ blkbits img"
  obtain e where e: "sp_ExtentAt im n pos = Inr e" "ex_Logical e = 0" "ex_Length e = fsize ino"
    "ex_Device e = 0" "ex_Hole e = nullAddress ino"
    "\<not> nullAddress ino \<Longrightarrow> ex_Physical e = i64 (uint (startBlock ino) * 2 ^ blkbits img)"
    using ExtentAt_plain [OF sim ok f pos] by metis
  have len: "int (length d) = ?n" by (rule loadBlock_shape(4) [OF pos pool v])
  have n: "0 < ?n" "pos + ?n \<le> fsize ino"
    using block_len_pos [OF pos(2)] by (auto simp: block_len_def)
  have "if ex_Hole e then d = replicate (nat ?n) 0
      else sp_deviceBytes im (ex_Device e) (i64 (ex_Physical e + (pos - ex_Logical e))) ?n = Inr d"
  proof (cases "nullAddress ino")
    case True
    have "viewed (if bad_bounds ?l (?l + ?n) (2 ^ blkbits img) then Inl ErrCorrupt
        else Inr (holeBlock_in pool (nat ?l) (nat (?l + ?n)))) = Inr (lo, hi, d)"
      using v True by (simp only: loadBlock_plain [OF pos f(2)] Let_def if_True)
    from hole_Inr [OF this pool] True e(5) show ?thesis by simp
  next
    case False
    from v False obtain pa where
      "blockAddr img (startBlock ino + word_of_int (pos div 2 ^ blkbits img)) = Inr pa"
      "viewed (loadFlat_in pool img pa ?l (?l + ?n) True) = Inr (lo, hi, d)"
      by (auto simp: loadBlock_plain [OF pos f(2)] Let_def)
    from loadFlat_data [OF sim(1) ok refl pos f(1) this pool] e False show ?thesis by simp
  qed
  moreover have "i64 (fsize ino) = fsize ino" using f(1) pos by (intro i64_id_nonneg) auto
  ultimately show ?thesis
    using sim(2) pos(1) n e(1-3) unfolding len by (intro ReadAt_one) (auto simp: inode_sim_def)
qed

lemma inline_mod:
  assumes "0 \<le> pos" and "pos < sz" and "k = blkbits img"
  shows "pos div 2 ^ k = calculateBlocks k sz - 1 \<longleftrightarrow> \<not> pos < (calculateBlocks k sz - 1) * 2 ^ k"
proof -
  have "pos div 2 ^ k < calculateBlocks k sz" by (rule block_index [OF assms(1,2)])
  moreover have "pos < (calculateBlocks k sz - 1) * 2 ^ k \<longleftrightarrow> pos div 2 ^ k < calculateBlocks k sz - 1"
    using int_le_div_iff [of "2 ^ k" "calculateBlocks k sz - 1" pos] by (simp add: not_le [symmetric])
  ultimately show ?thesis by linarith
qed

text \<open>The tail of an inline file: the two ways of masking an address.\<close>

lemma mask_low: "x AND (2 ^ k - 1) = x mod (2 :: int) ^ k"
  by (metis take_bit_eq_mask take_bit_eq_mod mask_eq_exp_minus_1)

text \<open>Where the data, or the chunk map, of an inode starts behind it: with the inode in the first
  \<open>2^62\<close> bytes of the image nothing wraps.\<close>

definition near :: "image \<Rightarrow> inode \<Rightarrow> bool" where
  "near img ino \<longleftrightarrow> nid_addr img (inid ino) \<le> 2 ^ 62 \<and> fsize ino \<le> 2 ^ 62"

lemma data_addr:
  assumes ok: "image_ok img" "inode_ok img ino" and "near img ino"
  shows "i64 (inodeStart img (inid ino) + flatDataOffset ino) = nid_addr img (inid ino) + icsize ino + xsize ino"
    and "0 \<le> nid_addr img (inid ino) + icsize ino + xsize ino"
    and "nid_addr img (inid ino) + icsize ino + xsize ino \<le> 2 ^ 62 + 2 ^ 19"
proof -
  have c: "checkNid img (inid ino) = Inr ()" and x: "0 \<le> xsize ino" "xsize ino \<le> 262148"
    and i: "0 \<le> icsize ino" "icsize ino \<le> 64"
    using ok(2) by (auto simp: inode_ok_def)
  note s = inodeStart_eq [OF ok(1) c]
  show "0 \<le> nid_addr img (inid ino) + icsize ino + xsize ino" using s x i by linarith
  moreover show "nid_addr img (inid ino) + icsize ino + xsize ino \<le> 2 ^ 62 + 2 ^ 19"
    using x i assms(3) by (simp add: near_def)
  ultimately show "i64 (inodeStart img (inid ino) + flatDataOffset ino) = nid_addr img (inid ino) + icsize ino + xsize ino"
    by (subst i64_id_nonneg) (simp_all add: s(1) flatDataOffset_def)
qed

text \<open>The inline tail is metadata: the reader reads it from the image, never from an extra device.
  The reference has no such distinction, and the two agree where no device is mapped over it.\<close>

definition tail_unmapped :: "image \<Rightarrow> inode \<Rightarrow> bool" where
  "tail_unmapped img ino \<longleftrightarrow>
     find_dev (blkbits img) (devices img) (i64 (inodeStart img (inid ino) + flatDataOffset ino)) = None"

lemma find_dev_same_block:
  assumes "0 \<le> r" and "pa mod 2 ^ bits + r < 2 ^ bits"
  shows "find_dev bits devs (pa + r) = find_dev bits devs pa"
proof -
  have e: "pa = pa div 2 ^ bits * 2 ^ bits + pa mod 2 ^ bits" by (simp only: div_mult_mod_eq)
  have m: "0 \<le> pa mod 2 ^ bits" "pa mod 2 ^ bits < 2 ^ bits" by simp_all
  have "find_dev bits devs (pa + r) = find_dev bits devs (pa div 2 ^ bits * 2 ^ bits + (pa mod 2 ^ bits + r))"
    by (simp only: add.assoc [symmetric] div_mult_mod_eq)
  also have "\<dots> = find_dev bits devs (pa div 2 ^ bits * 2 ^ bits)"
    using assms m by (intro find_dev_aligned) auto
  also have "\<dots> = find_dev bits devs (pa div 2 ^ bits * 2 ^ bits + pa mod 2 ^ bits)"
    using m by (intro find_dev_aligned [symmetric]) auto
  finally show ?thesis by (simp only: div_mult_mod_eq)
qed

lemma loadBlock_inline_refines:
  assumes sim: "image_sim img im" "inode_sim img ino n" and ok: "image_ok img" "inode_ok img ino"
    and f: "near img ino" "inodeLayout ino = LayoutFlatInline" and pos: "0 \<le> pos" "pos < fsize ino"
    and pool: "length pool = 2 ^ blkbits img" and unm: "im_extra im = [] \<or> tail_unmapped img ino"
    and fit: "i64 (inodeStart img (inid ino) + flatDataOffset ino) mod 2 ^ blkbits img +
        (fsize ino - (calculateBlocks (blkbits img) (fsize ino) - 1) * 2 ^ blkbits img) \<le> 2 ^ blkbits img"
    and v: "viewed (loadBlock_in pool img ino pos) = Inr (lo, hi, d)"
  shows "sp_ReadAt im n pos (int (length d)) = Inr d"
proof -
  let ?k = "blkbits img" and ?n = "block_len (blkbits img) (fsize ino) pos" and ?l = "pos mod 2 ^ blkbits img"
  have f62: "fsize ino \<le> 2 ^ 62" using f(1) by (simp add: near_def)
  define mp where "mp = (calculateBlocks ?k (fsize ino) - 1) * 2 ^ ?k"
  define addr where "addr = i64 (inodeStart img (inid ino) + flatDataOffset ino)"
  have a: "inodeStart img (inid ino) = nid_addr img (inid ino)"
    using inodeStart_eq [OF ok(1)] ok(2) by (simp add: inode_ok_def)
  obtain e where e: "sp_ExtentAt im n pos = Inr e" "ex_Device e = 0" "\<not> ex_Hole e"
    "if pos < mp then ex_Logical e = 0 \<and> ex_Length e = mp \<and> ex_Physical e = i64 (uint (startBlock ino) * 2 ^ ?k)
      else ex_Logical e = mp \<and> ex_Length e = fsize ino - mp \<and> ex_Physical e = addr"
    using ExtentAt_inline [OF sim ok(1) f62 f(2) pos _ a mp_def] fit unfolding mp_def addr_def by metis
  have len: "int (length d) = ?n" by (rule loadBlock_shape(4) [OF pos pool v])
  have n: "0 < ?n" "pos + ?n \<le> fsize ino"
    using block_len_pos [OF pos(2)] by (auto simp: block_len_def)
  note da = data_addr [OF ok f(1)]
  have B: "(2 :: int) ^ ?k \<le> 2 ^ 16" using ok(1) by (intro power_increasing) auto
  have q: "pos = pos div 2 ^ ?k * 2 ^ ?k + ?l" by (simp only: div_mult_mod_eq)
  note im = inline_mod [OF pos refl, of img, folded mp_def]
  have "(pos + ?n \<le> ex_Logical e + ex_Length e) \<and>
    sp_deviceBytes im (ex_Device e) (i64 (ex_Physical e + (pos - ex_Logical e))) ?n = Inr d"
  proof (cases "pos < mp")
    case True
    then have nl: "pos div 2 ^ ?k \<noteq> calculateBlocks ?k (fsize ino) - 1" using im by blast
    from v obtain pa where p:
      "blockAddr img (startBlock ino + word_of_int (pos div 2 ^ ?k)) = Inr pa"
      "viewed (loadFlat_in pool img pa ?l (?l + ?n) True) = Inr (lo, hi, d)"
      by (auto simp: loadBlock_inline_head [OF pos f(2) nl] Let_def)
    have "pos div 2 ^ ?k + 1 \<le> calculateBlocks ?k (fsize ino) - 1"
      using nl block_index(1) [OF pos, of ?k] by linarith
    then have "(pos div 2 ^ ?k + 1) * 2 ^ ?k \<le> mp" unfolding mp_def by (rule mult_right_mono) simp
    then have "pos div 2 ^ ?k * 2 ^ ?k + 2 ^ ?k \<le> mp" by (simp add: distrib_right)
    moreover have "?n \<le> 2 ^ ?k - ?l" by (simp add: block_len_def)
    ultimately have "pos + ?n \<le> mp" using q by linarith
    with loadFlat_data [OF sim(1) ok(1) refl pos f62 p pool] e True show ?thesis by simp
  next
    case False
    then have last: "pos div 2 ^ ?k = calculateBlocks ?k (fsize ino) - 1" using im by blast
    have l: "?n = fsize ino - pos" by (rule block_len_last [OF pos last])
    have pm: "pos = mp + ?l" using q last by (simp add: mp_def)
    let ?lo = "addr mod 2 ^ ?k + ?l"
    have "viewed (loadFlat_in pool img (addr - addr mod 2 ^ ?k) ?lo (?lo + ?n) False) = Inr (lo, hi, d)"
      using v by (auto simp: loadBlock_inline_tail [OF pos f(2) last] Let_def mask_low and_not_mask_int addr_def
          split: if_splits)
    from loadFlat_Inr [OF this pool] obtain e' where r: "ra_read (meta img) (i64 (addr + ?l)) (nat ?n) = (d, e')"
      "length d = nat ?n" "?lo + ?n \<le> 2 ^ ?k" "checkImageRange img (i64 (addr + ?l)) ?n = Inr ()"
      by (auto simp: algebra_simps)
    have "sp_bytesAt im (i64 (addr + ?l)) (int (nat ?n)) = Inr d"
      using device_read [OF sim(1) _ r(1,2), of 0] n by (simp add: deviceReader_def)
    moreover have "sp_unifiedDevice im (i64 (addr + ?l)) = None"
    proof -
      have "?l < 2 ^ ?k" "0 \<le> ?l" by simp_all
      with B have "?l < 2 ^ 16" "0 \<le> ?l" by linarith+
      then have "i64 (addr + ?l) = addr + ?l" using da by (intro i64_id_nonneg) (auto simp: addr_def)
      moreover have "find_dev ?k (devices img) (addr + ?l) = find_dev ?k (devices img) addr"
        using r(3) n by (intro find_dev_same_block) auto
      ultimately show ?thesis
        using unm by (auto simp: sim_unified [OF sim(1) ok(1)] tail_unmapped_def addr_def)
    qed
    moreover have "pos - mp = ?l" using pm by linarith
    ultimately show ?thesis using e False n l by (simp add: sp_deviceBytes_def)
  qed
  moreover have "i64 (ex_Logical e + ex_Length e) = ex_Logical e + ex_Length e"
  proof (rule i64_id_nonneg)
    have "0 \<le> mp" "mp < fsize ino" 
      using blocks_eq(4) [of "fsize ino" ?k] calculateBlocks_bounds(2) [of ?k "fsize ino"] pos f62 ok(1)
      by (auto simp: mp_def)
    with e(4) f62 show "0 \<le> ex_Logical e + ex_Length e" "ex_Logical e + ex_Length e \<le> MaxInt64"
      by (auto split: if_splits)
  qed
  ultimately show ?thesis
    using sim(2) pos(1) n e(1,3) unfolding len by (intro ReadAt_one) (auto simp: inode_sim_def)
qed

subsection \<open>Chunks\<close>

lemma roundUp_eq:
  assumes "0 \<le> v" and "v \<le> 2 ^ 63 - 16" and "0 < t" and "t \<le> 8"
  shows "sp_roundUp v t = round_up v t"
proof -
  have w: "i64 (v + t - 1) = v + t - 1" using assms by (intro i64_id_nonneg) auto
  have nn: "(v + t - 1 < 0) = False" using assms by auto
  have e: "(v + t - 1) div t * t = round_up v t" by (simp add: round_up_def minus_mod_eq_div_mult)
  have "0 \<le> round_up v t" "round_up v t \<le> MaxInt64" 
    using round_up_props(1,2) [OF assms(3), of v] assms by auto
  then show ?thesis unfolding sp_roundUp_def go_div_def w nn if_False e by (rule i64_id_nonneg)
qed

lemma chunkMapBase_eq:
  assumes ok: "image_ok img" "inode_ok img ino" and "near img ino"
  shows "chunkMapBase img ino = sp_roundUp (i64 (nid_addr img (inid ino) + icsize ino + xsize ino)) (chunkUnit ino)"
proof -
  define b where "b = nid_addr img (inid ino) + icsize ino + xsize ino"
  note d = data_addr [OF assms, folded b_def]
  have w: "i64 b = b" using d by (intro i64_id_nonneg) auto
  have u: "chunkUnit ino = 8 \<or> chunkUnit ino = 4" by (simp add: chunkUnit_def)
  have m4: "b mod 4 = 0"
  proof -
    have k: "(4 :: int) dvd 2 ^ blkbits img"
    proof -
      have "2 \<le> blkbits img" using ok(1) by (auto simp: image_ok_def)
      then have "(2 :: int) ^ 2 dvd 2 ^ blkbits img" by (rule le_imp_power_dvd)
      then show ?thesis by simp
    qed
    have "4 dvd xsize ino" "4 dvd icsize ino" using ok(2) by (auto simp: inode_ok_def)
    moreover have "(4 :: int) dvd 32" by simp
    ultimately have "4 dvd b" using k unfolding b_def nid_addr_def by (intro dvd_add dvd_mult)
    then show ?thesis by simp
  qed
  have r: "sp_roundUp b (chunkUnit ino) = round_up b (chunkUnit ino)"
    using u d by (intro roundUp_eq) auto
  have "i64 (b + 7) = b + 7" using d by (intro i64_id_nonneg) auto
  then have "i64 (b + 7) AND NOT 7 = round_up b 8"
    using and_not_mask_int [of "b + 7" 3] by (simp add: round_up_def add.commute)
  with u m4 show ?thesis
    by (auto simp: chunkMapBase_def Let_def d(1) b_def [symmetric] w r round_up_props(4))
qed

lemma low32:
  "(ucast (lo :: u32) :: u64) AND (push_bit 32 1 - 1) = ucast lo"
  "(push_bit 32 (ucast (h :: u16)) OR ucast lo :: u64) AND (push_bit 32 1 - 1) = ucast lo"
  "(ucast lo :: u64) = push_bit 32 1 - 1 \<longleftrightarrow> NOT lo = 0"
proof -
  have m: "(push_bit 32 1 - 1 :: u64) = mask 32" by (simp add: mask_eq_exp_minus_1)
  show "(ucast (lo :: u32) :: u64) AND (push_bit 32 1 - 1) = ucast lo"
    unfolding m by (rule bit_word_eqI) (auto simp: bit_simps dest: bit_imp_le_length)
  show "(push_bit 32 (ucast (h :: u16)) OR ucast lo :: u64) AND (push_bit 32 1 - 1) = ucast lo"
    unfolding m by (rule bit_word_eqI) (auto simp: bit_simps dest: bit_imp_le_length)
  have "NOT lo = 0 \<longleftrightarrow> lo = -1" by (metis bit.double_compl bit.compl_zero)
  also have "\<dots> \<longleftrightarrow> uint lo = uint (-1 :: u32)" by (rule word_uint_eq_iff)
  also have "uint (-1 :: u32) = uint (push_bit 32 1 - 1 :: u64)"
    by (simp add: unsigned_minus_1_eq_mask mask_eq_exp_minus_1)
  also have "uint lo = uint (push_bit 32 1 - 1 :: u64) \<longleftrightarrow> (ucast lo :: u64) = push_bit 32 1 - 1"
    by (simp only: word_uint_eq_iff uint_ucast_u32_u64)
  finally show "(ucast lo :: u64) = push_bit 32 1 - 1 \<longleftrightarrow> NOT lo = 0" by blast
qed

lemma entry_bytes:
  assumes "length b = nat (chunkUnit ino)"
  shows "le32 (read_into 8 b) (if chunkUnit ino = 8 then 4 else 0) = le32 b (if chunkUnit ino = 8 then 4 else 0)"
    and "chunkUnit ino = 8 \<Longrightarrow> le16 (read_into 8 b) 2 = le16 b 2"
  using assms
  by (auto simp: chunkUnit_def read_into_def put_at_eq le32_def window_def split: if_splits)

text \<open>The extent of a chunk, from the bytes of its map entry.\<close>

definition entry_lo :: "inode \<Rightarrow> bytes \<Rightarrow> u32" where
  "entry_lo ino b = le32 b (if chunkUnit ino = 8 then 4 else 0)"

definition entry_dev :: "image \<Rightarrow> inode \<Rightarrow> bytes \<Rightarrow> u16" where
  "entry_dev img ino b = (if chunkUnit ino = 8 then le16 b 2 AND deviceIDMask img else 0)"

lemma chunkExtent_entry:
  assumes sim: "image_sim img im" "inode_sim img ino n" and ok: "image_ok img" "inode_ok img ino"
    and nr: "near img ino" and fmt: "chunkFormat ino AND 0x40 = 0"
    and l: "inodeLayout ino = LayoutChunkBased"
    and sb: "sp_bytesAt im (i64 (chunkMapBase img ino + i64 (cn * chunkUnit ino))) (chunkUnit ino) = Inr b"
  shows "sp_chunkExtent im n cn =
     (let logical = i64 (cn * 2 ^ chunkBits img ino);
          len = min (2 ^ chunkBits img ino) (i64 (fsize ino - i64 (cn * 2 ^ chunkBits img ino)))
      in if NOT (entry_lo ino b) = 0
         then Inr \<lparr> ex_Logical = logical, ex_Length = len, ex_Device = 0, ex_Physical = 0, ex_Hole = True \<rparr>
         else Inr \<lparr> ex_Logical = logical, ex_Length = len, ex_Device = entry_dev img ino b,
                    ex_Physical = uint (entry_lo ino b) * 2 ^ blkbits img, ex_Hole = False \<rparr>)"
proof -
  let ?u = "chunkUnit ino"
  define p where "p = i64 (chunkMapBase img ino + i64 (cn * ?u))"
  note sb = sb [folded p_def]
  have k: "blkbits img \<le> 16" using ok by blast
  have u: "sp_chunkUnit n = ?u" using sim(2) by (simp add: inode_sim_def sp_chunkUnit_def chunkUnit_def)
  define lo where "lo = entry_lo ino b"
  have ph: "i64 (uint lo * 2 ^ blkbits img) = uint lo * 2 ^ blkbits img"
    using shl64_u32 [OF k, of lo] by (simp add: shl64_def push_bit_eq_mult)
  have c: "shl64 1 (sn_ChunkBits n) = 2 ^ chunkBits img ino"
    using sim(2) l chunkBits_bounds [OF k, of ino] by (simp add: inode_sim_def shl64_one)
  have p: "i64 (sp_roundUp (i64 (sn_loc n + sn_isize n + sn_XattrSize n)) ?u + i64 (cn * ?u)) = p"
    using sim(2) by (simp add: chunkMapBase_eq [OF ok nr] inode_sim_def p_def)
  have f: "sn_ChunkFormat n AND 0x40 = 0" "sn_Size n = fsize ino" using sim(2) fmt by (simp_all add: inode_sim_def)
  have addr: "(if ?u = 4 then ucast (le32 b 0) else push_bit 32 (ucast (le16 b 0)) OR ucast (le32 b 4))
      AND (push_bit 32 1 - 1) = (ucast lo :: u64)"
    unfolding lo_def entry_lo_def chunkUnit_def by (simp add: low32(1,2) del: push_bit_of_1)
  have dv: "(if ?u = 4 then 0 else le16 b 2 AND su_DeviceIDMask (im_Super im)) = entry_dev img ino b"
    using sim(1) by (simp add: entry_dev_def chunkUnit_def image_sim_def)
  have if_simp: "(if (0 :: u16) \<noteq> 0 then A else B) = B" for A B :: u64 by simp
  show ?thesis
    unfolding sp_chunkExtent_def Let_def u c p f sim_blkbits [OF sim(1)] if_simp sb bindE_simps addr dv low32(3) lo_def [symmetric]
    by (simp add: ph)
qed

lemma chunk_entry:
  assumes sim: "image_sim img im" "inode_sim img ino n" and ok: "image_ok img" "inode_ok img ino"
    and nr: "near img ino" and fmt: "chunkFormat ino AND 0x40 = 0"
    and l: "inodeLayout ino = LayoutChunkBased"
    and e: "loadChunkEntry img ino (i64 (chunkMapBase img ino + i64 (cn * chunkUnit ino))) = Inr entry"
  shows "\<exists>x. sp_chunkExtent im n cn = Inr x \<and> ex_Logical x = i64 (cn * 2 ^ chunkBits img ino) \<and>
    ex_Length x = min (2 ^ chunkBits img ino) (i64 (fsize ino - i64 (cn * 2 ^ chunkBits img ino))) \<and>
    (case entry of None \<Rightarrow> ex_Hole x
     | Some (a, did) \<Rightarrow> \<not> ex_Hole x \<and> ex_Device x = did \<and>
         (\<exists>q. 0 \<le> q \<and> q < 2 ^ 32 \<and> a = q * 2 ^ blkbits img \<and> ex_Physical x = a))"
proof -
  let ?u = "chunkUnit ino"
  define p where "p = i64 (chunkMapBase img ino + i64 (cn * ?u))"
  note e = e [folded p_def]
  have k: "blkbits img \<le> 16" using ok by blast
  have u0: "0 < ?u" by (simp add: chunkUnit_def)
  obtain b where r: "ra_read (meta img) p (nat ?u) = (b, None)" and len: "length b = nat ?u"
    using e by (auto simp: loadChunkEntry_def Let_def split: prod.splits option.splits if_splits)
  have sb: "sp_bytesAt im p ?u = Inr b"
    using read_sliceAt [OF _ r len] u0 sim(1) by (simp add: image_sim_def sp_bytesAt_def)
  note x = chunkExtent_entry [OF sim ok nr fmt l sb [unfolded p_def]]
  have en: "(if NOT (entry_lo ino b) = 0 then Inr None
      else bindE (chunkAddr img (ucast (entry_lo ino b))) (\<lambda>a. Inr (Some (a, entry_dev img ino b)))) = Inr entry"
    using e by (simp add: loadChunkEntry_def Let_def r len entry_bytes [OF len] entry_lo_def entry_dev_def cong: if_cong)
  show ?thesis
  proof (cases "NOT (entry_lo ino b) = 0")
    case True
    with en x show ?thesis by (simp add: Let_def)
  next
    case False
    with en obtain a where "chunkAddr img (ucast (entry_lo ino b)) = Inr a" "entry = Some (a, entry_dev img ino b)" by auto
    moreover from this(1) have "a = uint (entry_lo ino b) * 2 ^ blkbits img" by (simp add: chunkAddr_iff [OF k])
    ultimately show ?thesis
      using x False uint_lt_u32 [of "entry_lo ino b"] by (auto simp: Let_def)
  qed
qed

text \<open>The address of the block of a chunk: inside the chunk, on the device the entry names.\<close>

lemma chunk_block_addr:
  assumes k: "k \<le> c" "c \<le> 47" "k \<le> 16" and pos: "0 \<le> pos" "pos \<le> 2 ^ 62" and q: "0 \<le> q" "q < 2 ^ 32"
  defines "a \<equiv> q * 2 ^ k + (pos div 2 ^ k * 2 ^ k - pos div 2 ^ c * 2 ^ c)"
  shows "(if shl64 (pos div 2 ^ k) k > 0
          then i64 (q * 2 ^ k + (shl64 (pos div 2 ^ k) k - shl64 (pos div 2 ^ c) c)) else q * 2 ^ k) = a"
    and "a = (q + (pos div 2 ^ k - pos div 2 ^ c * 2 ^ (c - k))) * 2 ^ k"
    and "0 \<le> q + (pos div 2 ^ k - pos div 2 ^ c * 2 ^ (c - k))" and "a \<le> 2 ^ 60"
    and "a + pos mod 2 ^ k = q * 2 ^ k + (pos - pos div 2 ^ c * 2 ^ c)"
    and "i64 (pos div 2 ^ c * 2 ^ c) = pos div 2 ^ c * 2 ^ c"
    and "pos div 2 ^ k * 2 ^ k + 2 ^ k \<le> pos div 2 ^ c * 2 ^ c + 2 ^ c"
    and "i64 (a + pos mod 2 ^ k) = a + pos mod 2 ^ k"
proof -
  have pw: "(2 :: int) ^ c = 2 ^ (c - k) * 2 ^ k" using k by (simp add: power_add [symmetric])
  have qm: "q * 2 ^ k \<le> (2 ^ 32 - 1) * 2 ^ 16" by (rule mult_pow16) (use q k in auto)
  have ek: "pos = pos div 2 ^ k * 2 ^ k + pos mod 2 ^ k" and ec: "pos = pos div 2 ^ c * 2 ^ c + pos mod 2 ^ c"
    by (simp_all only: div_mult_mod_eq)
  have mk: "0 \<le> pos mod 2 ^ k" "pos mod 2 ^ k < 2 ^ k" and mc: "0 \<le> pos mod 2 ^ c" "pos mod 2 ^ c < 2 ^ c" by simp_all
  have bk: "0 \<le> pos div 2 ^ k * 2 ^ k" and bc: "0 \<le> pos div 2 ^ c * 2 ^ c"
    using pos by (simp_all add: pos_imp_zdiv_nonneg_iff)
  have lk: "pos div 2 ^ k * 2 ^ k \<le> 2 ^ 62" and lc: "pos div 2 ^ c * 2 ^ c \<le> 2 ^ 62"
    using pos(2) ek ec mk mc by linarith+
  have "pos div 2 ^ c * 2 ^ (c - k) \<le> pos div 2 ^ k"
  proof -
    have "pos div 2 ^ c * 2 ^ c \<le> pos" using ec mc by linarith
    then have "pos div 2 ^ c * 2 ^ (c - k) * 2 ^ k \<le> pos" by (simp only: mult.assoc pw [symmetric])
    then show ?thesis by (simp add: int_le_div_iff)
  qed
  then show nn: "0 \<le> q + (pos div 2 ^ k - pos div 2 ^ c * 2 ^ (c - k))" using q by linarith
  show e: "a = (q + (pos div 2 ^ k - pos div 2 ^ c * 2 ^ (c - k))) * 2 ^ k"
    unfolding a_def pw by (simp add: algebra_simps)
  have "pos div 2 ^ k * 2 ^ k - pos div 2 ^ c * 2 ^ c < 2 ^ c" using ek ec mk mc by linarith
  moreover have "(2 :: int) ^ c \<le> 2 ^ 47" using k by (intro power_increasing) auto
  ultimately show a60: "a \<le> 2 ^ 60" unfolding a_def using qm by simp
  have a0: "0 \<le> a" unfolding e using nn by simp
  show wc: "i64 (pos div 2 ^ c * 2 ^ c) = pos div 2 ^ c * 2 ^ c" using bc lc by (intro i64_id_nonneg) auto
  have wk: "i64 (pos div 2 ^ k * 2 ^ k) = pos div 2 ^ k * 2 ^ k" using bk lk by (intro i64_id_nonneg) auto
  have ia: "i64 a = a" using a0 a60 by (intro i64_id_nonneg) auto
  show "(if shl64 (pos div 2 ^ k) k > 0
          then i64 (q * 2 ^ k + (shl64 (pos div 2 ^ k) k - shl64 (pos div 2 ^ c) c)) else q * 2 ^ k) = a"
  proof (cases "0 < pos div 2 ^ k * 2 ^ k")
    case True
    then show ?thesis using ia by (simp add: shl64_def push_bit_eq_mult wk wc a_def)
  next
    case False
    then have "pos div 2 ^ k = 0" using bk by (simp add: not_less)
    moreover from this \<open>pos div 2 ^ c * 2 ^ (c - k) \<le> pos div 2 ^ k\<close> bc have "pos div 2 ^ c = 0"
      by (simp add: mult_le_0_iff zero_le_mult_iff)
    ultimately show ?thesis by (simp add: shl64_def push_bit_eq_mult a_def i64_id_nonneg)
  qed
  show "a + pos mod 2 ^ k = q * 2 ^ k + (pos - pos div 2 ^ c * 2 ^ c)"
    unfolding a_def using ek by linarith
  have "pos < pos div 2 ^ c * 2 ^ c + 2 ^ c" using ec mc by linarith
  then have "pos < (pos div 2 ^ c + 1) * 2 ^ (c - k) * 2 ^ k"
    by (simp add: mult.assoc pw [symmetric] distrib_right)
  then have "pos div 2 ^ k + 1 \<le> (pos div 2 ^ c + 1) * 2 ^ (c - k)"
    using int_le_div_iff [of "2 ^ k" "(pos div 2 ^ c + 1) * 2 ^ (c - k)" pos] by simp
  then have "(pos div 2 ^ k + 1) * 2 ^ k \<le> (pos div 2 ^ c + 1) * 2 ^ (c - k) * 2 ^ k"
    by (rule mult_right_mono) simp
  then show "pos div 2 ^ k * 2 ^ k + 2 ^ k \<le> pos div 2 ^ c * 2 ^ c + 2 ^ c"
    unfolding pw by (simp add: algebra_simps)
  have "(2 :: int) ^ k \<le> 2 ^ 16" using k by (intro power_increasing) auto
  then have "pos mod 2 ^ k < 2 ^ 16" using mk by linarith
  with a60 have "a + pos mod 2 ^ k \<le> MaxInt64" by simp
  with a0 mk show "i64 (a + pos mod 2 ^ k) = a + pos mod 2 ^ k" by (intro i64_id_nonneg) linarith+
qed

lemma loadBlock_chunk_refines:
  assumes sim: "image_sim img im" "inode_sim img ino n" and ok: "image_ok img" "inode_ok img ino"
    and f: "near img ino" "inodeLayout ino = LayoutChunkBased" and pos: "0 \<le> pos" "pos < fsize ino"
    and pool: "length pool = 2 ^ blkbits img"
    and v: "viewed (loadBlock_in pool img ino pos) = Inr (lo, hi, d)"
  shows "sp_ReadAt im n pos (int (length d)) = Inr d"
proof -
  let ?k = "blkbits img" and ?c = "chunkBits img ino" and ?n = "block_len (blkbits img) (fsize ino) pos"
  let ?l = "pos mod 2 ^ ?k" and ?cn = "pos div 2 ^ chunkBits img ino"
  have f62: "fsize ino \<le> 2 ^ 62" using f(1) by (simp add: near_def)
  have k: "?k \<le> ?c" "?c \<le> 47" "?k \<le> 16" using chunkBits_bounds [of img ino] ok(1) by blast+
  have len: "int (length d) = ?n" by (rule loadBlock_shape(4) [OF pos pool v])
  have n: "0 < ?n" "pos + ?n \<le> fsize ino" "?n \<le> 2 ^ ?k - ?l"
    using block_len_pos [OF pos(2)] by (auto simp: block_len_def)
  obtain entry where fmt: "chunkFormat ino AND 0x40 = 0"
    and en: "loadChunkEntry img ino (i64 (chunkMapBase img ino + i64 (?cn * chunkUnit ino))) = Inr entry"
    and vb: "viewed (chunkBlock_in pool img ?c ?cn (pos div 2 ^ ?k) ?l (?l + ?n) entry) = Inr (lo, hi, d)"
    using v unfolding loadBlock_chunk [OF pos f(2)] Let_def by (auto split: if_splits)
  obtain x where x: "sp_chunkExtent im n ?cn = Inr x" "ex_Logical x = i64 (?cn * 2 ^ ?c)"
    "ex_Length x = min (2 ^ ?c) (i64 (fsize ino - i64 (?cn * 2 ^ ?c)))"
    and xe: "case entry of None \<Rightarrow> ex_Hole x
     | Some (a, did) \<Rightarrow> \<not> ex_Hole x \<and> ex_Device x = did \<and>
         (\<exists>q. 0 \<le> q \<and> q < 2 ^ 32 \<and> a = q * 2 ^ ?k \<and> ex_Physical x = a)"
    using chunk_entry [OF sim ok f(1) fmt f(2) en] by blast
  have p62: "pos \<le> 2 ^ 62" using pos f62 by linarith
  note w = chunk_block_addr(6) [OF k pos(1) p62, of 0, simplified]
  have b0: "0 \<le> ?cn * 2 ^ ?c" using pos(1) by (simp add: pos_imp_zdiv_nonneg_iff)
  have "pos = pos div 2 ^ ?k * 2 ^ ?k + ?l" by (simp only: div_mult_mod_eq)
  with chunk_block_addr(7) [OF k pos(1) p62, of 0] n(3) have bnd: "pos + ?n \<le> ?cn * 2 ^ ?c + 2 ^ ?c" by auto
  have "?cn * 2 ^ ?c \<le> pos" by (metis div_mult_mod_eq le_add_same_cancel1 pos_mod_sign zero_less_power zero_less_numeral)
  then have lf: "i64 (fsize ino - ?cn * 2 ^ ?c) = fsize ino - ?cn * 2 ^ ?c"
    using pos f62 b0 by (intro i64_id_nonneg) auto
  have "sp_ExtentAt im n pos = Inr x"
    using sim(2) x(1) pos f(2) k by (simp add: sp_ExtentAt_def inode_sim_def go_div_def shl64_one)
  moreover have "i64 (ex_Logical x + ex_Length x) = ex_Logical x + ex_Length x"
    using x(2,3) w lf b0 f62 pos by (intro i64_id_nonneg) (auto simp: min_def)
  moreover have "pos + ?n \<le> ex_Logical x + ex_Length x"
    using x(2,3) w lf bnd n(2) by (simp add: min_def)
  moreover have "if ex_Hole x then d = replicate (nat ?n) 0
      else sp_deviceBytes im (ex_Device x) (i64 (ex_Physical x + (pos - ex_Logical x))) ?n = Inr d"
  proof (cases entry)
    case None
    with xe chunkBlock_Inr [OF vb pool] show ?thesis by simp
  next
    case (Some p)
    obtain a did where p: "p = (a, did)" by (cases p)
    obtain q where q: "0 \<le> q" "q < 2 ^ 32" "a = q * 2 ^ ?k" "ex_Physical x = a" "\<not> ex_Hole x" "ex_Device x = did"
      using xe Some p by auto
    note c = chunk_block_addr [OF k pos(1) p62 q(1,2)]
    define b where "b = q * 2 ^ ?k + (pos div 2 ^ ?k * 2 ^ ?k - ?cn * 2 ^ ?c)"
    note c = c [folded b_def]
    obtain dev off rd e where r: "locate img did b = Inr (dev, off)" "deviceReader img dev = Inr rd"
      "ra_read rd (i64 (off + ?l)) (nat ?n) = (d, e)" "length d = nat ?n"
      using chunkBlock_Inr [OF vb pool] Some p c(1) q(3) by (auto simp: Let_def)
    have "sp_deviceBytes im did ((q + (pos div 2 ^ ?k - ?cn * 2 ^ (?c - ?k))) * 2 ^ ?k + ?l) (int (nat ?n)) = Inr d"
      using locate_read [OF sim(1) ok(1) r(1)[unfolded c(2)] r(2) _ _ c(3) _ r(3,4)] c(2,4) n(1) by simp
    then show ?thesis
      using q n c(2,5,8) x(2) w by (simp add: add.assoc)
  qed
  ultimately show ?thesis
    using sim(2) pos(1) n unfolding len by (intro ReadAt_one) (auto simp: inode_sim_def)
qed

text \<open>A block the reader serves is what the reference reads at its position.\<close>

definition inline_fits :: "image \<Rightarrow> inode \<Rightarrow> bool" where
  "inline_fits img ino \<longleftrightarrow>
     i64 (inodeStart img (inid ino) + flatDataOffset ino) mod 2 ^ blkbits img +
       (fsize ino - (calculateBlocks (blkbits img) (fsize ino) - 1) * 2 ^ blkbits img) \<le> 2 ^ blkbits img"

lemma loadBlock_refines:
  assumes sim: "image_sim img im" "inode_sim img ino n" and ok: "image_ok img" "inode_ok img ino"
    and nr: "near img ino" and pos: "0 \<le> pos" "pos < fsize ino"
    and inl: "inodeLayout ino = LayoutFlatInline \<Longrightarrow> inline_fits img ino \<and> (im_extra im = [] \<or> tail_unmapped img ino)"
    and pool: "length pool = 2 ^ blkbits img"
    and v: "viewed (loadBlock_in pool img ino pos) = Inr (lo, hi, d)"
  shows "sp_ReadAt im n pos (int (length d)) = Inr d"
proof -
  have f62: "fsize ino \<le> 2 ^ 62" using nr by (simp add: near_def)
  consider "inodeLayout ino = LayoutFlatPlain" | "inodeLayout ino = LayoutFlatInline" | "inodeLayout ino = LayoutChunkBased"
    using ok(2) by (auto simp: inode_ok_def)
  then show ?thesis
  proof cases
    case 1
    show ?thesis by (rule loadBlock_plain_refines [OF sim ok(1) f62 1 pos pool v])
  next
    case 2
    with inl have i: "inline_fits img ino" "im_extra im = [] \<or> tail_unmapped img ino" by auto
    show ?thesis by (rule loadBlock_inline_refines [OF sim ok nr 2 pos pool i(2) i(1) [unfolded inline_fits_def] v])
  next
    case 3
    show ?thesis by (rule loadBlock_chunk_refines [OF sim ok nr 3 pos pool v])
  qed
qed

end
