(* ===== verification/Refine_Read.thy ===== *)
theory Refine_Read
  imports Refine
begin

text \<open>
  Reading a file against the reference reader. On an image without a device mapped into the
  primary address space the reference's answer is a function of the position, so the pieces
  the reader puts together, block by block or from one section of a device, add up to what
  the reference reads. The last lemmas carry this through \<open>Read\<close>, \<open>ReadFull\<close> and \<open>readAll\<close>.
\<close>

section \<open>The reference, byte by byte\<close>

text \<open>With one blob for the image, or with no device mapped into the primary address space, a
  read never changes device on its way: the reference's answer for a range is its answer for
  the bytes of the range. The sizes of the blobs are those of Go slices.\<close>

definition flat_image :: "SpImage \<Rightarrow> bool" where
  "flat_image im \<longleftrightarrow>
     (im_extra im = [] \<or> (\<forall>d \<in> set (im_Devices im). sd_UniAddr d = 0)) \<and>
     int (length (im_data im)) \<le> 2 ^ 62 \<and> (\<forall>x \<in> set (im_extra im). int (length x) \<le> 2 ^ 62)"

definition src_of :: "SpImage \<Rightarrow> u16 \<Rightarrow> (bytes \<times> int) option" where
  "src_of im dev =
     (let i = unat dev - 1; d = im_Devices im ! i in
      if dev = 0 then Some (im_data im, 0)
      else if i \<ge> length (im_Devices im) then None
      else if im_extra im = [] then Some (im_data im, i64 (sint (sd_UniAddr d) * su_BlockSize (im_Super im)))
      else if i \<ge> length (im_extra im) then None
      else Some (im_extra im ! i, 0))"

lemma i64_idem [simp]: "i64 (i64 x) = i64 x"
  using i64_range [of x] by (intro i64_id) auto

lemma unified_none:
  assumes "flat_image im"
  shows "sp_unifiedDevice im off = None"
proof (cases "im_extra im = []")
  case False
  have "\<forall>d \<in> set ds. sd_UniAddr d = 0 \<Longrightarrow> sp_unified_from bsz i ds off = None" for bsz i ds
    by (induction ds arbitrary: i) auto
  with False assms show ?thesis by (simp add: sp_unifiedDevice_def flat_image_def)
qed (simp add: sp_unifiedDevice_def)

lemma deviceBytes_src:
  assumes "flat_image im"
  shows "sp_deviceBytes im dev (i64 p) n = Inr b \<longleftrightarrow>
    (\<exists>data base. src_of im dev = Some (data, base) \<and> sp_sliceAt data (i64 (p + base)) n = Inr b)"
  using unified_none [OF assms]
  by (auto simp: sp_deviceBytes_def src_of_def sp_bytesAt_def sp_extraBytes_def Let_def split: if_splits)

lemma src_small:
  assumes "flat_image im" and "src_of im dev = Some (data, base)"
  shows "int (length data) \<le> 2 ^ 62"
  using assms by (auto simp: flat_image_def src_of_def Let_def split: if_splits)

lemma slice_bytes:
  assumes len: "int (length data) \<le> 2 ^ 62" and n: "0 < n"
  shows "sp_sliceAt data (i64 p) (int n) = Inr b \<longleftrightarrow>
    length b = n \<and> (\<forall>i < n. sp_sliceAt data (i64 (p + int i)) 1 = Inr [b ! i])"
proof -
  define s where "s = i64 p"
  have one: "sp_sliceAt data x 1 = Inr [y] \<longleftrightarrow> 0 \<le> x \<and> x < int (length data) \<and> data ! nat x = y" for x y
    by (auto simp: sp_sliceAt_def window_def take_Suc_conv_app_nth hd_drop_conv_nth take_Suc split: if_splits)
  have e: "i64 (p + int i) = i64 (s + int i)" for i by (simp add: s_def)
  show ?thesis
  proof
    assume a: "sp_sliceAt data (i64 p) (int n) = Inr b"
    then have s: "0 \<le> s" "s + int n \<le> int (length data)" and b: "b = window data (nat s) n"
      by (auto simp: sp_sliceAt_def s_def split: if_splits)
    have "i64 (s + int i) = s + int i" if "i < n" for i using that s len by (intro i64_id_nonneg) auto
    moreover have "b ! i = data ! nat (s + int i)" if "i < n" for i
      using that s b by (simp add: window_def nat_add_distrib)
    ultimately show "length b = n \<and> (\<forall>i < n. sp_sliceAt data (i64 (p + int i)) 1 = Inr [b ! i])"
      unfolding e one using s b by (auto simp: window_def)
  next
    assume a: "length b = n \<and> (\<forall>i < n. sp_sliceAt data (i64 (p + int i)) 1 = Inr [b ! i])"
    then have x: "0 \<le> i64 (s + int i)" "i64 (s + int i) < int (length data)" "data ! nat (i64 (s + int i)) = b ! i" if "i < n" for i
      using that unfolding e one by auto
    have s0: "0 \<le> s" "s < int (length data)" using x(1,2) [of 0] n by (simp_all add: s_def)
    have ex: "i64 (s + int i) = s + int i" if "i < n" for i
      using that
    proof (induction i)
      case 0
      then show ?case using s0 len by (intro i64_id_nonneg) auto
    next
      case (Suc i)
      then have "s + int i < int (length data)" using x(2) [of i] by simp
      then show ?case using s0 len by (intro i64_id_nonneg) auto
    qed
    have last: "s + int (n - 1) < int (length data)" using x(2) [of "n - 1"] ex [of "n - 1"] n by simp
    have "window data (nat s) n = b"
    proof (rule nth_equalityI)
      show "length (window data (nat s) n) = length b" using a last s0 n by (simp add: window_def)
      fix i assume "i < length (window data (nat s) n)"
      then have "i < n" by (simp add: window_def)
      with x(3) [of i] ex [of i] s0 show "window data (nat s) n ! i = b ! i"
        by (simp add: window_def nat_add_distrib last)
    qed
    with s0 last n show "sp_sliceAt data (i64 p) (int n) = Inr b"
      by (auto simp: sp_sliceAt_def s_def)
  qed
qed

text \<open>What an extent holds at a range of positions, and the extent of a position.\<close>

definition piece :: "SpImage \<Rightarrow> Extent \<Rightarrow> int \<Rightarrow> int \<Rightarrow> bytes spec_result" where
  "piece im e pos n =
     (if ex_Hole e then Inr (replicate (nat n) 0)
      else sp_deviceBytes im (ex_Device e) (i64 (ex_Physical e + (pos - ex_Logical e))) n)"

lemma piece_bytes:
  assumes fl: "flat_image im" and n: "0 < n"
  shows "piece im e pos (int n) = Inr b \<longleftrightarrow>
    length b = n \<and> (\<forall>i < n. piece im e (pos + int i) 1 = Inr [b ! i])"
proof (cases "ex_Hole e")
  case True
  then show ?thesis
    by (auto simp: piece_def list_eq_iff_nth_eq)
next
  case False
  define p where "p = ex_Physical e + (pos - ex_Logical e)"
  have q: "i64 (ex_Physical e + (pos + int i - ex_Logical e)) = i64 (p + int i)" for i
    by (simp add: p_def algebra_simps)
  show ?thesis
  proof (cases "src_of im (ex_Device e)")
    case None
    with False n show ?thesis by (auto simp: piece_def deviceBytes_src [OF fl])
  next
    case (Some s)
    obtain data base where s: "s = (data, base)" by (cases s)
    have len: "int (length data) \<le> 2 ^ 62" using src_small [OF fl] Some s by blast
    have "piece im e pos (int n) = Inr b \<longleftrightarrow> sp_sliceAt data (i64 (p + base)) (int n) = Inr b"
      using False Some s by (auto simp: piece_def deviceBytes_src [OF fl] p_def)
    moreover have "piece im e (pos + int i) 1 = Inr [b ! i] \<longleftrightarrow> sp_sliceAt data (i64 (p + base + int i)) 1 = Inr [b ! i]" for i
      using False Some s unfolding piece_def q
      by (auto simp: deviceBytes_src [OF fl] algebra_simps)
    ultimately show ?thesis using slice_bytes [OF len n, of "p + base" b] by simp
  qed
qed

definition sp_byte :: "SpImage \<Rightarrow> SpInode \<Rightarrow> int \<Rightarrow> bytes spec_result" where
  "sp_byte im n p = bindE (sp_ExtentAt im n p) (\<lambda>e. piece im e p 1)"

text \<open>The shape of an inode the reference accepts, as far as its extents need it.\<close>

definition mapped_inode :: "SpInode \<Rightarrow> bool" where
  "mapped_inode n \<longleftrightarrow> sn_Size n \<le> 2 ^ 62 \<and> (sn_Layout n = 4 \<longrightarrow> sn_ChunkBits n \<le> 47)"

lemma flat_extents_form:
  "sp_flatExtents im n = Inr es \<Longrightarrow> es = [] \<or> (\<exists>a. es = [a]) \<or> (\<exists>a b. es = [a, b] \<and> ex_Logical a = 0)"
  by (auto simp: sp_flatExtents_def Let_def split: if_splits)

lemma flat_extents_stable:
  assumes "sp_flatExtents im n = Inr es" and "sp_extentAt es pos = Some e" and "0 \<le> pos"
  shows "pos \<le> p \<Longrightarrow> p < i64 (ex_Logical e + ex_Length e) \<Longrightarrow> sp_extentAt es p = Some e"
    and "ex_Logical e \<le> pos" and "pos < i64 (ex_Logical e + ex_Length e)"
  using flat_extents_form [OF assms(1)] assms(2,3) by (auto split: if_splits)

lemma div_eq_between: "(0 :: int) < c \<Longrightarrow> q * c \<le> p \<Longrightarrow> p < q * c + c \<Longrightarrow> p div c = q"
  by (rule int_div_pos_eq [of _ _ _ "p - q * c"]) (auto simp: algebra_simps)

lemma ExtentAt_stable:
  assumes m: "mapped_inode n" and e: "sp_ExtentAt im n pos = Inr e"
  shows "ex_Logical e \<le> pos" and "pos < i64 (ex_Logical e + ex_Length e)"
    and "pos \<le> p \<Longrightarrow> p < i64 (ex_Logical e + ex_Length e) \<Longrightarrow> p < sn_Size n \<Longrightarrow> sp_ExtentAt im n p = Inr e"
proof -
  have pos: "0 \<le> pos" "pos < sn_Size n" using e by (auto simp: sp_ExtentAt_def split: if_splits)
  have "ex_Logical e \<le> pos \<and> pos < i64 (ex_Logical e + ex_Length e) \<and>
    (pos \<le> p \<and> p < i64 (ex_Logical e + ex_Length e) \<and> p < sn_Size n \<longrightarrow> sp_ExtentAt im n p = Inr e)"
  proof (cases "sn_Layout n = 4")
    case False
    with e pos obtain es where es: "sp_flatExtents im n = Inr es" "sp_extentAt es pos = Some e"
      by (auto simp: sp_ExtentAt_def split: if_splits option.splits)
    have l: "sn_Layout n = 0 \<or> sn_Layout n = 2" using e False pos by (auto simp: sp_ExtentAt_def split: if_splits)
    from flat_extents_stable [OF es pos(1)] es(1) False l pos show ?thesis
      by (auto simp: sp_ExtentAt_def)
  next
    case True
    let ?c = "2 ^ sn_ChunkBits n :: int"
    have c: "shl64 1 (sn_ChunkBits n) = ?c" using m True by (simp add: mapped_inode_def shl64_one)
    have x: "sp_chunkExtent im n (pos div ?c) = Inr e" using e pos True by (simp add: sp_ExtentAt_def c go_div_def)
    have s62: "sn_Size n \<le> 4611686018427387904" using m by (simp add: mapped_inode_def)
    have b: "0 \<le> pos div ?c * ?c" "pos div ?c * ?c \<le> pos" "pos < pos div ?c * ?c + ?c"
      using pos div_mult_le [of ?c pos] by (simp_all add: pos_imp_zdiv_nonneg_iff)
        (metis div_mult_mod_eq add_less_cancel_left pos_mod_bound zero_less_power zero_less_numeral)
    have w: "i64 (pos div ?c * ?c) = pos div ?c * ?c" "i64 (sn_Size n - pos div ?c * ?c) = sn_Size n - pos div ?c * ?c"
      by (rule i64_id_nonneg; use b pos s62 in linarith)+
    have l: "ex_Logical e = pos div ?c * ?c" "ex_Length e = min ?c (sn_Size n - pos div ?c * ?c)"
      using x w by (auto simp: sp_chunkExtent_def Let_def c split: if_splits)
    have h: "i64 (ex_Logical e + ex_Length e) = ex_Logical e + ex_Length e"
      by (rule i64_id_nonneg; use l b pos s62 in \<open>simp add: min_def\<close>)
    have "p div ?c = pos div ?c" if "pos \<le> p" "p < ex_Logical e + ex_Length e"
      using that l b by (intro div_eq_between) auto
    with x True c pos h l b show ?thesis
      by (auto simp: sp_ExtentAt_def go_div_def)
  qed
  then show "ex_Logical e \<le> pos" "pos < i64 (ex_Logical e + ex_Length e)"
    "pos \<le> p \<Longrightarrow> p < i64 (ex_Logical e + ex_Length e) \<Longrightarrow> p < sn_Size n \<Longrightarrow> sp_ExtentAt im n p = Inr e"
    by blast+
qed

definition bytes_at :: "SpImage \<Rightarrow> SpInode \<Rightarrow> int \<Rightarrow> bytes \<Rightarrow> bool" where
  "bytes_at im n pos d \<longleftrightarrow> (\<forall>i < length d. sp_byte im n (pos + int i) = Inr [d ! i])"

lemma bytes_at_append:
  "bytes_at im n pos (a @ b) \<longleftrightarrow> bytes_at im n pos a \<and> bytes_at im n (pos + int (length a)) b"
proof
  assume a: "bytes_at im n pos (a @ b)"
  have "sp_byte im n (pos + int (length a) + int i) = Inr [b ! i]" if "i < length b" for i
  proof -
    have "sp_byte im n (pos + int (length a + i)) = Inr [(a @ b) ! (length a + i)]"
      using a that unfolding bytes_at_def by (metis length_append nat_add_left_cancel_less)
    then show ?thesis by (simp add: nth_append add.assoc)
  qed
  moreover have "sp_byte im n (pos + int i) = Inr [a ! i]" if "i < length a" for i
    using a that unfolding bytes_at_def by (metis length_append nth_append trans_less_add1)
  ultimately show "bytes_at im n pos a \<and> bytes_at im n (pos + int (length a)) b" by (simp add: bytes_at_def)
next
  assume a: "bytes_at im n pos a \<and> bytes_at im n (pos + int (length a)) b"
  show "bytes_at im n pos (a @ b)"
    unfolding bytes_at_def
  proof (intro allI impI)
    fix i assume "i < length (a @ b)"
    then consider "i < length a" | j where "i = length a + j" "j < length b"
      by (metis add_diff_inverse_nat length_append nat_add_left_cancel_less)
    then show "sp_byte im n (pos + int i) = Inr [(a @ b) ! i]"
      using a by cases (auto simp: bytes_at_def nth_append add.assoc)
  qed
qed

lemma bytes_at_take: "bytes_at im n pos d \<Longrightarrow> bytes_at im n pos (take k d)"
  by (simp add: bytes_at_def)

lemma piece_bytes_at:
  assumes fl: "flat_image im" "mapped_inode n" and e: "sp_ExtentAt im n pos = Inr e"
    and hi: "pos < hi" "hi \<le> i64 (ex_Logical e + ex_Length e)" "hi \<le> sn_Size n"
  shows "piece im e pos (hi - pos) = Inr b \<longleftrightarrow> int (length b) = hi - pos \<and> bytes_at im n pos b"
proof -
  have n: "0 < nat (hi - pos)" "int (nat (hi - pos)) = hi - pos" using hi by auto
  have "sp_byte im n (pos + int i) = piece im e (pos + int i) 1" if "i < nat (hi - pos)" for i
    using ExtentAt_stable(3) [OF fl(2) e, of "pos + int i"] that hi by (simp add: sp_byte_def)
  then show ?thesis
    using piece_bytes [OF fl(1) n(1), of e pos b] unfolding n(2)
    using hi(1) by (auto simp: bytes_at_def nat_eq_iff)
qed

lemma readFrom_bytes:
  assumes fl: "flat_image im" "mapped_inode n"
  shows "0 \<le> pos \<Longrightarrow> pos \<le> fin \<Longrightarrow> fin \<le> sn_Size n \<Longrightarrow> nat (fin - pos) \<le> fuel \<Longrightarrow>
    sp_readFrom im n fuel pos fin acc = Inr r \<longleftrightarrow>
      (\<exists>d. r = acc @ d \<and> int (length d) = fin - pos \<and> bytes_at im n pos d)"
proof (induction fuel arbitrary: pos acc)
  case 0
  then have "pos = fin" by simp
  then show ?case by (auto simp: bytes_at_def)
next
  case (Suc fuel)
  show ?case
  proof (cases "pos = fin")
    case True
    then show ?thesis by (auto simp: bytes_at_def)
  next
    case False
    then have lt: "pos < fin" using Suc.prems by simp
    show ?thesis
    proof (cases "sp_ExtentAt im n pos")
      case (Inl x)
      have "sp_byte im n (pos + int 0) = Inl x" using Inl by (simp add: sp_byte_def)
      then have "\<not> bytes_at im n pos d" if "int (length d) = fin - pos" for d
        using that lt by (auto simp: bytes_at_def intro!: exI [of _ 0])
      with Inl lt show ?thesis by auto
    next
      case (Inr e)
      define hi where "hi = min (i64 (ex_Logical e + ex_Length e)) fin"
      have hi: "pos < hi" "hi \<le> i64 (ex_Logical e + ex_Length e)" "hi \<le> fin" "hi \<le> sn_Size n"
        using ExtentAt_stable(2) [OF fl(2) Inr] lt Suc.prems(3) by (auto simp: hi_def)
      have step: "sp_readFrom im n (Suc fuel) pos fin acc =
          bindE (piece im e pos (hi - pos)) (\<lambda>b. sp_readFrom im n fuel hi fin (acc @ b))"
        using lt Inr by (simp add: Let_def hi_def piece_def)
      note pb = piece_bytes_at [OF fl Inr hi(1,2,4)]
      have ih: "sp_readFrom im n fuel hi fin a = Inr r \<longleftrightarrow>
          (\<exists>d. r = a @ d \<and> int (length d) = fin - hi \<and> bytes_at im n hi d)" for a
        by (rule Suc.IH) (use hi Suc.prems in auto)
      show ?thesis
      proof
        assume "sp_readFrom im n (Suc fuel) pos fin acc = Inr r"
        then obtain b where b: "int (length b) = hi - pos" "bytes_at im n pos b" "sp_readFrom im n fuel hi fin (acc @ b) = Inr r"
          unfolding step by (auto simp: pb)
        then obtain d where "r = (acc @ b) @ d" "int (length d) = fin - hi" "bytes_at im n hi d" unfolding ih by blast
        with b(1,2) show "\<exists>d. r = acc @ d \<and> int (length d) = fin - pos \<and> bytes_at im n pos d"
          by (intro exI [of _ "b @ d"]) (simp add: bytes_at_append)
      next
        assume "\<exists>d. r = acc @ d \<and> int (length d) = fin - pos \<and> bytes_at im n pos d"
        then obtain d where d: "r = acc @ d" "int (length d) = fin - pos" "bytes_at im n pos d" by blast
        define b where "b = take (nat (hi - pos)) d"
        define c where "c = drop (nat (hi - pos)) d"
        have dbc: "d = b @ c" by (simp add: b_def c_def)
        have lb: "int (length b) = hi - pos" "int (length c) = fin - hi" using d(2) hi by (auto simp: b_def c_def)
        then have "bytes_at im n pos b" "bytes_at im n hi c"
          using d(3) unfolding dbc bytes_at_append by auto
        with lb have "piece im e pos (hi - pos) = Inr b" "sp_readFrom im n fuel hi fin (acc @ b) = Inr r"
          unfolding pb ih using d(1) dbc by auto
        then show "sp_readFrom im n (Suc fuel) pos fin acc = Inr r" unfolding step by simp
      qed
    qed
  qed
qed

text \<open>So the reference's answer for a range is the bytes at its positions.\<close>

lemma ReadAt_bytes:
  assumes "flat_image im" "mapped_inode n"
  shows "sp_ReadAt im n pos (int k) = Inr d \<longleftrightarrow>
    0 \<le> pos \<and> pos + int k \<le> sn_Size n \<and> length d = k \<and> bytes_at im n pos d"
  using readFrom_bytes [OF assms, of pos "pos + int k" k "[]" d]
  by (auto simp: sp_ReadAt_def)

section \<open>Reading\<close>

lemma sim_mapped:
  assumes "inode_sim img ino n" and "near img ino" and "image_ok img"
  shows "mapped_inode n"
  using assms chunkBits_bounds [of img ino] by (auto simp: mapped_inode_def inode_sim_def near_def)

text \<open>What both readers need of a file to agree on it.\<close>

definition same_file :: "image \<Rightarrow> SpImage \<Rightarrow> inode \<Rightarrow> SpInode \<Rightarrow> bool" where
  "same_file img im ino n \<longleftrightarrow>
     image_sim img im \<and> inode_sim img ino n \<and> image_ok img \<and> inode_ok img ino \<and> near img ino \<and> flat_image im \<and>
     (inodeLayout ino = LayoutFlatInline \<longrightarrow> inline_fits img ino)"

lemma find_dev_unmapped: "\<forall>d \<in> set ds. mappedBlkAddr d = 0 \<Longrightarrow> find_dev k ds pa = None"
  by (induction ds) (auto simp: in_mapped_def)

lemma sim_unmapped:
  assumes "image_sim img im" and "flat_image im" and "im_extra im \<noteq> []"
  shows "find_dev (blkbits img) (devices img) pa = None"
proof -
  have "mappedBlkAddr d = 0" if "d \<in> set (devices img)" for d
  proof -
    from that obtain i where "i < length (devices img)" "d = devices img ! i" by (metis in_set_conv_nth)
    with assms show ?thesis by (auto simp: image_sim_def dev_sim_def flat_image_def dest!: bspec [OF _ nth_mem])
  qed
  then have "\<forall>d \<in> set (devices img). mappedBlkAddr d = 0" by blast
  then show ?thesis by (rule find_dev_unmapped)
qed

lemma block_bytes_at:
  assumes s: "same_file img im ino n" and pos: "0 \<le> pos" "pos < fsize ino" and b: "loadBlock img ino pos = Inr blk"
  shows "bytes_at im n pos (block_bytes blk)"
proof -
  have v: "viewed (loadBlock_in (getBlock img) img ino pos) = Inr (offset blk, bend blk, block_bytes blk)"
    using b by (simp add: loadBlock_def block_view_def)
  have "im_extra im = [] \<or> tail_unmapped img ino"
    using s sim_unmapped [of img im] by (cases "im_extra im = []") (auto simp: same_file_def tail_unmapped_def)
  then have "sp_ReadAt im n pos (int (length (block_bytes blk))) = Inr (block_bytes blk)"
    by (intro loadBlock_refines [OF _ _ _ _ _ pos _ _ v])
      (use s in \<open>auto simp: same_file_def getBlock_def\<close>)
  then show ?thesis
    using s sim_mapped [of img ino n] by (auto simp: same_file_def ReadAt_bytes)
qed

lemma readLoop_bytes_at:
  assumes "same_file img im ino n" and "readLoop img ino off k acc = (b, e, off')" and "0 \<le> off"
    and "bytes_at im n (off - int (length acc)) acc"
  shows "bytes_at im n (off - int (length acc)) b"
  using assms(1,2,3,4)
proof (induction img ino off k acc rule: readLoop.induct)
  case (1 img fi off k acc)
  show ?case
  proof (cases "k = 0 \<or> off \<ge> fsize fi \<or> (\<exists>x. loadBlock img fi off = Inl x)")
    case True
    with "1.prems"(2,4) show ?thesis by (subst (asm) readLoop.simps) (auto split: if_splits)
  next
    case False
    then obtain blk where blk: "loadBlock img fi off = Inr blk" by (cases "loadBlock img fi off") auto
    let ?c = "take k (block_bytes blk)"
    have r: "readLoop img fi (off + int (length ?c)) (k - length ?c) (acc @ ?c) = (b, e, off')"
      using False blk "1.prems"(2) by (subst (asm) readLoop.simps) (simp add: Let_def)
    have "bytes_at im n off ?c"
      using block_bytes_at [OF "1.prems"(1,3) _ blk] False by (intro bytes_at_take) auto
    then have "bytes_at im n (off + int (length ?c) - int (length (acc @ ?c))) (acc @ ?c)"
      using "1.prems"(4) by (simp add: bytes_at_append)
    from "1.IH" [OF _ _ blk refl "1.prems"(1) r _ this] False "1.prems"(3) show ?thesis by simp
  qed
qed

subsection \<open>The fast path\<close>

text \<open>An address of device \<open>did\<close> and the place it was found at: itself, or for the primary device
  the device whose mapped range holds it.\<close>

definition located :: "image \<Rightarrow> u16 \<Rightarrow> int \<Rightarrow> u16 \<Rightarrow> int \<Rightarrow> bool" where
  "located img did pa dev off \<longleftrightarrow>
     (dev = did \<and> off = pa) \<or>
     (did = 0 \<and> (\<exists>j. find_dev (blkbits img) (devices img) pa = Some j \<and> dev = of_nat (Suc j) \<and>
        off = pa - uint (mappedBlkAddr (devices img ! j)) * 2 ^ blkbits img))"

lemma locateRange_located:
  assumes "image_ok img" and "locateRange img pa n = Inr (dev, off)"
  shows "located img 0 pa dev off"
proof -
  have k: "blkbits img \<le> 16" using assms(1) by blast
  show ?thesis
    using assms(2)
    by (auto simp: locateRange_def locateRange_dev_find [OF k] located_def split: if_splits option.splits)
qed

lemma locate_located:
  assumes "image_ok img" and "locate img did pa = Inr (dev, off)"
  shows "located img did pa dev off"
proof -
  have k: "blkbits img \<le> 16" using assms(1) by blast
  show ?thesis
    using assms(2)
    by (auto simp: locate_def locate_dev_find [OF k] located_def word_gt_0 split: if_splits option.splits)
qed

lemma i64_u32_blocks:
  "image_ok img \<Longrightarrow> i64 (uint (x :: u32) * 2 ^ blkbits img) = uint x * 2 ^ blkbits img"
  using shl64_u32 [of "blkbits img" x] by (auto simp: shl64_def push_bit_eq_mult)

lemma slice_one: "z < length data \<Longrightarrow> sp_sliceAt data (int z) 1 = Inr [data ! z]"
  by (simp add: sp_sliceAt_def window_def take_Suc hd_drop_conv_nth)

lemma dev_byte:
  assumes s: "image_sim img im" "image_ok img" "flat_image im" and rd: "deviceReader img dev = Inr rd"
    and r: "ra_read rd q m = (b, e)" and i: "i < length b"
  shows "sp_deviceBytes im dev (i64 (q + int i)) 1 = Inr [b ! i]"
proof -
  have k: "blkbits img \<le> 16" using s by blast
  have "\<exists>data base. src_of im dev = Some (data, base) \<and> 0 \<le> base \<and> reads_data rd (drop (nat base) data)"
  proof (cases "dev = 0")
    case True
    with rd s show ?thesis by (simp add: src_of_def deviceReader_def image_sim_def)
  next
    case False
    let ?j = "unat dev - 1"
    have j: "?j < length (devices img)" "rd = device (devices img ! ?j)"
      using False rd by (auto simp: deviceReader_def split: if_splits)
    have d: "dev_sim im ?j (devices img ! ?j)" using s(1) j by (simp add: image_sim_def)
    with False j s(1) i64_u32_blocks [OF s(2)] show ?thesis
      by (auto simp: src_of_def Let_def image_sim_def dev_sim_def dev_data_def)
  qed
  then obtain data base where src: "src_of im dev = Some (data, base)" "0 \<le> base" "reads_data rd (drop (nat base) data)"
    by blast
  have "b \<noteq> []" using i by auto
  note d = reads_dataD(2,3) [OF src(3) r this]
  have len: "int (length data) \<le> 2 ^ 62" by (rule src_small [OF s(3) src(1)])
  have w: "window data (nat base + nat q) (length b) = b" using d(2) by (simp add: window_drop)
  have lb: "nat base + nat q + length b \<le> length data"
    using arg_cong [OF w, of length] i by (simp add: window_def)
  have "b ! i = data ! (nat base + nat q + i)"
    using arg_cong [OF w, of "\<lambda>x. x ! i"] i lb by (simp add: window_def)
  moreover have "i64 (q + int i + base) = int (nat base + nat q + i)"
    using d(1) src(2) lb i len by (subst i64_id_nonneg) auto
  ultimately have "sp_sliceAt data (i64 (q + int i + base)) 1 = Inr [b ! i]"
    using slice_one [of "nat base + nat q + i" data] lb i by simp
  with src(1) show ?thesis unfolding deviceBytes_src [OF s(3)] by blast
qed

lemma located_byte:
  assumes s: "image_sim img im" "image_ok img" "flat_image im" and l: "located img did pa dev off"
    and y: "sp_deviceBytes im dev (i64 (off + x)) 1 = Inr y"
  shows "sp_deviceBytes im did (i64 (pa + x)) 1 = Inr y"
proof (cases "dev = did \<and> off = pa")
  case False
  then obtain j where j: "did = 0" "find_dev (blkbits img) (devices img) pa = Some j" "dev = of_nat (Suc j)"
    "off = pa - uint (mappedBlkAddr (devices img ! j)) * 2 ^ blkbits img"
    using l by (auto simp: located_def)
  have extra: "im_extra im = []" using sim_unmapped [OF s(1,3)] j(2) by fastforce
  have jl: "j < length (devices img)" by (rule find_dev_bound [OF j(2)])
  then have u: "unat (of_nat (Suc j) :: u16) = Suc j" using s(2) by (intro unat_of_nat_u16) auto
  then have nz: "(of_nat (Suc j) :: u16) \<noteq> 0" by (metis unat_0 nat.distinct(1))
  have "dev_sim im j (devices img ! j)" "length (im_Devices im) = length (devices img)"
    using s(1) jl by (auto simp: image_sim_def)
  then have "src_of im dev = Some (im_data im, i64 (uint (mappedBlkAddr (devices img ! j)) * 2 ^ blkbits img))"
    using extra j(3) u nz jl sim_blkbits [OF s(1)] by (simp add: src_of_def dev_sim_def Let_def)
  moreover have "src_of im 0 = Some (im_data im, 0)" by (simp add: src_of_def)
  ultimately show ?thesis
    using y unfolding deviceBytes_src [OF s(3)] j(1) by (auto simp: j(4) algebra_simps i64_u32_blocks [OF s(2)])
qed (use y in simp)

lemma section_read:
  assumes "ra_read (section_reader rd off sz) pos k = (b, e)" and "b \<noteq> []" and "off + sz \<le> MaxInt64"
  shows "0 \<le> pos \<and> pos < sz \<and> (\<exists>m e'. ra_read rd (off + pos) m = (b, e') \<and> int m \<le> sz - pos)"
  using assms
  by (auto simp: section_reader_def Let_def add.commute split: if_splits prod.splits)

text \<open>Every entry the run check of the fast path accepted continues the first.\<close>

lemma directRun_later:
  assumes "directRun img idx bpc i m (s, d) = Some (s', d')" and "0 < i"
  shows "s' = s \<and> d' = d \<and> (\<forall>j. i \<le> j \<and> j < i + m \<longrightarrow>
    NOT (le32 idx (j * 8 + 4)) \<noteq> 0 \<and> ucast (le32 idx (j * 8 + 4)) = s + of_nat j * bpc \<and>
    le16 idx (j * 8 + 2) AND deviceIDMask img = d)"
  using assms
proof (induction m arbitrary: i)
  case (Suc m)
  have c: "NOT (le32 idx (i * 8 + 4)) \<noteq> 0" "ucast (le32 idx (i * 8 + 4)) = s + of_nat i * bpc"
    "le16 idx (i * 8 + 2) AND deviceIDMask img = d" "directRun img idx bpc (Suc i) m (s, d) = Some (s', d')"
    using Suc.prems by (auto simp: Let_def split: if_splits)
  note ih = Suc.IH [OF c(4)]
  show ?case
  proof (intro conjI allI impI)
    fix j assume "i \<le> j \<and> j < i + Suc m"
    then consider "j = i" | "Suc i \<le> j" "j < Suc i + m" by linarith
    then show "NOT (le32 idx (j * 8 + 4)) \<noteq> 0" "ucast (le32 idx (j * 8 + 4)) = s + of_nat j * bpc"
      "le16 idx (j * 8 + 2) AND deviceIDMask img = d"
      using c ih by (cases, auto)+
  qed (use ih in auto)
qed auto

lemma directRun_spec:
  assumes "directRun img idx bpc 0 m (s0, d0) = Some (s, d)" and "j < m"
  shows "NOT (le32 idx (j * 8 + 4)) \<noteq> 0 \<and> ucast (le32 idx (j * 8 + 4)) = s + of_nat j * bpc \<and>
    le16 idx (j * 8 + 2) AND deviceIDMask img = d"
proof -
  obtain m' where m: "m = Suc m'" using assms(2) by (cases m) auto
  have c: "NOT (le32 idx 4) \<noteq> 0"
    "directRun img idx bpc (Suc 0) m' (ucast (le32 idx 4), le16 idx 2 AND deviceIDMask img) = Some (s, d)"
    using assms(1) by (auto simp: Let_def m numeral_2_eq_2 split: if_splits)
  note l = directRun_later [OF c(2)]
  show ?thesis
  proof (cases j)
    case 0
    with c l show ?thesis by (simp add: numeral_2_eq_2)
  next
    case (Suc i)
    with l assms(2) m show ?thesis by auto
  qed
qed

lemma le_window:
  "i + 2 \<le> m \<Longrightarrow> le16 (window b a m) i = le16 b (a + i)"
  "i + 4 \<le> m \<Longrightarrow> le32 (window b a m) i = le32 b (a + i)"
  by (simp_all add: le16_def le32_def window_window)

text \<open>What the fast path reads from: a run of one device that holds the file's bytes in order.\<close>

definition runs :: "image \<Rightarrow> SpImage \<Rightarrow> inode \<Rightarrow> SpInode \<Rightarrow> reader \<Rightarrow> bool" where
  "runs img im ino n sr \<longleftrightarrow>
     (\<exists>did pa dev off rd. located img did pa dev off \<and> deviceReader img dev = Inr rd \<and>
        sr = section_reader rd off (fsize ino) \<and> 0 \<le> off \<and> off + fsize ino \<le> MaxInt64 \<and>
        (\<forall>p. 0 \<le> p \<and> p < fsize ino \<longrightarrow> sp_byte im n p = sp_deviceBytes im did (i64 (pa + p)) 1))"

lemma runs_bytes_at:
  assumes s: "same_file img im ino n" and r: "runs img im ino n sr" and rd: "ra_read sr pos k = (b, e)"
  shows "bytes_at im n pos b"
proof (cases "b = []")
  case False
  obtain did pa dev off rd where d: "located img did pa dev off" "deviceReader img dev = Inr rd"
    "sr = section_reader rd off (fsize ino)" "off + fsize ino \<le> MaxInt64"
    "\<And>p. 0 \<le> p \<Longrightarrow> p < fsize ino \<Longrightarrow> sp_byte im n p = sp_deviceBytes im did (i64 (pa + p)) 1"
    using r by (auto simp: runs_def)
  obtain m e' where m: "0 \<le> pos" "ra_read rd (off + pos) m = (b, e')" "int m \<le> fsize ino - pos"
    using section_read [OF rd [unfolded d(3)] False d(4)] by blast
  have im: "image_sim img im" "image_ok img" "flat_image im" using s by (auto simp: same_file_def)
  have len: "length b \<le> m"
  proof -
    have "\<exists>data. reads_data rd data"
      using im(1) d(2) by (auto simp: deviceReader_def image_sim_def dev_sim_def split: if_splits)
    then show ?thesis using reads_dataD(1) [OF _ m(2)] by blast
  qed
  show ?thesis
    unfolding bytes_at_def
  proof (intro allI impI)
    fix i assume i: "i < length b"
    have "sp_deviceBytes im dev (i64 (off + (pos + int i))) 1 = Inr [b ! i]"
      using dev_byte [OF im d(2) m(2) i] by (simp add: add.assoc)
    then have "sp_deviceBytes im did (i64 (pa + (pos + int i))) 1 = Inr [b ! i]"
      by (rule located_byte [OF im d(1)])
    with d(5) [of "pos + int i"] m(1,3) i len show "sp_byte im n (pos + int i) = Inr [b ! i]" by simp
  qed
qed (simp add: bytes_at_def)

lemma runs_plain:
  assumes s: "same_file img im ino n" and o: "openDirect img ino = Some sr" and l: "inodeLayout ino = LayoutFlatPlain"
  shows "runs img im ino n sr"
proof -
  have im: "image_sim img im" "inode_sim img ino n" "image_ok img" "fsize ino \<le> 2 ^ 62"
    using s by (auto simp: same_file_def near_def)
  have k: "blkbits img \<le> 16" "length (devices img) < 65536" using im(3) by (auto simp: image_ok_def)
  obtain pa dev off rd where d: "blockAddr img (startBlock ino) = Inr pa" "locateRange img pa (fsize ino) = Inr (dev, off)"
    "deviceReader img dev = Inr rd" "sr = section_reader rd off (fsize ino)" "\<not> nullAddress ino"
    using o l by (auto simp: openDirect_def Let_def locateStart_def directAt_def bind_eq_Some_conv split: if_splits)
  have pa: "pa = uint (startBlock ino) * 2 ^ blkbits img" using d(1) by (simp add: blockAddr_iff [OF k(1)])
  have "sp_byte im n p = sp_deviceBytes im 0 (i64 (pa + p)) 1" if "0 \<le> p" "p < fsize ino" for p
    using ExtentAt_plain [OF im(1,2,3,4) l that] d(5) by (auto simp: sp_byte_def piece_def pa)
  with locateRange_located [OF im(3) d(2)] d(3,4) in_extent_int64 [OF k(1) locateRange_sound(2) [OF k d(2)]]
  show ?thesis unfolding runs_def by blast
qed

lemma runs_inline:
  assumes s: "same_file img im ino n" and o: "openDirect img ino = Some sr" and l: "inodeLayout ino = LayoutFlatInline"
  shows "runs img im ino n sr"
proof -
  have im: "image_sim img im" "inode_sim img ino n" "image_ok img" "fsize ino \<le> 2 ^ 62" "inode_ok img ino" "inline_fits img ino"
    using s l by (auto simp: same_file_def near_def)
  define a where "a = i64 (inodeStart img (inid ino) + flatDataOffset ino)"
  have d: "0 < fsize ino" "fsize ino \<le> 2 ^ blkbits img" "checkImageRange img a (fsize ino) = Inr ()"
    "sr = section_reader (meta img) a (fsize ino)"
    using o l by (auto simp: openDirect_def Let_def a_def split: if_splits)
  have c1: "calculateBlocks (blkbits img) (fsize ino) = 1"
    using d(1,2) by (simp add: calculateBlocks_eq) (simp add: div_eq_between [of "2 ^ blkbits img" "- 1" "- fsize ino"])
  have st: "inodeStart img (inid ino) = nid_addr img (inid ino)"
    using inodeStart_eq [OF im(3)] im(5) by (simp add: inode_ok_def)
  have "sp_byte im n p = sp_deviceBytes im 0 (i64 (a + p)) 1" if "0 \<le> p" "p < fsize ino" for p
    using ExtentAt_inline [OF im(1,2,3,4) l that _ st refl] im(6) that unfolding c1 inline_fits_def
    by (auto simp: sp_byte_def piece_def a_def)
  moreover have "located img 0 a 0 a" by (simp add: located_def)
  moreover have "deviceReader img 0 = Inr (meta img)" by (simp add: deviceReader_def)
  ultimately show ?thesis using d(3,4) unfolding runs_def checkImageRange_iff by blast
qed

lemma uint_run:
  assumes "uint (s :: u64) < 2 ^ 32" and "i \<le> 2 ^ 24" and "m \<le> 31"
  shows "uint (s + of_nat i * push_bit m 1) = uint s + int i * 2 ^ m"
proof -
  have p: "uint (push_bit m (1 :: u64)) = 2 ^ m"
  proof -
    have "uint (push_bit m (1 :: u64)) = take_bit 64 (push_bit m (uint (1 :: u64)))"
      by (subst unsigned_push_bit_eq) simp
    moreover have "(2 :: int) ^ m < 2 ^ 64" using assms(3) by (intro power_strict_increasing) auto
    ultimately show ?thesis using assms(3) by (simp add: push_bit_eq_mult take_bit_int_eq_self)
  qed
  have m: "(2 :: int) ^ m \<le> 2 ^ 31" using assms(3) by (intro power_increasing) auto
  have i: "uint (of_nat i :: u64) = int i" using assms(2) by (simp add: uint_nat unat_of_nat take_bit_nat_eq_self)
  have im: "int i * 2 ^ m \<le> 2 ^ 24 * 2 ^ 31" using assms(2) m by (intro mult_mono) auto
  have "uint (of_nat i * push_bit m (1 :: u64)) = int i * 2 ^ m"
    using im p i by (subst uint_mult_lem [THEN iffD1]) auto
  then show ?thesis using assms(1) im by (subst uint_add_lem [THEN iffD1]) auto
qed

lemma runs_chunk:
  assumes s: "same_file img im ino n" and o: "openDirect img ino = Some sr" and l: "inodeLayout ino = LayoutChunkBased"
  shows "runs img im ino n sr"
proof -
  have im: "image_sim img im" "inode_sim img ino n" "image_ok img" "inode_ok img ino" "near img ino"
    using s by (auto simp: same_file_def)
  have k: "blkbits img \<le> 16" using im(3) by blast
  define c where "c = chunkBits img ino"
  define base where "base = chunkMapBase img ino"
  define nc where "nc = (fsize ino - 1) div 2 ^ c + 1"
  have sz: "0 < fsize ino" "fsize ino \<le> 2 ^ 62" using o im(5) by (auto simp: openDirect_def near_def split: if_splits)
  have cb: "blkbits img \<le> c" "c \<le> 47" "c - blkbits img \<le> 31"
    using chunkBits_bounds [OF k, of ino] chunkBits_eq [OF k, of ino] by (auto simp: c_def)
  obtain b did start pa dev off rd where d:
    "chunkFormat ino AND LayoutChunkFormatIndexes \<noteq> 0"
    "chunkFormat ino AND NOT (LayoutChunkFormatBits OR LayoutChunkFormatIndexes) = 0"
    "chunkIndexFits img base (i64 (nc * 8))" "ra_read (meta img) base (nat (i64 (nc * 8))) = (b, None)"
    "directRun img (read_into (nat (i64 (nc * 8))) b) (push_bit (c - blkbits img) 1) 0 (nat nc) (0, 0) = Some (start, did)"
    "chunkAddr img start = Inr pa" "locate img did pa = Inr (dev, off)"
    "boundOnDevice img dev off (fsize ino) = Inr ()" "deviceReader img dev = Inr rd"
    "sr = section_reader rd off (fsize ino)"
    using o l unfolding openDirect_def openDirect_chunks_def Let_def drop_bit_eq_div c_def base_def nc_def
    by (auto simp: bind_eq_Some_conv directAt_def split: if_splits prod.splits option.splits)
  have u8: "chunkUnit ino = 8" using d(1) by (simp add: chunkUnit_def)
  have fmt: "chunkFormat ino AND 0x40 = 0"
  proof -
    have "chunkFormat ino AND 0x40 = (chunkFormat ino AND NOT (LayoutChunkFormatBits OR LayoutChunkFormatIndexes)) AND 0x40"
      by (simp add: and.assoc)
    then show ?thesis by (simp only: d(2) bit.conj_zero_left)
  qed
  have c9: "(8 :: int) \<le> 2 ^ c"
  proof -
    have "9 \<le> c" using cb(1) im(3) by (auto simp: image_ok_def)
    then have "(2 :: int) ^ 9 \<le> 2 ^ c" by (intro power_increasing) auto
    then show ?thesis by simp
  qed
  have nc1: "1 \<le> nc" using sz by (simp add: nc_def pos_imp_zdiv_nonneg_iff)
  have "(nc - 1) * 8 \<le> (nc - 1) * 2 ^ c" using c9 nc1 by (intro mult_left_mono) auto
  also have "\<dots> \<le> fsize ino - 1" using div_mult_le [of "2 ^ c" "fsize ino - 1"] by (simp add: nc_def)
  finally have "nc * 8 \<le> 2 ^ 62 + 8" using sz by simp
  then have nc3: "i64 (nc * 8) = nc * 8" using nc1 by (intro i64_id_nonneg) auto
  then have nc: "1 \<le> nc" "nc \<le> 2 ^ 23" "i64 (nc * 8) = nc * 8" using nc1 d(3) by (auto simp: chunkIndexFits_iff)
  have bs: "0 \<le> base" "base + nc * 8 \<le> MaxInt64" using d(3) nc(3) by (simp_all add: chunkIndexFits_iff)
  have b: "length b = nat (nc * 8)" "window (im_data im) (nat base) (nat (nc * 8)) = b"
  proof -
    have rd: "reads_data (meta img) (im_data im)" using im(1) by (simp add: image_sim_def)
    note r = d(4) [unfolded nc(3)]
    from reads_dataD(1,4) [OF rd r] show l: "length b = nat (nc * 8)" by fastforce
    with nc have "b \<noteq> []" by auto
    with reads_dataD(3) [OF rd r] l show "window (im_data im) (nat base) (nat (nc * 8)) = b" by simp
  qed
  then have idx: "read_into (nat (i64 (nc * 8))) b = b" by (simp add: read_into_def put_at_eq nc(3))
  have st: "uint start < 2 ^ 32" "pa = uint start * 2 ^ blkbits img"
  proof -
    have "start = ucast (le32 b 4)" using directRun_spec [OF d(5) [unfolded idx], of 0] nc by simp
    then show "uint start < 2 ^ 32" using uint_lt_u32 [of "le32 b 4"] by simp
    show "pa = uint start * 2 ^ blkbits img" using d(6) by (simp add: chunkAddr_iff [OF k])
  qed
  have "sp_byte im n p = sp_deviceBytes im did (i64 (pa + p)) 1" if p: "0 \<le> p" "p < fsize ino" for p
  proof -
    define i where "i = p div 2 ^ c"
    have i: "0 \<le> i" "i < nc"
      using p zdiv_mono1 [of p "fsize ino - 1" "2 ^ c"] by (auto simp: i_def nc_def pos_imp_zdiv_nonneg_iff)
    have ib: "i * 8 + 8 \<le> nc * 8" using i by simp
    have ent: "sp_bytesAt im (i64 (chunkMapBase img ino + i64 (i * chunkUnit ino))) (chunkUnit ino) = Inr (window b (nat i * 8) 8)"
    proof -
      have "i64 (base + i64 (i * 8)) = base + i * 8"
        using i bs ib by (simp add: i64_id_nonneg)
      moreover have "window b (nat i * 8) 8 = window (im_data im) (nat (base + i * 8)) 8"
        using ib i bs by (subst b(2) [symmetric]) (simp add: window_window nat_add_distrib nat_mult_distrib)
      moreover have "int (length (im_data im)) \<ge> base + nc * 8"
        using arg_cong [OF b(2), of length] b(1) bs nc(1) by (simp add: window_def)
      ultimately show ?thesis
        using i ib bs by (simp add: u8 base_def [symmetric] sp_bytesAt_def sp_sliceAt_def)
    qed
    have run: "NOT (le32 b (nat i * 8 + 4)) \<noteq> 0" "ucast (le32 b (nat i * 8 + 4)) = start + of_nat (nat i) * push_bit (c - blkbits img) 1"
      "le16 b (nat i * 8 + 2) AND deviceIDMask img = did"
      using directRun_spec [OF d(5) [unfolded idx], of "nat i"] i by auto
    have lo: "entry_lo ino (window b (nat i * 8) 8) = le32 b (nat i * 8 + 4)" "entry_dev img ino (window b (nat i * 8) 8) = did"
      using run(3) by (simp_all add: entry_lo_def entry_dev_def u8 le_window)
    have ph: "uint (le32 b (nat i * 8 + 4)) = uint start + i * 2 ^ (c - blkbits img)"
      using arg_cong [OF run(2), of uint] uint_run [OF st(1) _ cb(3), of "nat i"] i nc(2) by simp
    have "\<exists>x. sp_chunkExtent im n i = Inr x \<and> \<not> ex_Hole x \<and> ex_Device x = did \<and> ex_Logical x = i64 (i * 2 ^ c) \<and>
        ex_Physical x = uint (le32 b (nat i * 8 + 4)) * 2 ^ blkbits img"
      using chunkExtent_entry [OF im fmt l ent] run i by (simp add: lo Let_def c_def)
    moreover have "sp_ExtentAt im n p = sp_chunkExtent im n i"
      using im(2) p l cb by (simp add: sp_ExtentAt_def inode_sim_def go_div_def shl64_one c_def i_def)
    moreover have "i64 (uint (le32 b (nat i * 8 + 4)) * 2 ^ blkbits img + (p - i64 (i * 2 ^ c))) = i64 (pa + p)"
    proof -
      have "i * 2 ^ c \<le> p" "0 \<le> i * 2 ^ c" using div_mult_le [of "2 ^ c" p] i by (auto simp: i_def)
      then have "i64 (i * 2 ^ c) = i * 2 ^ c" using p sz by (intro i64_id_nonneg) auto
      moreover have "(2 :: int) ^ c = 2 ^ (c - blkbits img) * 2 ^ blkbits img"
        using cb(1) by (simp add: power_add [symmetric])
      ultimately have "uint (le32 b (nat i * 8 + 4)) * 2 ^ blkbits img + (p - i64 (i * 2 ^ c)) = pa + p"
        unfolding ph st(2) by (simp add: algebra_simps)
      then show ?thesis by (rule arg_cong)
    qed
    ultimately show ?thesis by (auto simp: sp_byte_def piece_def)
  qed
  then show ?thesis
    using locate_located [OF im(3) d(7)] d(8,9,10) unfolding runs_def boundOnDevice_iff [OF k] by blast
qed

lemma openDirect_runs:
  assumes "same_file img im ino n" and "openDirect img ino = Some sr"
  shows "runs img im ino n sr"
proof -
  have "inodeLayout ino = LayoutFlatPlain \<or> inodeLayout ino = LayoutFlatInline \<or> inodeLayout ino = LayoutChunkBased"
    using assms(1) by (auto simp: same_file_def inode_ok_def)
  with runs_plain [OF assms] runs_inline [OF assms] runs_chunk [OF assms] show ?thesis by blast
qed

text \<open>An open file between two calls: what it cached is the inode, and what its fast path reads
  from is the file.\<close>

definition reads_file :: "image \<Rightarrow> SpImage \<Rightarrow> open_file \<Rightarrow> inode \<Rightarrow> SpInode \<Rightarrow> bool" where
  "reads_file img im f ino n \<longleftrightarrow>
     same_file img im ino n \<and> 0 \<le> foffset f \<and> finfo f = Some ino \<and>
     (\<forall>sr. fdirect f = Some sr \<longrightarrow> directChecked f \<and> runs img im ino n sr)"

lemma runs_reads:
  assumes "same_file img im ino n" and "runs img im ino n sr"
  shows "\<exists>data. reads_data sr data"
proof -
  have "image_sim img im" using assms(1) by (simp add: same_file_def)
  then have "image_reads img"
    by (auto simp: image_reads_def image_sim_def dev_sim_def in_set_conv_nth) metis+
  moreover have "0 \<le> fsize ino" using assms(1) by (simp add: same_file_def inode_ok_def)
  with assms(2) have "section_of img (fsize ino) sr" by (auto simp: runs_def section_of_def)
  ultimately show ?thesis by (rule section_of_reads)
qed

lemma Read_reads:
  assumes f: "reads_file img im f ino n" and r: "Read img f k = (f', b, e)"
  shows "reads_file img im f' ino n" and "bytes_at im n (foffset f) b" and "foffset f' = foffset f + int (length b)"
    and "length b \<le> k"
proof -
  have s: "same_file img im ino n" and o: "0 \<le> foffset f" and i: "finfo f = Some ino"
    using f by (auto simp: reads_file_def)
  have ri: "readInfo img f = (f, Inr ino)" using i by (simp add: readInfo_def)
  define h where "h = directReader img f ino"
  have h: "foffset h = foffset f" "finfo h = Some ino" "\<And>sr. fdirect h = Some sr \<Longrightarrow> directChecked h \<and> runs img im ino n sr"
    using f i openDirect_runs [OF s] by (auto simp: h_def directReader_def reads_file_def)
  have "bytes_at im n (foffset f) b \<and> length b \<le> k \<and> f' = h\<lparr>foffset := foffset f + int (length b)\<rparr>"
  proof (cases "fdirect h")
    case None
    then obtain off where l: "readLoop img ino (foffset f) k [] = (b, e, off)" "f' = h\<lparr>foffset := off\<rparr>"
      using r ri h(1) by (auto simp: Read_def h_def [symmetric] Let_def split: prod.splits)
    with readLoop_bytes_at [OF s l(1) o] readLoop_result [OF l(1)] show ?thesis
      by (auto simp: bytes_at_def)
  next
    case (Some sr)
    then have rs: "runs img im ino n sr" using h(3) by blast
    obtain data where rd: "reads_data sr data" using runs_reads [OF s rs] by blast
    show ?thesis
    proof (cases "foffset f \<ge> fsize ino")
      case True
      then have "b = [] \<and> f' = h" using r ri h(1) Some by (auto simp: Read_def h_def [symmetric] Let_def)
      then show ?thesis using h(1) by (auto simp: bytes_at_def)
    next
      case False
      define m where "m = (if int k > i64 (fsize ino - foffset f) then nat (i64 (fsize ino - foffset f)) else k)"
      have "m \<le> k" by (auto simp: m_def)
      moreover obtain e' where x: "ra_read sr (foffset f) m = (b, e')" "f' = h\<lparr>foffset := foffset f + int (length b)\<rparr>"
        using r ri h(1) Some False by (auto simp: Read_def h_def [symmetric] Let_def m_def split: prod.splits)
      ultimately show ?thesis
        using runs_bytes_at [OF s rs x(1)] reads_dataD(1) [OF rd x(1)] by auto
    qed
  qed
  then show "reads_file img im f' ino n" "bytes_at im n (foffset f) b" "foffset f' = foffset f + int (length b)" "length b \<le> k"
    using s o h by (auto simp: reads_file_def)
qed

lemma ReadFull_reads:
  assumes "ReadFull img f k acc = Some y" and "reads_file img im f ino n"
  shows "\<exists>d. fst (snd y) = acc @ d \<and> bytes_at im n (foffset f) d \<and> (snd (snd y) = None \<longrightarrow> length d = k)"
proof -
  have "reads_file img im f ino n \<longrightarrow>
    (\<exists>d. fst (snd y) = acc @ d \<and> bytes_at im n (foffset f) d \<and> (snd (snd y) = None \<longrightarrow> length d = k))"
    using assms(1)
  proof (rule ReadFull.raw_induct [rotated], intro impI)
    fix RF img f k acc y
    assume ih: "\<And>img f k acc y. RF img f k acc = Some y \<Longrightarrow> reads_file img im f ino n \<longrightarrow>
        (\<exists>d. fst (snd y) = acc @ d \<and> bytes_at im n (foffset f) d \<and> (snd (snd y) = None \<longrightarrow> length d = k))"
      and step: "(case Read img f k of
        (f, b, e) \<Rightarrow>
          if k \<le> length b then Some (f, acc @ b, None)
          else case e of None \<Rightarrow> RF img f (k - length b) (acc @ b)
               | Some e \<Rightarrow> Some (f, acc @ b, Some (if e = EOF \<and> acc @ b \<noteq> [] then ErrUnexpectedEOF else e))) = Some y"
      and f: "reads_file img im f ino n"
    obtain f' b e where r: "Read img f k = (f', b, e)" by (metis prod_cases3)
    note c = Read_reads [OF f r]
    show "\<exists>d. fst (snd y) = acc @ d \<and> bytes_at im n (foffset f) d \<and> (snd (snd y) = None \<longrightarrow> length d = k)"
    proof (cases "k \<le> length b \<or> e \<noteq> None")
      case True
      then show ?thesis using step c(2,4) by (intro exI [of _ b]) (auto simp: r split: if_splits)
    next
      case False
      then have "RF img f' (k - length b) (acc @ b) = Some y" using step by (auto simp: r)
      from ih [OF this] c(1) obtain d where d: "fst (snd y) = (acc @ b) @ d" "bytes_at im n (foffset f') d"
        "snd (snd y) = None \<longrightarrow> length d = k - length b"
        by auto
      with c(2-4) show ?thesis by (intro exI [of _ "b @ d"]) (auto simp: bytes_at_append)
    qed
  qed
  with assms(2) show ?thesis by blast
qed

text \<open>Reading a whole file.\<close>

lemma readAll_refines:
  assumes f: "reads_file img im f ino n" "foffset f = 0" and r: "readAll img f (nat (fsize ino)) = Some (f', Inr b)"
  shows "sp_ReadAt im n 0 (fsize ino) = Inr b"
proof -
  have s: "same_file img im ino n" using f by (simp add: reads_file_def)
  then have fl: "flat_image im" "mapped_inode n" and z: "sn_Size n = fsize ino" "0 \<le> fsize ino"
    using sim_mapped [of img ino n] by (auto simp: same_file_def inode_sim_def inode_ok_def)
  have "bytes_at im n 0 b \<and> length b = nat (fsize ino)"
  proof (cases "nat (fsize ino) = 0")
    case False
    with r obtain y where "ReadFull img f (nat (fsize ino)) [] = Some y" "snd (snd y) = None" "b = fst (snd y)"
      by (auto simp: readAll_def split: option.splits if_splits)
    with ReadFull_reads [OF this(1) f(1)] f(2) show ?thesis by auto
  qed (use r in \<open>simp add: readAll_def bytes_at_def\<close>)
  with ReadAt_bytes [OF fl, of 0 "nat (fsize ino)" b] z show ?thesis by simp
qed

end
