(* ===== verification/Refine_Open.thy ===== *)
theory Refine_Open
  imports Refine_Read
begin

text \<open>
  Opening an image and decoding an inode, against the reference: what the reader accepts, the
  reference parses to a related image and a related inode (\<open>open_refines\<close>, \<open>inode_refines\<close>). With
  the reads of \<open>Refine_Read\<close> this gives the agreement of a whole file, from the bytes of the
  image to the bytes of the file.
\<close>

section \<open>Inodes\<close>

text \<open>The two ways of taking a format word apart.\<close>

lemma and_one_bit: "(x :: 'a :: len word) AND 1 = 1 \<longleftrightarrow> x AND 1 \<noteq> 0"
  by (simp add: and_one_eq)

lemma format_layout: "(ucast (drop_bit 1 f) AND 7 :: byte) = ucast (drop_bit 1 ((f :: u16) AND 0xE))"
proof -
  have "drop_bit 1 (f AND 0xE) = drop_bit 1 f AND 7" by (simp add: drop_bit_and)
  then show ?thesis by (simp add: unsigned_and_eq)
qed

lemma format_nlink1: "drop_bit 4 (f :: u16) AND 1 = 1 \<longleftrightarrow> f AND 0x10 \<noteq> 0"
proof -
  have "drop_bit 4 f AND 1 = 1 \<longleftrightarrow> bit f 4" by (simp add: and_one_eq bit_iff_odd_drop_bit odd_iff_mod_2_eq_one)
  also have "\<dots> \<longleftrightarrow> f AND 2 ^ 4 \<noteq> 0" by (simp only: and_exp_eq_0_iff_not_bit not_not)
  finally show ?thesis by simp
qed

lemma xattr_body: "xattrBodySize c = Inr x \<Longrightarrow> 0 < c \<Longrightarrow> x = sp_xattrBodySize c"
proof -
  assume a: "xattrBodySize c = Inr x" "0 < c"
  then have "uint (c - 1) = uint c - uint (1 :: u16)"
    by (intro uint_sub_lem [THEN iffD1]) (simp add: word_less_def)
  with a show ?thesis by (auto simp: xattrBodySize_def sp_xattrBodySize_def split: if_splits)
qed

lemma read_bytesAt:
  assumes "image_sim img im" and "ra_read (meta img) addr m = (b, e)" and "0 < k" and "k \<le> length b"
  shows "sp_bytesAt im addr (int k) = Inr (window b 0 k)"
proof -
  have "b \<noteq> []" using assms(3,4) by auto
  with assms(1,2) have w: "0 \<le> addr" "window (im_data im) (nat addr) (length b) = b"
    by (auto simp: image_sim_def dest: reads_dataD(2,3))
  have l: "nat addr + length b \<le> length (im_data im)"
    using arg_cong [OF w(2), of length] \<open>b \<noteq> []\<close> by (cases b) (auto simp: window_def)
  have "window b 0 k = window (im_data im) (nat addr) k"
    using assms(4) by (subst w(2) [symmetric]) (simp add: window_window)
  with l w(1) assms(4) show ?thesis by (auto simp: sp_bytesAt_def sp_sliceAt_def)
qed

lemma nid_small:
  assumes "image_ok img" and "checkNid img nid = Inr ()"
  shows "drop_bit 63 nid = 0"
proof -
  note i = inodeStart_eq(3) [OF assms]
  have "0 \<le> uint (sb_MetaBlkAddr (sb img)) * 2 ^ blkbits img" by simp
  with i have "uint nid * 32 \<le> MaxInt64" unfolding nid_addr_def by linarith
  then have "uint nid < 2 ^ 63" by simp
  then show ?thesis by (simp add: word_uint_eq_iff drop_bit_eq_div uint_div)
qed

lemma sim_loc:
  assumes "image_sim img im" and "image_ok img" and "checkNid img nid = Inr ()"
  shows "i64 (uint (su_MetaBlkAddr (im_Super im)) * su_BlockSize (im_Super im) + i64 (sint nid * 32)) = inodeStart img nid"
proof -
  have "blkbits img \<le> 16" using assms(2) by blast
  with assms(1) show ?thesis
    by (simp add: inodeStart_def metaStartPos_eq image_sim_def)
qed

lemma le_prefix:
  "i + 2 \<le> k \<Longrightarrow> le16 (window b 0 k) i = le16 b i"
  "i + 4 \<le> k \<Longrightarrow> le32 (window b 0 k) i = le32 b i"
  "i + 8 \<le> k \<Longrightarrow> le64 (window b 0 k) i = le64 b i"
  by (simp_all add: le16_def le32_def le64_def window_window)

text \<open>The fields the two decoders take from an inode.\<close>

definition core_sim :: "inode \<Rightarrow> u16 \<Rightarrow> SpInode \<Rightarrow> bool" where
  "core_sim ino xcnt n \<longleftrightarrow>
     sn_Layout n = inodeLayout ino \<and> sn_Size n = fsize ino \<and> sn_isize n = icsize ino \<and>
     sn_XattrSize n = sp_xattrBodySize xcnt \<and> sn_ChunkFormat n = chunkFormat ino \<and>
     sn_StartBlk n = startBlock ino \<and> sn_mask48 n = addr48 ino \<and> sn_Mode n = rawMode ino \<and>
     sn_UID n = iuid ino \<and> sn_GID n = igid ino \<and> uint (sn_Nlink n) = inlink ino"

text \<open>The times of an inode, for a reference that has the reader's epoch: a compact inode's time is
  counted from the epoch, in the width of its type on either side.\<close>

definition epoch_sim :: "image \<Rightarrow> SpImage \<Rightarrow> bool" where
  "epoch_sim img im \<longleftrightarrow>
     su_Epoch (im_Super im) = sint (sb_BuildTime (sb img)) \<and> su_FixedNsec (im_Super im) = sb_BuildTimeNs (sb img)"

definition time_sim :: "inode \<Rightarrow> SpInode \<Rightarrow> bool" where
  "time_sim ino n \<longleftrightarrow> sn_Mtime n = sint (imtime ino) \<and> sn_MtimeNs n = imtimeNs ino"

lemma sint_add_u32: "i64 (sint (e :: u64) + uint (m :: u32)) = sint (e + ucast m)"
proof -
  have "i64 (sint e + uint m) = i64 (uint e + uint (ucast m :: u64))"
    by (simp flip: i64_of_uint64)
  also have "\<dots> = i64 (uint (e + ucast m))"
    by (rule i64_mod_cong) (simp add: uint_word_ariths)
  finally show ?thesis by (simp only: i64_of_uint64)
qed

lemma uint_ucast_u16_u32 [simp]: "uint (ucast (w :: u16) :: u32) = uint w"
  using uint_lt_u16 [of w] by (simp add: unsigned_ucast_eq take_bit_int_eq_self)

lemma decode_compact_sim:
  assumes d: "decodeInode img name nid b (le16 b 0) = Inr (ino, xcnt)" and l: "32 \<le> length b" "le16 b 0 AND 1 = 0"
    and n: "n0 = (sp_new_inode nid loc)\<lparr>sn_Format := le16 b 0, sn_Layout := ucast (drop_bit 1 (le16 b 0 AND 0xE)), sn_Extended := False\<rparr>"
  shows "core_sim ino xcnt (sp_decodeCompact im n0 (window b 0 32)) \<and> sn_loc (sp_decodeCompact im n0 (window b 0 32)) = loc \<and>
    (epoch_sim img im \<longrightarrow> time_sim ino (sp_decodeCompact im n0 (window b 0 32)))"
  using d l
  by (auto simp: epoch_sim_def time_sim_def sint_add_u32 decodeInode_def InodeCompact_Unmarshal_def Let_def sp_decodeCompact_def le_prefix n core_sim_def
      sp_new_inode_def sp_IsDir_def format_nlink1 startBlock_def chunkFormat_def)

lemma decode_extended_sim:
  assumes d: "decodeInode img name nid b (le16 b 0) = Inr (ino, xcnt)" "0 \<le> fsize ino" and l: "le16 b 0 AND 1 \<noteq> 0"
    and raw: "64 \<le> length b \<Longrightarrow> sp_bytesAt im loc 64 = Inr (window b 0 64)"
    and n: "n0 = (sp_new_inode nid loc)\<lparr>sn_Format := le16 b 0, sn_Layout := ucast (drop_bit 1 (le16 b 0 AND 0xE)), sn_Extended := True\<rparr>"
  shows "\<exists>n1. sp_decodeExtended im n0 = Inr n1 \<and> core_sim ino xcnt n1 \<and> sn_loc n1 = loc \<and> time_sim ino n1"
proof -
  have "64 \<le> length b" using d(1) l by (auto simp: decodeInode_def Let_def not_less split: if_splits)
  from raw [OF this] d l this show ?thesis
    by (simp add: decodeInode_def InodeExtended_Unmarshal_def Let_def sp_decodeExtended_def le_prefix n
        sp_new_inode_def) (auto simp: core_sim_def time_sim_def startBlock_def chunkFormat_def)
qed

text \<open>The type of a file with content: a regular file or a directory.\<close>

lemma decode_type_sim:
  assumes c: "core_sim ino0 xcnt n1" "sn_loc n1 = nid_addr img (inid ino)" and im: "image_sim img im" "image_ok img"
    and i: "ino = ino0\<lparr>xsize := sp_xattrBodySize xcnt\<rparr>" and l: "inodeLayout ino \<in> {0, 2, 4}"
    and f: "inodeLayout ino = 4 \<longrightarrow> chunkFormat ino AND NOT 0x7F = 0"
    and t: "rawMode ino AND 0xF000 \<in> {0x4000, 0x8000}"
  shows "\<exists>n. sp_decodeType im n1 = Inr n \<and> inode_sim img ino n \<and> sn_Mode n = rawMode ino \<and>
    sn_UID n = iuid ino \<and> sn_GID n = igid ino \<and> uint (sn_Nlink n) = inlink ino \<and>
    (time_sim ino0 n1 \<longrightarrow> time_sim ino n)"
proof -
  have k: "blkbits img \<le> 16" using im by blast
  have cb: "chunkBits img ino = unat (su_BlockBits (im_Super im)) + unat (chunkFormat ino AND 0x1F)"
    using chunkBits_eq(1) [OF k, of ino] im(1) by (simp add: image_sim_def)
  have cf: "chunkFormat ino = chunkFormat ino0" "startBlock ino = startBlock ino0" "nullAddress ino = nullAddress ino0"
    "chunkBits img ino = chunkBits img ino0"
    by (simp_all add: i chunkFormat_def startBlock_def nullAddress_def chunkBits_def)
  define null where "null = (sn_StartBlk n1 AND (if sn_mask48 n1 then push_bit 48 1 - 1 else push_bit 32 1 - 1) =
      (if sn_mask48 n1 then push_bit 48 1 - 1 else push_bit 32 1 - 1))"
  have nu: "nullAddress ino0 \<longleftrightarrow> sn_Layout n1 = 0 \<and> null"
    using c(1) by (simp add: nullAddress_def nullStartBlock_def null_def core_sim_def Let_def)
  define n where "n = (if sn_Mode n1 AND 0xF000 = 0x4000 then n1\<lparr>sn_DotOmitted := (drop_bit 4 (sn_Format n1) AND 1 = 1)\<rparr> else n1)"
  define n' where "n' = (if sn_Layout n = 0 \<and> null then n\<lparr>sn_StartBlk := SpNullAddr\<rparr> else n)\<lparr>sn_Rdev := 0\<rparr>"
  define n2 where "n2 = (if sn_Layout n' = 4 then n'\<lparr>sn_ChunkBits := unat (su_BlockBits (im_Super im)) + unat (sn_ChunkFormat n' AND 0x1F)\<rparr> else n')"
  have same: "sn_Layout n' = sn_Layout n1" "sn_ChunkFormat n' = sn_ChunkFormat n1" "sn_Mode n' = sn_Mode n1"
    "sn_StartBlk n' = (if sn_Layout n1 = 0 \<and> null then SpNullAddr else sn_StartBlk n1)"
    "sn_Size n' = sn_Size n1" "sn_loc n' = sn_loc n1" "sn_isize n' = sn_isize n1" "sn_XattrSize n' = sn_XattrSize n1"
    "sn_UID n' = sn_UID n1" "sn_GID n' = sn_GID n1" "sn_Nlink n' = sn_Nlink n1"
    "sn_Mtime n' = sn_Mtime n1" "sn_MtimeNs n' = sn_MtimeNs n1"
    by (simp_all add: n'_def n_def)
  have m: "sn_Mode n1 AND 0xF000 = 0x4000 \<or> sn_Mode n1 AND 0xF000 = 0x8000" and l1: "sn_Layout n1 \<in> {0, 2, 4}"
    and f1: "sn_Layout n1 = 4 \<longrightarrow> sn_ChunkFormat n1 AND NOT 0x7F = 0"
    using t l f c(1) cf(1) by (auto simp: core_sim_def i)
  have "sp_decodeType im n1 = Inr n2"
  proof -
    have ns: "\<not> sp_IsSymlink n2" using m same(3) by (auto simp: n2_def sp_IsSymlink_def)
    have a: "sp_decodeType im n1 =
        bindE (Inr n') (\<lambda>n. if sn_Layout n = 1 \<or> sn_Layout n = 3 then Inl SpUnsupported
         else bindE (if sn_Layout n = 4 then
                       (if sn_ChunkFormat n AND NOT 0x7F \<noteq> 0 then Inl SpUnsupported
                        else Inr (n\<lparr>sn_ChunkBits := unat (su_BlockBits (im_Super im)) + unat (sn_ChunkFormat n AND 0x1F)\<rparr>))
                     else Inr n) (\<lambda>n.
         if sp_IsSymlink n then sp_decodeInlineSymlink im n else Inr n))"
      unfolding sp_decodeType_def Let_def n'_def n_def null_def using m
      by (intro arg_cong2 [where f = bindE] refl) (elim disjE; simp)
    show ?thesis
      unfolding a bindE_simps using l1 f1 ns same(1,2)
      by (cases "sn_Layout n1 = 4") (auto simp: n2_def)
  qed
  moreover have "inode_sim img ino n2"
    using c same nu cb cf by (auto simp: inode_sim_def n2_def core_sim_def i)
  moreover have "sn_Mode n2 = rawMode ino" "sn_UID n2 = iuid ino" "sn_GID n2 = igid ino" "uint (sn_Nlink n2) = inlink ino"
    "time_sim ino0 n1 \<longrightarrow> time_sim ino n2"
    using c(1) same by (simp_all add: n2_def core_sim_def time_sim_def i)
  ultimately show ?thesis by blast
qed


text \<open>A regular file or directory the reader accepts is one the reference decodes, to the same
  inode.\<close>

lemma inode_refines:
  assumes im: "image_sim img im" "image_ok img" and r: "readInode img name nid ft = (c, Inr ino)"
    and t: "rawMode ino AND 0xF000 \<in> {0x4000, 0x8000}"
  shows "\<exists>n. sp_Inode_core im nid = Inr n \<and> inode_sim img ino n \<and> sn_Mode n = rawMode ino \<and>
    sn_UID n = iuid ino \<and> sn_GID n = igid ino \<and> uint (sn_Nlink n) = inlink ino \<and>
    (epoch_sim img im \<longrightarrow> time_sim ino n)"
proof -
  have c: "c = Some ino" by (rule readInode_cached [OF r])
  have io: "inode_ok img ino" "inid ino = nid" by (rule readInode_ok [OF r])+
  have cn: "checkNid img nid = Inr ()" using io by (auto simp: inode_ok_def)
  obtain room b e where rd: "ra_read (meta img) (inodeStart img nid) room = (b, e)"
    and di: "decodeInfo img name nid ft b = (Some ino, Inr ino)"
    using r c cn by (auto simp: readInode_def Let_def split: prod.splits option.splits if_splits)
  obtain ino0 xcnt where d: "32 \<le> length b" "checkInodeFormat (le16 b 0) = Inr ()"
    "decodeInode img name nid b (le16 b 0) = Inr (ino0, xcnt)" "0 \<le> fsize ino0" "finishInfo ino0 b xcnt = (ino, Inr ())"
    using di by (auto simp: decodeInfo_def Let_def split: if_splits sum.splits prod.splits)
  have x0: "xsize ino0 = 0" using decodeInode_ok [OF d(3,2)] by blast
  have ino: "ino = ino0\<lparr>xsize := sp_xattrBodySize xcnt\<rparr>"
    using d(5) xattr_body [of xcnt] x0
    by (auto simp: finishInfo_def sp_xattrBodySize_def word_gt_0 split: if_splits sum.splits)
  have st: "inodeStart img nid = nid_addr img (inid ino)" using inodeStart_eq(1) [OF im(2) cn] io(2) by simp
  define loc where "loc = inodeStart img nid"
  define n0 where "n0 = (sp_new_inode nid loc)\<lparr>sn_Format := le16 b 0, sn_Layout := ucast (drop_bit 1 (le16 b 0 AND 0xE)),
      sn_Extended := (le16 b 0 AND 1 = 1)\<rparr>"
  have lay: "(ucast (drop_bit 1 (le16 b 0 AND 0xE)) :: byte) \<in> {0, 2, 4}" by (rule checkInodeFormat_layout [OF d(2)])
  have fm: "le16 b 0 AND NOT 0x1F = 0" using d(2) by (auto simp: checkInodeFormat_def split: if_splits)
  have sl: "sn_loc (sp_new_inode nid loc) = loc" by (simp add: sp_new_inode_def)
  have raw: "sp_bytesAt im loc 32 = Inr (window b 0 32)"
    using read_bytesAt [OF im(1) rd, of 32] d(1) by (simp add: loc_def)
  have lt5: "\<not> (5 :: byte) \<le> ucast (drop_bit 1 (le16 b 0 AND 0xE))" using lay by auto
  have core: "sp_Inode_core im nid =
      bindE (if sn_Extended n0 then sp_decodeExtended im n0 else Inr (sp_decodeCompact im n0 (window b 0 32))) (sp_decodeType im)"
    unfolding sp_Inode_core_def nid_small [OF im(2) cn] sim_loc [OF im cn] loc_def [symmetric] Let_def sl raw bindE_simps
      format_layout
    using fm lt5 by (simp add: le_prefix n0_def)
  have "\<exists>n1. (if sn_Extended n0 then sp_decodeExtended im n0 else Inr (sp_decodeCompact im n0 (window b 0 32))) = Inr n1 \<and>
      core_sim ino0 xcnt n1 \<and> sn_loc n1 = loc \<and> (epoch_sim img im \<longrightarrow> time_sim ino0 n1)"
  proof (cases "le16 b 0 AND 1 = 0")
    case True
    then show ?thesis using decode_compact_sim [OF d(3,1) True, of n0 loc im] by (simp add: n0_def)
  next
    case False
    then have e: "le16 b 0 AND 1 = 1" by (simp add: and_one_bit)
    have "sp_bytesAt im loc 64 = Inr (window b 0 64)" if "64 \<le> length b"
      using read_bytesAt [OF im(1) rd, of 64] that by (simp add: loc_def)
    from decode_extended_sim [OF d(3,4) False this, of n0] e show ?thesis by (simp add: n0_def) blast
  qed
  then obtain n1 where n1: "sp_Inode_core im nid = sp_decodeType im n1" "core_sim ino0 xcnt n1" "sn_loc n1 = nid_addr img (inid ino)"
    and tm: "epoch_sim img im \<longrightarrow> time_sim ino0 n1"
    using core st by (auto simp: loc_def)
  have "inodeLayout ino \<in> {0, 2, 4}" "inodeLayout ino = 4 \<longrightarrow> chunkFormat ino AND NOT 0x7F = 0"
    using io(1) by (auto simp: inode_ok_def chunkFormat_def)
  from decode_type_sim [OF n1(2,3) im ino this t] n1(1) tm show ?thesis by auto
qed


section \<open>Opening\<close>


lemma unat_pow2: "i < 64 \<Longrightarrow> unat ((2 :: u64) ^ i) = 2 ^ i"
proof -
  assume "i < 64"
  then have "(2 :: nat) ^ i < 2 ^ 64" by (intro power_strict_increasing) auto
  moreover have "(2 :: u64) ^ i = of_nat (2 ^ i)" by simp
  ultimately show ?thesis by (simp only: unat_of_nat) (simp add: take_bit_nat_eq_self)
qed

lemma pow2_from:
  assumes "i + fuel \<ge> 17" and "i \<le> 16" and "unat (v :: u64) \<le> 65536" and "\<forall>j < i. 2 ^ j < unat v"
  shows "\<exists>k \<le> 16. sp_pow2_from fuel (2 ^ i) v = 2 ^ k \<and> unat v \<le> 2 ^ k \<and> (\<forall>j < k. 2 ^ j < unat v)"
  using assms
proof (induction fuel arbitrary: i)
  case 0
  then show ?case by simp
next
  case (Suc fuel)
  have u: "unat ((2 :: u64) ^ i) = 2 ^ i"
    using Suc.prems(2) by (intro unat_pow2) simp
  show ?case
  proof (cases "(2 :: u64) ^ i < v")
    case True
    then have lt: "2 ^ i < unat v" using u by (simp add: word_less_nat_alt)
    have "i < 16"
    proof (rule ccontr)
      assume "\<not> i < 16"
      then have "i = 16" using Suc.prems(2) by simp
      with lt Suc.prems(3) show False by simp
    qed
    moreover have "\<forall>j < Suc i. 2 ^ j < unat v" using Suc.prems(4) lt by (auto simp: less_Suc_eq)
    ultimately show ?thesis
      using Suc.IH [of "Suc i"] Suc.prems True by (simp add: push_bit_eq_mult mult.commute)
  next
    case False
    then have "unat v \<le> 2 ^ i" using u by (simp add: word_le_nat_alt not_less)
    with False Suc.prems show ?thesis by auto
  qed
qed

lemma unat_pred: "unat (x :: 'a :: len word) = 2 ^ k \<Longrightarrow> unat (x - 1) = 2 ^ k - 1"
  by (subst unat_minus_one) auto

lemma masks_agree:
  "(ucast (sp_roundupPow2 (ucast (n :: u16) + 1) - 1) :: u16) = ucast (roundupPowerOfTwo (ucast n + 1) - 1)"
proof -
  have lt: "unat n < 65536" by (rule unat_lt_u16)
  have u: "unat (ucast n :: u64) = unat n" "unat (ucast n :: u32) = unat n"
    using lt by (simp_all add: unsigned_ucast_eq take_bit_nat_eq_self)
  have v64: "unat (ucast n + 1 :: u64) = unat n + 1" and v32: "unat (ucast n + 1 :: u32) = unat n + 1"
    using lt u by (simp_all add: unat_word_ariths)
  obtain k where k: "k \<le> 16" "sp_roundupPow2 (ucast n + 1) = 2 ^ k" "unat n + 1 \<le> 2 ^ k" "\<forall>j < k. 2 ^ j < unat n + 1"
    using pow2_from [of 0 64 "ucast n + 1"] lt by (auto simp: sp_roundupPow2_def v64)
  obtain m where m: "unat (roundupPowerOfTwo (ucast n + 1)) = 2 ^ m" "unat n + 1 \<le> 2 ^ m" "\<forall>j. unat n + 1 \<le> 2 ^ j \<longrightarrow> m \<le> j"
    using roundupPowerOfTwo_least [of "ucast n + 1"] lt by (auto simp: v32)
  have "m \<le> k" using m(3) k(3) by blast
  moreover have "\<not> m < k" using k(4) m(2) by (meson linorder_not_le)
  ultimately have "m = k" by simp
  have u: "unat (sp_roundupPow2 (ucast n + 1)) = 2 ^ k" using k(1,2) unat_pow2 [of k] by simp
  have "unat (sp_roundupPow2 (ucast n + 1) - 1) = 2 ^ k - 1" "unat (roundupPowerOfTwo (ucast n + 1) - 1) = 2 ^ k - 1"
    using unat_pred [OF u] unat_pred [OF m(1)] \<open>m = k\<close> by simp_all
  then show ?thesis by (simp add: word_unat_eq_iff unsigned_ucast_eq)
qed


lemma read_sliceAt_full:
  assumes "reads_data rd data" and "ra_read rd off n = (b, None)" and "0 < n"
  shows "length b = n" and "sp_sliceAt data off (int n) = Inr b"
proof -
  show l: "length b = n" using reads_dataD(1,4) [OF assms(1,2)] by fastforce
  show "sp_sliceAt data off (int n) = Inr b" by (rule read_sliceAt [OF assms(1,2) l assms(3)])
qed

lemma checksum_agrees:
  assumes r: "reads_data rd data" and v: "verifySuperblockChecksum rd s = Inr ()"
    and c: "sb_FeatureCompat s AND 1 \<noteq> 0" and b: "9 \<le> unat (sb_BlkSizeBits s)"
  shows "sp_verifyChecksum data (2 ^ unat (sb_BlkSizeBits s)) (sb_Checksum s) = Inr ()"
proof -
  define n where "n = checksumSpan (unat (sb_BlkSizeBits s))"
  have p: "(2 :: nat) ^ 9 \<le> 2 ^ unat (sb_BlkSizeBits s)" using b by (intro power_increasing) auto
  have b1: "unat (sb_BlkSizeBits s) \<le> 10 \<Longrightarrow> (2 :: nat) ^ unat (sb_BlkSizeBits s) \<le> 2 ^ 10"
    and b2: "\<not> unat (sb_BlkSizeBits s) \<le> 10 \<Longrightarrow> (2 :: nat) ^ 11 \<le> 2 ^ unat (sb_BlkSizeBits s)"
    by (intro power_increasing; simp)+
  define B where "B = (2 :: nat) ^ unat (sb_BlkSizeBits s)"
  have B: "512 \<le> B" "B \<le> 1024 \<or> 2048 \<le> B" "(2 :: int) ^ unat (sb_BlkSizeBits s) = int B"
    using p b1 b2 by (auto simp: B_def)
  have nB: "n = (if B > 1024 then B - 1024 else B) - 8"
    by (simp add: n_def checksumSpan_def Let_def B_def)
  have n: "0 < n" using B(1,2) unfolding nB by auto
  have ni: "int n = (if 2 ^ unat (sb_BlkSizeBits s) > (1024 :: int) then 2 ^ unat (sb_BlkSizeBits s) - 1024
      else 2 ^ unat (sb_BlkSizeBits s)) - 8"
    unfolding B(3) nB using B(1,2) by (auto simp: of_nat_diff)
  obtain d e where d: "ra_read rd 1032 n = (d, e)" "length d = n" "superblockChecksum d = sb_Checksum s"
    using v c by (auto simp: verifySuperblockChecksum_def n_def Let_def split: prod.splits option.splits if_splits)
  have "sp_sliceAt data 1032 (int n) = Inr d" by (rule read_sliceAt [OF r d(1,2) n])
  with d(3) show ?thesis by (simp add: sp_verifyChecksum_def Let_def ni superblockChecksum_def)
qed

lemma incompat_known:
  "w AND NOT FeatureIncompatAll = 0 \<Longrightarrow> w AND NOT 0x1FF = 0 \<and> w AND 0x80 = 0 \<and> w AND 0x100 = 0"
proof -
  assume a: "w AND NOT FeatureIncompatAll = 0"
  have "w AND NOT 0x1FF = (w AND NOT FeatureIncompatAll) AND NOT 0x1FF"
    "w AND 0x80 = (w AND NOT FeatureIncompatAll) AND 0x80" "w AND 0x100 = (w AND NOT FeatureIncompatAll) AND 0x100"
    by (simp_all add: and.assoc FeatureIncompatAll_def)
  with a show ?thesis by simp
qed

lemma openDevices_sim:
  assumes r: "reads_data rd data" and o: "openDevices i rd toff idx given = Inr devs"
  shows "\<exists>ds. sp_devices_from data False (length given) (toff + int idx * 128) = Inr ds \<and>
    length ds = length given \<and> length devs = length given \<and>
    (\<forall>j < length given. sd_Blocks (ds ! j) = ucast (dblocks (devs ! j)) \<and>
       sd_UniAddr (ds ! j) = ucast (mappedBlkAddr (devs ! j)) \<and>
       device (devs ! j) = (case given ! j of None \<Rightarrow> flatWindow i rd (mappedBlkAddr (devs ! j)) | Some d \<Rightarrow> d))"
  using o
proof (induction given arbitrary: idx devs)
  case (Cons g given)
  obtain b where b: "ra_read rd (toff + int idx * 128) 128 = (b, None)"
    using Cons.prems by (auto simp: Let_def split: prod.splits option.splits)
  note f = read_sliceAt_full [OF r b]
  have ri: "read_into 128 b = b" using f(1) by (simp add: read_into_def put_at_eq)
  define info where "info = \<lparr> device = (case g of None \<Rightarrow> flatWindow i rd (le32 b 68) | Some d \<Rightarrow> d),
    dsize = fst (imageSize (case g of None \<Rightarrow> flatWindow i rd (le32 b 68) | Some d \<Rightarrow> d)),
    mappedBlkAddr = le32 b 68, dblocks = le32 b 64 \<rparr>"
  obtain infos where inf: "openDevices i rd toff (Suc idx) given = Inr infos" "devs = info # infos"
    using Cons.prems b f(1)
    by (cases g) (auto simp: Let_def ri DeviceSlot_Unmarshal_def info_def)
  obtain ds where ds: "sp_devices_from data False (length given) (toff + int (Suc idx) * 128) = Inr ds"
    "length ds = length given" "length infos = length given"
    "\<forall>j < length given. sd_Blocks (ds ! j) = ucast (dblocks (infos ! j)) \<and>
       sd_UniAddr (ds ! j) = ucast (mappedBlkAddr (infos ! j)) \<and>
       device (infos ! j) = (case given ! j of None \<Rightarrow> flatWindow i rd (mappedBlkAddr (infos ! j)) | Some d \<Rightarrow> d)"
    using Cons.IH [OF inf(1)] by blast
  have e: "toff + int idx * 128 + 128 = toff + int (Suc idx) * 128" by simp
  define d where "d = \<lparr> sd_Tag = window b 0 64, sd_Blocks = ucast (le32 b 64), sd_UniAddr = ucast (le32 b 68) \<rparr>"
  have "sp_devices_from data False (length (g # given)) (toff + int idx * 128) = Inr (d # ds)"
    using f(2) ds(1) by (simp add: Let_def e d_def del: of_nat_Suc)
  moreover have "\<forall>j < length (g # given). sd_Blocks ((d # ds) ! j) = ucast (dblocks ((info # infos) ! j)) \<and>
       sd_UniAddr ((d # ds) ! j) = ucast (mappedBlkAddr ((info # infos) ! j)) \<and>
       device ((info # infos) ! j) = (case (g # given) ! j of None \<Rightarrow> flatWindow i rd (mappedBlkAddr ((info # infos) ! j)) | Some d \<Rightarrow> d)"
    using ds(4) by (auto simp: nth_Cons' d_def info_def split: option.splits)
  ultimately show ?case using ds(2,3) inf(2) by auto
qed simp

lemma reads_data_prefix:
  assumes "reads_data rd (take k data)"
  shows "reads_data rd data"
  unfolding reads_data_def
proof (intro allI)
  fix off n
  obtain b e where r: "ra_read rd off n = (b, e)" by fastforce
  have "b \<noteq> [] \<Longrightarrow> window data (nat off) (length b) = b"
  proof -
    assume ne: "b \<noteq> []"
    have w: "window (take k data) (nat off) (length b) = b" by (rule reads_dataD(3) [OF assms r ne])
    have "nat off + length b \<le> k" using arg_cong [OF w, of length] ne by (cases b) (auto simp: window_def)
    with w show ?thesis by (simp add: window_take)
  qed
  with reads_dataD [OF assms r] r show "case ra_read rd off n of (b, e) \<Rightarrow> length b \<le> n \<and>
      (b \<noteq> [] \<longrightarrow> 0 \<le> off \<and> window data (nat off) (length b) = b) \<and> (length b < n \<longrightarrow> e \<noteq> None)"
    by auto
qed

lemma flatWindow_reads:
  assumes r: "reads_data rd data" and k: "blkbits i \<le> 16" and sz: "0 \<le> isize i" "isize i \<le> MaxInt64"
  shows "reads_data (flatWindow i rd m) (drop (nat (uint m * 2 ^ blkbits i)) data)"
proof -
  define s where "s = uint m * 2 ^ blkbits i"
  have s: "0 \<le> s" "s \<le> 281474976645120" "shl64 (uint m) (blkbits i) = s"
    using shl64_u32_bounds [OF k, of m] shl64_u32 [OF k, of m] by (auto simp: s_def)
  define len where "len = (if isize i > 0 then max (i64 (isize i - s)) 0 else i64 (MaxInt64 - s))"
  have "i64 (isize i - s) = isize i - s" using s sz by (intro i64_id) auto
  moreover have "i64 (MaxInt64 - s) = MaxInt64 - s" using s by (intro i64_id) auto
  ultimately have len: "0 \<le> len" "s + len \<le> MaxInt64" using s sz by (auto simp: len_def)
  have "reads_data (section_reader rd s len) (window data (nat s) (nat len))"
    by (rule section_reader_contract [OF r s(1) len])
  moreover have "window data (nat s) (nat len) = take (nat len) (drop (nat s) data)" by (simp add: window_def)
  ultimately have "reads_data (section_reader rd s len) (drop (nat s) data)" by (metis reads_data_prefix)
  then show ?thesis by (simp add: flatWindow_def Let_def s(3) len_def flip: s_def split: if_splits)
qed


definition super_sim :: "SuperBlock \<Rightarrow> Super \<Rightarrow> bool" where
  "super_sim s t \<longleftrightarrow>
     su_BlockBits t = sb_BlkSizeBits s \<and> su_BlockSize t = 2 ^ unat (sb_BlkSizeBits s) \<and>
     su_MetaBlkAddr t = sb_MetaBlkAddr s \<and> su_XattrBlkAddr t = sb_XattrBlkAddr s \<and>
     su_FeatureCompat t = sb_FeatureCompat s \<and> su_FeatureIncompat t = sb_FeatureIncompat s \<and>
     su_ExtraDevices t = sb_ExtraDevices s \<and> su_DevtSlotOff t = sb_DevtSlotOff s \<and>
     su_RootNid t = ucast (sb_RootNid s) \<and> su_Blocks t = ucast (sb_Blocks s) \<and>
     su_XattrPrefixCount t = sb_XattrPrefixCount s \<and> su_XattrPrefixStart t = sb_XattrPrefixStart s \<and>
     su_Inos t = sb_Inos s \<and> su_Epoch t = sint (sb_BuildTime s) \<and> su_FixedNsec t = sb_BuildTimeNs s \<and>
     su_PackedNid t = sb_PackedNid s \<and> su_DeviceIDMask t = 0"

lemma openSuper_checks:
  assumes "openSuper r extra = Inr img"
  obtains b s where "ra_read r 1024 128 = (b, None)" "length b = 128" "SuperBlock_Unmarshal b = Inr s"
    "sb_MagicNumber s = MagicNumber"
    "9 \<le> unat (sb_BlkSizeBits s)" "unat (sb_BlkSizeBits s) \<le> 16"
    "verifySuperblockChecksum r s = Inr ()" "openTable r extra s = Inr img"
    "sb_FeatureIncompat s AND NOT FeatureIncompatAll = 0"
    "128 + int (unat (sb_ExtSlots s)) * 16 \<le> max (2 ^ unat (sb_BlkSizeBits s)) 4096 - 1024"
    "\<not> (sb_FeatureCompat s AND 0x20 \<noteq> 0 \<and> sb_IshareXattrPrefixID s \<ge> sb_XattrPrefixCount s)"
    "sb_DirBlkBits s = 0"
proof -
  obtain b s where b: "ra_read r 1024 128 = (b, None)" "length b = 128" "decodeSuperBlock b = Inr s"
    and k: "9 \<le> unat (sb_BlkSizeBits s)" "unat (sb_BlkSizeBits s) \<le> 16"
    and c: "verifySuperblockChecksum r s = Inr ()" "openTable r extra s = Inr img"
    using openSuperE [OF assms] by metis
  have d: "SuperBlock_Unmarshal b = Inr s" "sb_MagicNumber s = MagicNumber"
    using b(3) by (auto simp: decodeSuperBlock_def split: if_splits)
  have i: "sb img = s" "image_ok img" using openTable_ok [OF c(2) k] by auto
  have rest: "sb_FeatureIncompat s AND NOT FeatureIncompatAll = 0"
    "128 + int (unat (sb_ExtSlots s)) * 16 \<le> max (2 ^ unat (sb_BlkSizeBits s)) 4096 - 1024"
    "\<not> (sb_FeatureCompat s AND 0x20 \<noteq> 0 \<and> sb_IshareXattrPrefixID s \<ge> sb_XattrPrefixCount s)"
    using assms b c unfolding openSuper_def by (auto split: if_splits)
  have "sb_DirBlkBits s = 0" using i by (simp add: image_ok_def)
  then show ?thesis using that b(1,2) d k c rest by metis
qed

lemma parseSuper_sim:
  assumes r: "reads_data rd data" and o: "openSuper rd extra = Inr img"
  shows "\<exists>t. sp_parseSuper data = Inr t \<and> super_sim (sb img) t"
proof -
  obtain b s where b: "ra_read rd 1024 128 = (b, None)" "length b = 128" "SuperBlock_Unmarshal b = Inr s"
    and m: "sb_MagicNumber s = MagicNumber"
    and k: "9 \<le> unat (sb_BlkSizeBits s)" "unat (sb_BlkSizeBits s) \<le> 16"
    and c: "verifySuperblockChecksum rd s = Inr ()" and t: "openTable rd extra s = Inr img"
    and f: "sb_FeatureIncompat s AND NOT FeatureIncompatAll = 0"
    and e: "128 + int (unat (sb_ExtSlots s)) * 16 \<le> max (2 ^ unat (sb_BlkSizeBits s)) 4096 - 1024"
    and x: "\<not> (sb_FeatureCompat s AND 0x20 \<noteq> 0 \<and> sb_IshareXattrPrefixID s \<ge> sb_XattrPrefixCount s)"
    and d: "sb_DirBlkBits s = 0"
    using openSuper_checks [OF o] by metis
  have sl: "sp_sliceAt data 1024 128 = Inr b" using read_sliceAt_full(2) [OF r b(1)] by simp
  have s: "s = \<lparr> sb_MagicNumber = le32 b 0, sb_Checksum = le32 b 4, sb_FeatureCompat = le32 b 8,
      sb_BlkSizeBits = b ! 12, sb_ExtSlots = b ! 13, sb_RootNid = le16 b 14, sb_Inos = le64 b 16,
      sb_BuildTime = le64 b 24, sb_BuildTimeNs = le32 b 32, sb_Blocks = le32 b 36,
      sb_MetaBlkAddr = le32 b 40, sb_XattrBlkAddr = le32 b 44, sb_UUID = window b 48 16,
      sb_VolumeName = window b 64 16, sb_FeatureIncompat = le32 b 80, sb_ComprAlgs = le16 b 84,
      sb_ExtraDevices = le16 b 86, sb_DevtSlotOff = le16 b 88, sb_DirBlkBits = b ! 90,
      sb_XattrPrefixCount = b ! 91, sb_XattrPrefixStart = le32 b 92, sb_PackedNid = le64 b 96,
      sb_XattrFilterRes = b ! 104, sb_IshareXattrPrefixID = b ! 105, sb_Reserved = window b 106 22 \<rparr>"
    using b(2,3) by (simp add: SuperBlock_Unmarshal_def)
  have sbs: "sb img = s" using openTable_ok(3) [OF t k] .
  note inc = incompat_known [OF f]
  have cs: "(if le32 b 8 AND 1 \<noteq> 0 then sp_verifyChecksum data (2 ^ unat (b ! 12)) (le32 b 4) else Inr ()) = Inr ()"
    using checksum_agrees [OF r c] k(1) by (simp add: s)
  have kb: "\<not> (b ! 12 < 9 \<or> b ! 12 > 16)" using k by (simp add: s word_less_nat_alt)
  have "\<not> (128 + int (unat (b ! 13)) * 16 > max (2 ^ unat (b ! 12)) 4096 - 1024)"
    using e by (simp only: not_less s SuperBlock.select_convs)
  note ok = this
  have ok2: "le32 b 0 = 0xE0F5E1E2" "b ! 90 = 0"
    "le32 b 80 AND NOT 0x1FF = 0" "le32 b 80 AND 0x80 = 0" "le32 b 80 AND 0x100 = 0"
    "\<not> (le32 b 8 AND 0x20 \<noteq> 0 \<and> b ! 105 \<ge> b ! 91)"
    using m d inc x by (simp_all add: s)
  show ?thesis
    unfolding sp_parseSuper_def sl Let_def bindE_simps if_not_P [OF ok] cs sp_deriveSuper_def super_sim_def sbs
    using kb ok2 by (simp add: s)
qed

lemma mask_one: "roundupPowerOfTwo 1 - 1 = 0"
  by code_simp

lemma openTableE:
  assumes "openTable r extra s = Inr img" and "9 \<le> unat (sb_BlkSizeBits s)" "unat (sb_BlkSizeBits s) \<le> 16"
  obtains i devs given where "sb i = s" "isize i = fst (imageSize r)"
    "openDevices i r (uint (sb_DevtSlotOff s) * 128) 0 given = Inr devs" "devices img = devs"
    "given = (if extra = [] then replicate (length devs) None else map Some extra)" "longPrefixes img = []"
proof -
  define nd where "nd = (if sb_FeatureIncompat s AND FeatureIncompatDeviceTable = 0 then 0
           else unat (sb_ExtraDevices s))"
  define i where "i = \<lparr> sb = s, isize = fst (imageSize r), meta = r, devices = [],
      deviceIDMask = (if sb_FeatureIncompat s AND FeatureIncompatDeviceTable = 0 then 0
           else ucast (roundupPowerOfTwo (ucast (sb_ExtraDevices s) + 1) - 1)), longPrefixes = [] \<rparr>"
  define given where "given = (if extra = [] \<and> nd > 0 then replicate nd None else map Some extra)"
  have "openTable r extra s =
      (if \<not> (extra = [] \<and> nd > 0) \<and> nd \<noteq> length extra then Inl ErrInvalidSuperblock
       else bindE (openDevices i r (uint (sb_DevtSlotOff s) * 128) 0 given) (\<lambda>devs.
         if sb_FeatureIncompat s AND FeatureIncompatLZ4_0Padding \<noteq> 0 \<or> sb_ComprAlgs s \<noteq> 0
         then Inl ErrNotImplemented else openGeometry (i\<lparr>devices := devs\<rparr>)))"
    unfolding openTable_def Let_def i_def given_def nd_def by simp
  then obtain devs where d: "openDevices i r (uint (sb_DevtSlotOff s) * 128) 0 given = Inr devs"
    and g: "openGeometry (i\<lparr>devices := devs\<rparr>) = Inr img"
    and "\<not> (\<not> (extra = [] \<and> nd > 0) \<and> nd \<noteq> length extra)"
    using assms(1) by (auto split: if_splits)
  then have n: "length given = nd" by (auto simp: given_def)
  have l: "length devs = length given" by (rule openDevices_length [OF d])
  have i: "sb i = s" "isize i = fst (imageSize r)" by (simp_all add: i_def)
  have "length given < 65536" using n unat_lt_u16 [of "sb_ExtraDevices s"] by (simp add: nd_def)
  then have "img = i\<lparr>devices := devs, isize := isize img\<rparr>"
    using openGeometry_ok [OF g] assms(2,3) i l by simp
  then obtain z where z: "img = i\<lparr>devices := devs, isize := z\<rparr>" by blast
  have "devices img = devs" "longPrefixes img = []" by (simp_all add: z i_def)
  moreover have "given = (if extra = [] then replicate (length devs) None else map Some extra)"
    using n l by (auto simp: given_def)
  ultimately show ?thesis using that i d by blast
qed

lemma open_refines:
  assumes r: "reads_data rd data" and ex: "list_all2 reads_data extra extraData"
    and o: "openSuper rd extra = Inr img" and sz: "0 \<le> fst (imageSize rd)" "fst (imageSize rd) \<le> MaxInt64"
  shows "\<exists>im. sp_Parse_head data extraData = Inr im \<and> image_sim img im \<and> im_data im = data \<and>
    super_sim (sb img) (im_Super im\<lparr>su_DeviceIDMask := 0\<rparr>)"
proof -
  obtain t where t: "sp_parseSuper data = Inr t" "super_sim (sb img) t"
    using parseSuper_sim [OF r o] by blast
  obtain s where k: "9 \<le> unat (sb_BlkSizeBits s)" "unat (sb_BlkSizeBits s) \<le> 16"
    and ot: "openTable rd extra s = Inr img" and f: "sb_FeatureIncompat s AND NOT FeatureIncompatAll = 0"
    using openSuper_checks [OF o] by metis
  have sbs: "sb img = s" and m: "meta img = rd" using openTable_ok [OF ot k] by auto
  note mask = openTable_ok(5) [OF ot k] and len = openTable_ok(6) [OF ot k]
  obtain i devs given where i: "sb i = s" "isize i = fst (imageSize rd)"
    and od: "openDevices i rd (uint (sb_DevtSlotOff s) * 128) 0 given = Inr devs" and dv: "devices img = devs"
    and g: "given = (if extra = [] then replicate (length devs) None else map Some extra)"
    using openTableE [OF ot k] by metis
  have lex: "length extraData = length extra" using ex by (simp add: list_all2_lengthD)
  obtain ds where ds: "sp_devices_from data False (length devs) (uint (sb_DevtSlotOff s) * 128) = Inr ds"
    "length ds = length devs" "length given = length devs"
    "\<forall>j < length devs. sd_Blocks (ds ! j) = ucast (dblocks (devs ! j)) \<and>
       sd_UniAddr (ds ! j) = ucast (mappedBlkAddr (devs ! j)) \<and>
       device (devs ! j) = (case given ! j of None \<Rightarrow> flatWindow i rd (mappedBlkAddr (devs ! j)) | Some d \<Rightarrow> d)"
  proof -
    have l: "length given = length devs" using openDevices_length [OF od] by simp
    have z: "uint (sb_DevtSlotOff s) * 128 + int 0 * 128 = uint (sb_DevtSlotOff s) * 128" by simp
    from openDevices_sim [OF r od, unfolded z l] show ?thesis by (elim exE conjE, intro that [OF _ _ l])
  qed
  have le: "extra \<noteq> [] \<Longrightarrow> length extra = length devs" using ds(3) by (simp add: g)
  define im where "im = \<lparr> im_Super = t\<lparr>su_DeviceIDMask := deviceIDMask img\<rparr>, im_Devices = ds, im_Prefixes = [],
    im_data = data, im_extra = extraData \<rparr>"
  have st: "su_FeatureIncompat t = sb_FeatureIncompat s" "su_ExtraDevices t = sb_ExtraDevices s"
    "su_DevtSlotOff t = sb_DevtSlotOff s" "su_BlockSize t = 2 ^ unat (sb_BlkSizeBits s)" "su_DeviceIDMask t = 0"
    using t(2) by (simp_all add: super_sim_def sbs)
  have P: "sp_Parse_head data extraData = Inr im"
  proof (cases "sb_FeatureIncompat s AND 8 = 0 \<or> sb_ExtraDevices s = 0")
    case True
    then have n: "length devs = 0" using len dv by auto
    have "ds = []" "extra = []" using le ds(2) n by auto
    moreover have "deviceIDMask img = 0" using True
    proof
      assume z: "sb_ExtraDevices s = 0"
      show ?thesis unfolding mask z using mask_one by simp
    qed (simp add: mask)
    moreover have "t\<lparr>su_DeviceIDMask := 0\<rparr> = t" using st(5) by simp
    ultimately show ?thesis using True t(1) st(1,2) lex n
      by (simp add: sp_Parse_head_def sp_parseDevices_def Let_def im_def)
  next
    case False
    then have n: "length devs = unat (sb_ExtraDevices s)" using len dv by auto
    have mk: "ucast (sp_roundupPow2 (ucast (sb_ExtraDevices s) + 1) - 1) = deviceIDMask img"
      using mask False masks_agree by simp
    have wide: "\<not> sb_FeatureIncompat s AND 0x80 \<noteq> 0" using incompat_known [OF f] by simp
    have "extraData = [] \<or> unat (sb_ExtraDevices s) = length extraData" using le lex n by (cases extra) auto
    with False t(1) st(1,2,3) wide ds(1) n mk show ?thesis
      by (simp add: sp_Parse_head_def sp_parseDevices_def Let_def im_def)
  qed
  have dd: "reads_data (device (devs ! j)) (dev_data im j)" if j: "j < length devs" for j
  proof (cases "extra = []")
    case True
    then have "given ! j = None" using g j by simp
    moreover have "reads_data (flatWindow i rd (mappedBlkAddr (devs ! j)))
        (drop (nat (uint (mappedBlkAddr (devs ! j)) * 2 ^ blkbits i)) data)"
      by (rule flatWindow_reads [OF r]) (use i k sz in auto)
    ultimately show ?thesis using True lex ds(4) j i st(4) by (simp add: dev_data_def im_def)
  next
    case False
    then have "given ! j = Some (extra ! j)" "reads_data (extra ! j) (extraData ! j)"
      using g j le ex by (auto simp: list_all2_conv_all_nth)
    with False lex ds(4) j show ?thesis by (auto simp: dev_data_def im_def)
  qed
  have "extraData \<noteq> [] \<Longrightarrow> length extraData = length devs" using le lex by (cases extra) auto
  then have "image_sim img im"
    unfolding image_sim_def using t(2) dd ds(2,4) r m dv
    by (auto simp: im_def super_sim_def dev_sim_def)
  moreover have "super_sim (sb img) (im_Super im\<lparr>su_DeviceIDMask := 0\<rparr>)"
    using t(2) by (simp add: im_def super_sim_def)
  ultimately show ?thesis using P by (auto simp: im_def)
qed

lemma near_image:
  assumes im: "image_sim img im" "image_ok img" and r: "readInode img name nid ft = (c, Inr ino)"
    and d: "int (length (im_data im)) \<le> 2 ^ 62" "fsize ino \<le> 2 ^ 62"
  shows "near img ino"
proof -
  have c: "c = Some ino" by (rule readInode_cached [OF r])
  have io: "inode_ok img ino" "inid ino = nid" by (rule readInode_ok [OF r])+
  have cn: "checkNid img nid = Inr ()" using io by (auto simp: inode_ok_def)
  obtain room b e where rd: "ra_read (meta img) (inodeStart img nid) room = (b, e)"
    and di: "decodeInfo img name nid ft b = (Some ino, Inr ino)"
    using r c cn by (auto simp: readInode_def Let_def split: prod.splits option.splits if_splits)
  have "32 \<le> length b" using di by (auto simp: decodeInfo_def Let_def split: if_splits)
  with read_bytesAt [OF im(1) rd, of 32] have "sp_bytesAt im (inodeStart img nid) 32 = Inr (window b 0 32)" by simp
  then have "inodeStart img nid \<le> int (length (im_data im))"
    by (auto simp: sp_bytesAt_def sp_sliceAt_def split: if_splits)
  with d inodeStart_eq(1) [OF im(2) cn] io(2) show ?thesis by (simp add: near_def)
qed


lemma parse_keeps:
  assumes "sp_Parse_head data extra = Inr im"
  shows "im_data im = data" and "im_extra im = extra"
proof -
  have keep: "im_data y = im_data x \<and> im_extra y = im_extra x" if "sp_parseDevices x = Inr y" for x y
    using that unfolding sp_parseDevices_def Let_def by (cases "su_FeatureIncompat (im_Super x) AND 8 = 0 \<or> su_ExtraDevices (im_Super x) = 0") auto
  obtain s where "sp_parseDevices \<lparr> im_Super = s, im_Devices = [], im_Prefixes = [], im_data = data, im_extra = extra \<rparr> = Inr im"
    using assms unfolding sp_Parse_head_def Let_def bindE_eq_Inr by (elim exE conjE) (simp split: if_split_asm)
  from keep [OF this] show "im_data im = data" "im_extra im = extra" by simp_all
qed


lemma sample_hello_open: "openSuper (bytes_reader (sample_with sample_hello)) [] = Inr (sample_img sample_hello)"
  by (rule sample_open) simp

lemma sample_hello_sim:
  "\<exists>im n. sp_Parse_head (sample_with sample_hello) [] = Inr im \<and> image_sim (sample_img sample_hello) im \<and>
    sp_Inode_core im 4 = Inr n \<and> inode_sim (sample_img sample_hello) (sample_inode 4 2 5) n \<and>
    inode_ok (sample_img sample_hello) (sample_inode 4 2 5) \<and> near (sample_img sample_hello) (sample_inode 4 2 5)"
proof -
  obtain im where im: "sp_Parse_head (sample_with sample_hello) [] = Inr im" "image_sim (sample_img sample_hello) im"
    using open_refines [OF bytes_reader_contract _ sample_hello_open, of "[]"]
    by (auto simp: imageSize_def bytes_reader_def sample_with_def)
  have ok: "image_ok (sample_img sample_hello)" by (rule sample_ok) simp
  obtain c where c: "readInode (sample_img sample_hello) [] 4 0 = (c, Inr (sample_inode 4 2 5))"
    using sample_hello_read by (auto simp: readInfo_def new_file_def split: prod.splits)
  have "near (sample_img sample_hello) (sample_inode 4 2 5)"
    by (rule near_image [OF im(2) ok c]) (simp_all add: parse_keeps(1) [OF im(1)] sample_with_def sample_inode_def)
  moreover obtain n where "sp_Inode_core im 4 = Inr n" "inode_sim (sample_img sample_hello) (sample_inode 4 2 5) n"
    using inode_refines [OF im(2) ok c] by (auto simp: sample_inode_def)
  ultimately show ?thesis using im readInode_ok(1) [OF c] by blast
qed

section \<open>Properties\<close>




section \<open>Inline tails that cross their block\<close>

text \<open>The reference refuses every position of an inline file whose tail crosses its block.\<close>

lemma crossing_refused:
  assumes sim: "image_sim img im" "inode_sim img ino n" and ok: "image_ok img" "inode_ok img ino"
    and f: "near img ino" "inodeLayout ino = LayoutFlatInline" and pos: "0 \<le> pos" "pos < fsize ino"
    and cross: "\<not> inline_fits img ino" and len: "0 < len" "pos + len \<le> fsize ino"
  shows "sp_ReadAt im n pos len = Inl SpCorrupt"
proof -
  let ?B = "2 ^ blkbits img :: int" and ?pa = "i64 (inodeStart img (inid ino) + flatDataOffset ino)"
  define mp where "mp = (calculateBlocks (blkbits img) (fsize ino) - 1) * ?B"
  have k: "blkbits img \<le> 16" using ok(1) by blast
  have B: "?B \<le> 2 ^ 16" using k by (intro power_increasing) auto
  have f62: "fsize ino \<le> 2 ^ 62" using f(1) by (simp add: near_def)
  have a: "inodeStart img (inid ino) = nid_addr img (inid ino)"
    using inodeStart_eq [OF ok(1)] ok(2) by (simp add: inode_ok_def)
  have sz: "0 < fsize ino" using pos by simp
  note b = blocks_eq [OF sz f62 k] calculateBlocks_bounds(2) [of "blkbits img" "fsize ino"]
  have mpb: "0 \<le> mp" "mp < fsize ino" using b(4,5) by (simp_all add: mp_def)
  have w: "i64 mp = mp" "i64 (fsize ino) = fsize ino" "i64 (fsize ino - mp) = fsize ino - mp"
    by (rule i64_id_nonneg; use f62 mpb in simp)+
  have m: "0 \<le> ?pa mod ?B" "?pa mod ?B < ?B" by simp_all
  have "i64 (?pa mod ?B + (fsize ino - mp)) = ?pa mod ?B + (fsize ino - mp)"
  proof (rule i64_id_nonneg)
    have "?B \<le> 65536" "fsize ino \<le> 4611686018427387904" using B f62 by simp_all
    with m(2) show "?pa mod ?B + (fsize ino - mp) \<le> MaxInt64" using mpb by linarith
  qed (use m mpb in linarith)
  moreover have "?pa mod ?B + (fsize ino - mp) > ?B"
    using cross by (simp add: inline_fits_def mp_def)
  ultimately have "sp_ExtentAt im n pos = Inl SpCorrupt"
    using sim f(2) pos a mpb
    by (auto simp: sp_ExtentAt_def sp_flatExtents_def inode_sim_def sim_blkbits nullAddress_def Let_def b(1,3)
        w mp_def [symmetric] flatDataOffset_def add.assoc)
  moreover obtain k where "nat len = Suc k" using len(1) by (cases "nat len") auto
  ultimately show ?thesis
    using sim(2) pos len by (simp add: sp_ReadAt_def inode_sim_def)
qed

text \<open>
  C13. A block the reader loads for a position inside a file is compared with the reference's read of
  the same bytes. The reference returns exactly the block's bytes from that position on, unless the
  file is an inline one whose tail crosses its block: there the reader still serves the blocks
  before the tail, and the reference refuses every position with \<open>ErrCorrupt\<close>. Conditions: the image and the inode
  stand for the reference's; the file's addresses and its size stay below \<open>2^62\<close> (\<open>near\<close>); and for an inline
  file of an image that is given extra devices, no device is mapped over the bytes of its tail,
  which the reader takes from the image and the reference from the device.
\<close>

theorem block_agrees_with_reference:
  assumes "image_sim img im" and "inode_sim img ino n" and "image_ok img" and "inode_ok img ino"
    and "near img ino" and "0 \<le> pos" and "pos < fsize ino"
    and "inodeLayout ino = LayoutFlatInline \<Longrightarrow> im_extra im = [] \<or> tail_unmapped img ino"
    and "length pool = 2 ^ blkbits img"
    and "viewed (loadBlock_in pool img ino pos) = Inr (lo, hi, d)"
  shows "sp_ReadAt im n pos (int (length d)) =
    (if inodeLayout ino = LayoutFlatInline \<and> \<not> inline_fits img ino then Inl SpCorrupt else Inr d)"
proof (cases "inodeLayout ino = LayoutFlatInline \<and> \<not> inline_fits img ino")
  case True
  have "int (length d) = block_len (blkbits img) (fsize ino) pos"
    by (rule loadBlock_shape(4) [OF assms(6,7,9,10)])
  then have "0 < int (length d)" "pos + int (length d) \<le> fsize ino"
    using block_len_pos [OF assms(7)] by (auto simp: block_len_def)
  with True crossing_refused [OF assms(1-5) _ assms(6,7)] show ?thesis by simp
next
  case False
  then show ?thesis using loadBlock_refines [OF assms(1-7) _ assms(9,10)] assms(8) by auto
qed

theorem block_agrees_with_reference_witness:
  "\<exists>im n. sp_Parse_head (sample_with sample_hello) [] = Inr im \<and> sp_Inode_core im 4 = Inr n \<and>
    sp_ReadAt im n 0 5 = Inr [104, 101, 108, 108, 111]"
proof -
  obtain im n where im: "sp_Parse_head (sample_with sample_hello) [] = Inr im" "image_sim (sample_img sample_hello) im"
    and n: "sp_Inode_core im 4 = Inr n" "inode_sim (sample_img sample_hello) (sample_inode 4 2 5) n"
    and r: "inode_ok (sample_img sample_hello) (sample_inode 4 2 5)" "near (sample_img sample_hello) (sample_inode 4 2 5)"
    using sample_hello_sim by blast
  have "image_ok (sample_img sample_hello)" by (rule sample_ok) simp
  from block_agrees_with_reference [OF im(2) n(2) this r, of 0 "replicate 512 0"] im(1) n(1)
    sample_hello_block [of "replicate 512 0"] parse_keeps(2) [OF im(1)]
  show ?thesis by (simp add: sample_inode_def inline_fits_def flatDataOffset_def i64_def calculateBlocks_def)
qed

section \<open>The whole inode\<close>

definition owner_sim :: "inode \<Rightarrow> SpInode \<Rightarrow> bool" where
  "owner_sim ino n \<longleftrightarrow>
     sn_Mode n = rawMode ino \<and> sn_UID n = iuid ino \<and> sn_GID n = igid ino \<and> uint (sn_Nlink n) = inlink ino"

text \<open>Attributes change nothing else of an inode, and none are looked for without a body.\<close>

lemma decodeXattrs_keeps:
  assumes "sp_decodeXattrs im n = Inr n'"
  shows "inode_sim img ino n' \<longleftrightarrow> inode_sim img ino n" "owner_sim ino n' \<longleftrightarrow> owner_sim ino n" "time_sim ino n' \<longleftrightarrow> time_sim ino n"
proof -
  obtain a b c where "n' = n \<or> n' = n\<lparr>sn_NameFilter := a, sn_SharedIDs := b, sn_Xattrs := c\<rparr>"
    using assms by (auto simp: sp_decodeXattrs_def Let_def bindE_eq_Inr split: if_splits)
  then show "inode_sim img ino n' \<longleftrightarrow> inode_sim img ino n" "owner_sim ino n' \<longleftrightarrow> owner_sim ino n" "time_sim ino n' \<longleftrightarrow> time_sim ino n"
    by (auto simp: inode_sim_def owner_sim_def time_sim_def)
qed

text \<open>
  C12. Decoding an inode agrees with the reference. Take an image that stands for a parsed one, with the
  same epoch. A directory or a regular file the reader accepts from it is an inode the reference
  accepts too, with the same size, layout, addresses, mode, owner, link count and modification
  time, except where the inode has a body of extended attributes that the reference
  cannot decode. There the reference reaches an inode with all these fields equal and then refuses it
  with the error of the attributes, which the reader leaves for whoever asks for them.
\<close>

theorem inode_agrees_with_reference:
  assumes "image_sim img im" and "epoch_sim img im" and "image_ok img"
    and "readInode img name nid ft = (c, Inr ino)" and "rawMode ino AND 0xF000 \<in> {0x4000, 0x8000}"
  shows "(\<exists>n. sp_Inode im nid = Inr n \<and> inode_sim img ino n \<and> owner_sim ino n \<and> time_sim ino n) \<or>
    (\<exists>n e. 0 < xsize ino \<and> sp_Inode_core im nid = Inr n \<and> inode_sim img ino n \<and> owner_sim ino n \<and>
       time_sim ino n \<and> sp_decodeXattrs im n = Inl e \<and> sp_Inode im nid = Inl e)"
proof -
  obtain n where n: "sp_Inode_core im nid = Inr n" "inode_sim img ino n" "owner_sim ino n" "time_sim ino n"
    using inode_refines [OF assms(1,3-5)] assms(2) by (auto simp: owner_sim_def)
  have x: "sn_XattrSize n = xsize ino" "0 \<le> xsize ino"
    using n(2) readInode_ok(1) [OF assms(4)] by (auto simp: inode_sim_def inode_ok_def)
  show ?thesis
  proof (cases "sp_decodeXattrs im n")
    case (Inl e)
    have "xsize ino \<noteq> 0"
    proof
      assume "xsize ino = 0"
      with x(1) Inl show False by (simp add: sp_decodeXattrs_def)
    qed
    then have "0 < xsize ino" using x(2) by simp
    moreover have "sp_Inode im nid = Inl e" using n(1) Inl by (simp add: sp_Inode_def)
    ultimately show ?thesis using n Inl by blast
  next
    case (Inr n')
    then show ?thesis using n decodeXattrs_keeps [OF Inr] by (intro disjI1 exI [of _ n']) (auto simp: sp_Inode_def)
  qed
qed

theorem inode_agrees_with_reference_witness:
  "\<exists>im n. sp_Parse_head (sample_with sample_hello) [] = Inr im \<and> sp_Inode im 4 = Inr n \<and>
    inode_sim (sample_img sample_hello) (sample_inode 4 2 5) n \<and> sn_Mode n = 0x81A4 \<and> sn_Mtime n = 0"
proof -
  obtain im where im: "sp_Parse_head (sample_with sample_hello) [] = Inr im" "image_sim (sample_img sample_hello) im"
    "super_sim (sb (sample_img sample_hello)) (im_Super im\<lparr>su_DeviceIDMask := 0\<rparr>)"
    using open_refines [OF bytes_reader_contract _ sample_hello_open, of "[]"]
    by (auto simp: imageSize_def bytes_reader_def sample_with_def)
  have ep: "epoch_sim (sample_img sample_hello) im" using im(3) by (simp add: epoch_sim_def super_sim_def)
  have ok: "image_ok (sample_img sample_hello)" by (rule sample_ok) simp
  obtain c where c: "readInode (sample_img sample_hello) [] 4 0 = (c, Inr (sample_inode 4 2 5))"
    using sample_hello_read by (auto simp: readInfo_def new_file_def split: prod.splits)
  show ?thesis
    using inode_agrees_with_reference [OF im(2) ep ok c] im(1)
    by (auto simp: sample_inode_def owner_sim_def time_sim_def)
qed

end
