(* ===== verification/Prefix_Table.thy ===== *)
theory Prefix_Table
  imports Data_Map Spec_Reader
begin

text \<open>
  The table of long xattr prefixes: \<open>readMetadata\<close>, \<open>prefixSource\<close> and \<open>loadLongPrefixes\<close> of
  \<open>erofs.go\<close>, with which \<open>Open\<close> ends, and \<open>readMetadata\<close>, \<open>parsePrefixes\<close> and \<open>Parse\<close> of the reference. The
  reader takes the items from a stream, a section of the image or a buffered read of the packed
  inode; \<open>io.SectionReader\<close>, \<open>bufio.Reader\<close> and \<open>io.ReadFull\<close> are written out by what they document.
\<close>

section \<open>Streams\<close>

text \<open>An \<open>io.SectionReader\<close> at its offset with its limit, or a \<open>bufio.Reader\<close> over an open file with
  the bytes it holds and the error it has still to report.\<close>

datatype stream =
    Section_Stream reader int int
  | Buffered_Stream open_file bytes "err option"

abbreviation (input) bufSize :: nat where "bufSize \<equiv> 4096"

definition bufio_Read ::
  "image \<Rightarrow> open_file \<Rightarrow> bytes \<Rightarrow> err option \<Rightarrow> nat \<Rightarrow> stream \<times> bytes \<times> err option" where
  "bufio_Read img f buffered pending n =
     (if buffered \<noteq> [] then (Buffered_Stream f (drop n buffered) pending, take n buffered, None)
      else if n = 0 \<or> pending \<noteq> None then (Buffered_Stream f [] None, [], pending)
      else if n \<ge> bufSize then
        (case Read img f n of (f, b, e) \<Rightarrow> (Buffered_Stream f [] None, b, e))
      else
        (case Read img f bufSize of
           (f, b, e) \<Rightarrow>
             if b = [] then (Buffered_Stream f [] None, [], e)
             else (Buffered_Stream f (drop n b) e, take n b, None)))"

definition stream_Read :: "image \<Rightarrow> stream \<Rightarrow> nat \<Rightarrow> stream \<times> bytes \<times> err option" where
  "stream_Read img st n =
     (case st of
        Section_Stream r off limit \<Rightarrow>
          if off \<ge> limit then (st, [], Some EOF)
          else
            let n = (if int n > limit - off then nat (limit - off) else n) in
            (case ra_read r off n of (b, e) \<Rightarrow> (Section_Stream r (off + int (length b)) limit, b, e))
      | Buffered_Stream f buffered pending \<Rightarrow> bufio_Read img f buffered pending n)"

text \<open>\<open>io.ReadFull\<close>. A stream may answer no bytes and no error for ever, so the loop is partial.\<close>

partial_function (option) streamFull ::
  "image \<Rightarrow> stream \<Rightarrow> nat \<Rightarrow> bytes \<Rightarrow> (stream \<times> bytes \<times> err option) option" where
  "streamFull img st n acc =
     (case stream_Read img st n of
        (st, b, e) \<Rightarrow>
          if length b \<ge> n then Some (st, acc @ b, None)
          else case e of
                 None \<Rightarrow> streamFull img st (n - length b) (acc @ b)
               | Some e \<Rightarrow>
                   Some (st, acc @ b, Some (if e = EOF \<and> acc @ b \<noteq> [] then ErrUnexpectedEOF else e)))"

text \<open>\<open>io.CopyN(io.Discard, r, n)\<close>. It reports every end of the stream as \<open>io.EOF\<close>; its one caller
  takes \<open>io.EOF\<close> and \<open>io.ErrUnexpectedEOF\<close> alike.\<close>

definition discardN :: "image \<Rightarrow> stream \<Rightarrow> nat \<Rightarrow> (stream \<times> err option) option" where
  "discardN img st n = map_option (\<lambda>(st, _, e). (st, e)) (streamFull img st n [])"

section \<open>The table in the reader\<close>

abbreviation is_eof :: "err \<Rightarrow> bool" where
  "is_eof e \<equiv> errors_Is e EOF \<or> errors_Is e ErrUnexpectedEOF"

definition readMetadata :: "image \<Rightarrow> stream \<Rightarrow> (stream \<times> bytes result) option" where
  "readMetadata img st =
     Option.bind (streamFull img st 2 []) (\<lambda>(st, lenBuf, e).
     case e of Some e \<Rightarrow> Some (st, Inl e)
     | None \<Rightarrow>
         let dataLen = unat (le16 lenBuf 0);
             dataLen = (if dataLen < 1 then 65536 else dataLen)
         in Option.bind (streamFull img st dataLen []) (\<lambda>(st, data, e).
            case e of Some e \<Rightarrow> Some (st, Inl e)
            | None \<Rightarrow>
                let r = (2 + dataLen) mod 4 in
                if r = 0 then Some (st, Inr data)
                else
                  map_option (\<lambda>(st, e).
                    (st, case e of Some e \<Rightarrow> if is_eof e then Inr data else Inl e | None \<Rightarrow> Inr data))
                    (discardN img st (4 - r))))"

fun prefixItems :: "image \<Rightarrow> nat \<Rightarrow> stream \<Rightarrow> bytes list result option" where
  "prefixItems img 0 st = Some (Inr [])"
| "prefixItems img (Suc n) st =
     Option.bind (readMetadata img st) (\<lambda>(st, r).
     case r of
       Inl e \<Rightarrow> Some (Inl (if is_eof e then ErrCorrupt else e))
     | Inr data \<Rightarrow>
         if length data > 1 + MaxNameLen then Some (Inl ErrCorrupt)
         else
           map_option (\<lambda>r. bindE r (\<lambda>ps. Inr ((xattrIndex_String (data ! 0) @ drop 1 data) # ps)))
             (prefixItems img n st))"

abbreviation (input) FeatureCompatPlainXattrPfx :: u32 where "FeatureCompatPlainXattrPfx \<equiv> 0x10"

definition prefixSource :: "image \<Rightarrow> int \<Rightarrow> stream result" where
  "prefixSource img startOffset =
     (if sb_FeatureCompat (sb img) AND FeatureCompatPlainXattrPfx = 0 \<and>
         sb_FeatureIncompat (sb img) AND FeatureIncompatFragments \<noteq> 0 \<and> sb_PackedNid (sb img) > 0 then
        (case readInfo img (new_file (bs ''.packed'') (sb_PackedNid (sb img)) 0) of
           (f, Inl e) \<Rightarrow> Inl e
         | (f, Inr fi) \<Rightarrow>
             if startOffset > fsize fi then Inl ErrCorrupt
             else Inr (Buffered_Stream (f\<lparr>foffset := startOffset\<rparr>) [] None))
      else if isize img > 0 then
        (if startOffset \<ge> isize img then Inl ErrCorrupt
         else Inr (Section_Stream (meta img) startOffset (isize img)))
      else Inr (Section_Stream (meta img) startOffset MaxInt64))"

definition loadLongPrefixes :: "image \<Rightarrow> image result option" where
  "loadLongPrefixes img =
     (if sb_XattrPrefixCount (sb img) = 0 then Some (Inr img)
      else
        case prefixSource img (uint (sb_XattrPrefixStart (sb img)) * 4) of
          Inl e \<Rightarrow> Some (Inl e)
        | Inr r \<Rightarrow>
            map_option (\<lambda>ps. bindE ps (\<lambda>ps. Inr (img\<lparr>longPrefixes := ps\<rparr>)))
              (prefixItems img (unat (sb_XattrPrefixCount (sb img))) r))"

text \<open>\<open>Open\<close>.\<close>

definition openImage :: "reader \<Rightarrow> reader list \<Rightarrow> image result option" where
  "openImage r extraDevices =
     (case openSuper r extraDevices of Inl e \<Rightarrow> Some (Inl e) | Inr img \<Rightarrow> loadLongPrefixes img)"

section \<open>The table in the reference\<close>

definition sp_readMetadata ::
  "(int \<Rightarrow> int \<Rightarrow> bytes spec_result) \<Rightarrow> int \<Rightarrow> (bytes \<times> int) spec_result" where
  "sp_readMetadata src pos =
     (let pos = sp_roundUp pos 4 in
      bindE (src pos 2) (\<lambda>raw.
      let n = uint (le16 raw 0); n = (if n = 0 then 65536 else n); pos = i64 (pos + 2) in
      bindE (src pos n) (\<lambda>item. Inr (item, i64 (pos + n)))))"

fun sp_prefixItems ::
  "(int \<Rightarrow> int \<Rightarrow> bytes spec_result) \<Rightarrow> nat \<Rightarrow> int \<Rightarrow> SpPrefix list spec_result" where
  "sp_prefixItems src 0 pos = Inr []"
| "sp_prefixItems src (Suc n) pos =
     bindE (sp_readMetadata src pos) (\<lambda>(item, nxt).
     if length item < 1 \<or> length item > 256 then Inl SpCorrupt
     else bindE (sp_prefixItems src n nxt) (\<lambda>ps.
          Inr (\<lparr> spx_BaseIndex = item ! 0, spx_Infix = drop 1 item \<rparr> # ps)))"

definition sp_parsePrefixes :: "SpImage \<Rightarrow> SpImage spec_result" where
  "sp_parsePrefixes im =
     (let s = im_Super im in
      if su_XattrPrefixCount s = 0 then Inr im
      else
        bindE (if su_FeatureCompat s AND 0x10 = 0 \<and> su_PackedNid s \<noteq> 0 then
                 bindE (sp_Inode im (su_PackedNid s)) (\<lambda>packed.
                 bindE (sp_Read im packed) (\<lambda>content. Inr (sp_sliceAt content)))
               else Inr (sp_bytesAt im)) (\<lambda>src.
        bindE (sp_prefixItems src (unat (su_XattrPrefixCount s)) (uint (su_XattrPrefixStart s) * 4)) (\<lambda>ps.
        Inr (im\<lparr>im_Prefixes := im_Prefixes im @ ps\<rparr>))))"

definition sp_Parse :: "bytes \<Rightarrow> bytes list \<Rightarrow> SpImage spec_result" where
  "sp_Parse img extra = bindE (sp_Parse_head img extra) sp_parsePrefixes"

end
