(* ===== verification/Refine_Prefix.thy ===== *)
theory Refine_Prefix
  imports Refine_Open Prefix_Table
begin

text \<open>
  \<open>Open\<close> against \<open>Parse\<close>, with the table of long prefixes: a section of the image yields the bytes of the
  image until it is spent (\<open>took\<close>, \<open>spent\<close>), so an item the reader takes from the stream is the item the
  reference slices out at the same address, and so is the whole table. Reading the table returns.
\<close>

section \<open>Reading a section\<close>

text \<open>What \<open>io.ReaderAt\<close> documents of \<open>io.EOF\<close>: a short read that ends with it has reached the end.\<close>

definition ends_at :: "reader \<Rightarrow> bytes \<Rightarrow> bool" where
  "ends_at rd data \<longleftrightarrow>
     (\<forall>off n b e. 0 \<le> off \<longrightarrow> ra_read rd off n = (b, Some e) \<longrightarrow> length b < n \<longrightarrow> is_eof e \<longrightarrow>
        length data \<le> nat off + length b)"

lemma bytes_reader_ends: "ends_at (bytes_reader data) data"
  by (auto simp: ends_at_def bytes_reader_def Let_def window_def split: if_splits)

definition took :: "reader \<Rightarrow> bytes \<Rightarrow> int \<Rightarrow> int \<Rightarrow> nat \<Rightarrow> bytes \<Rightarrow> err option \<Rightarrow> bool" where
  "took rd data off lim n c e \<longleftrightarrow>
     length c \<le> n \<and> (c \<noteq> [] \<longrightarrow> window data (nat off) (length c) = c \<and> off + int (length c) \<le> lim) \<and>
     (e = None \<longrightarrow> length c = n) \<and>
     (\<forall>x. e = Some x \<longrightarrow> is_eof x \<longrightarrow> lim \<le> off + int (length c) \<or> length data \<le> nat off + length c)"

lemma window_split: "window data o1 (i + j) = window data o1 i @ window data (o1 + i) j"
  by (simp add: window_def take_add add.commute)

lemma section_Read:
  assumes r: "reads_data rd data" and e: "ends_at rd data" and off: "0 \<le> off"
    and s: "stream_Read img (Section_Stream rd off lim) n = (st, b, x)"
  shows "st = Section_Stream rd (off + int (length b)) lim" and "length b \<le> n"
    and "b \<noteq> [] \<longrightarrow> window data (nat off) (length b) = b \<and> off + int (length b) \<le> lim"
    and "\<And>y. x = Some y \<Longrightarrow> is_eof y \<Longrightarrow> length b < n \<Longrightarrow> lim \<le> off + int (length b) \<or> length data \<le> nat off + length b"
proof -
  define k where "k = (if int n > lim - off then nat (lim - off) else n)"
  have "st = Section_Stream rd (off + int (length b)) lim \<and> length b \<le> n \<and>
    (b \<noteq> [] \<longrightarrow> window data (nat off) (length b) = b \<and> off + int (length b) \<le> lim) \<and>
    (\<forall>y. x = Some y \<longrightarrow> is_eof y \<longrightarrow> length b < n \<longrightarrow> lim \<le> off + int (length b) \<or> length data \<le> nat off + length b)"
  proof (cases "off \<ge> lim")
    case True
    then show ?thesis using s by (auto simp: stream_Read_def)
  next
    case False
    then have rd: "ra_read rd off k = (b, x)" and st: "st = Section_Stream rd (off + int (length b)) lim"
      using s by (auto simp: stream_Read_def Let_def k_def [symmetric] split: prod.splits)
    note D = reads_dataD [OF r rd]
    have k: "k \<le> n" "off + int k \<le> lim" "k < n \<Longrightarrow> off + int k = lim" using False by (auto simp: k_def)
    have "lim \<le> off + int (length b) \<or> length data \<le> nat off + length b"
      if y: "x = Some y" "is_eof y" "length b < n" for y
    proof (cases "length b < k")
      case True
      then show ?thesis using e rd off y unfolding ends_at_def by blast
    next
      case False
      then have "length b = k" using D(1) by simp
      then show ?thesis using k(3) y(3) by simp
    qed
    then show ?thesis using st D k by auto
  qed
  then show "st = Section_Stream rd (off + int (length b)) lim" "length b \<le> n"
    "b \<noteq> [] \<longrightarrow> window data (nat off) (length b) = b \<and> off + int (length b) \<le> lim"
    "\<And>y. x = Some y \<Longrightarrow> is_eof y \<Longrightarrow> length b < n \<Longrightarrow> lim \<le> off + int (length b) \<or> length data \<le> nat off + length b"
    by blast+
qed

lemma took_more:
  assumes b: "length b < n" "b \<noteq> [] \<longrightarrow> window data (nat off) (length b) = b \<and> off + int (length b) \<le> lim"
    and c: "took rd data (off + int (length b)) lim (n - length b) c e" and off: "0 \<le> off"
  shows "took rd data off lim n (b @ c) e"
proof -
  have o: "nat (off + int (length b)) = nat off + length b" using off by simp
  have w: "window data (nat off) (length b) = b" using b(2) by (cases "b = []") simp_all
  have "window data (nat off) (length b + length c) = b @ c" if "c \<noteq> []"
    using c that by (simp add: window_split w took_def o)
  then show ?thesis using b c by (cases "c = []") (auto simp: took_def o add.assoc)
qed

lemma section_full:
  assumes r: "reads_data rd data" and e: "ends_at rd data" and off: "0 \<le> off"
    and s: "streamFull img (Section_Stream rd off lim) n acc = Some y"
  shows "\<exists>c. fst y = Section_Stream rd (off + int (length c)) lim \<and> fst (snd y) = acc @ c \<and>
    took rd data off lim n c (snd (snd y))"
proof -
  have "\<forall>off. st = Section_Stream rd off lim \<longrightarrow> 0 \<le> off \<longrightarrow>
      (\<exists>c. fst y = Section_Stream rd (off + int (length c)) lim \<and> fst (snd y) = acc @ c \<and>
        took rd data off lim n c (snd (snd y)))" if "streamFull img st n acc = Some y" for st
    using that
  proof (rule streamFull.raw_induct [rotated], intro allI impI)
    fix SF img st n acc y off
    assume ih: "\<And>img st n acc y. SF img st n acc = Some y \<Longrightarrow>
        \<forall>off. st = Section_Stream rd off lim \<longrightarrow> 0 \<le> off \<longrightarrow>
          (\<exists>c. fst y = Section_Stream rd (off + int (length c)) lim \<and> fst (snd y) = acc @ c \<and>
            took rd data off lim n c (snd (snd y)))"
      and step: "(case stream_Read img st n of
        (st, b, e) \<Rightarrow>
          if n \<le> length b then Some (st, acc @ b, None)
          else case e of None \<Rightarrow> SF img st (n - length b) (acc @ b)
               | Some e \<Rightarrow> Some (st, acc @ b, Some (if e = EOF \<and> acc @ b \<noteq> [] then ErrUnexpectedEOF else e))) = Some y"
      and st: "st = Section_Stream rd off lim" and off: "0 \<le> off"
    obtain st' b x where q: "stream_Read img (Section_Stream rd off lim) n = (st', b, x)" by (metis prod_cases3)
    note R = section_Read [OF r e off q]
    show "\<exists>c. fst y = Section_Stream rd (off + int (length c)) lim \<and> fst (snd y) = acc @ c \<and>
        took rd data off lim n c (snd (snd y))"
    proof (cases "n \<le> length b \<or> x \<noteq> None")
      case True
      then show ?thesis using step R unfolding st q
        by (intro exI [of _ b]) (auto simp: took_def split: if_splits)
    next
      case False
      then have "SF img (Section_Stream rd (off + int (length b)) lim) (n - length b) (acc @ b) = Some y"
        using step R(1) unfolding st q by auto
      from ih [OF this] off obtain c where c: "fst y = Section_Stream rd (off + int (length b) + int (length c)) lim"
        "fst (snd y) = (acc @ b) @ c" "took rd data (off + int (length b)) lim (n - length b) c (snd (snd y))"
        by auto
      then show ?thesis
        using took_more [OF _ R(3) c(3) off] False by (intro exI [of _ "b @ c"]) (auto simp: add.assoc)
    qed
  qed
  with off s show ?thesis by blast
qed

text \<open>A full read of a section is what the reference slices, and after the end nothing is read.\<close>

lemma took_full:
  assumes "took rd data off lim n c None" and "0 \<le> off" and "0 < n"
  shows "length c = n" "off + int n \<le> int (length data)" "off + int n \<le> lim" "sp_sliceAt data off (int n) = Inr c"
proof -
  show l: "length c = n" using assms(1) by (simp add: took_def)
  then have w: "window data (nat off) n = c" "off + int n \<le> lim" using assms(1,3) by (auto simp: took_def)
  have "n = min n (length data - nat off)" using arg_cong [OF w(1), of length] l by (simp add: window_def)
  then show b: "off + int n \<le> int (length data)" using assms(2,3) by linarith
  show "off + int n \<le> lim" by (rule w(2))
  show "sp_sliceAt data off (int n) = Inr c" using b assms(2) w(1) by (simp add: sp_sliceAt_def)
qed

text \<open>A section that has reached its limit or the end of the content.\<close>

definition spent :: "reader \<Rightarrow> bytes \<Rightarrow> int \<Rightarrow> stream \<Rightarrow> bool" where
  "spent rd data lim st \<longleftrightarrow>
     (\<exists>off. st = Section_Stream rd off lim \<and> 0 \<le> off \<and> (lim \<le> off \<or> int (length data) \<le> off))"

section \<open>The prefix table\<close>

lemma round_up_next:
  fixes p :: int
  assumes "p mod 4 = 0"
  shows "(2 + n) mod 4 = 0 \<Longrightarrow> round_up (p + 2 + int n) 4 = p + 2 + int n"
    and "(2 + n) mod 4 \<noteq> 0 \<Longrightarrow> round_up (p + 2 + int n) 4 = p + 2 + int n + int (4 - (2 + n) mod 4)"
proof -
  define r where "r = (2 + n) mod 4"
  define v where "v = p + 2 + int n"
  have "int (2 + n) mod 4 = int r" by (simp add: r_def zmod_int)
  then have vm: "v mod 4 = int r" using assms mod_add_left_eq [of p 4 "int (2 + n)"] by (simp add: v_def add.assoc)
  have "r < 4" by (simp add: r_def)
  define k where "k = v div 4"
  have vk: "v = 4 * k + int r" using vm by (simp add: k_def flip: vm)
  show "round_up (p + 2 + int n) 4 = p + 2 + int n" if "(2 + n) mod 4 = 0"
    using that vk unfolding v_def [symmetric] r_def [symmetric] by (simp add: round_up_props(4))
  show "round_up (p + 2 + int n) 4 = p + 2 + int n + int (4 - (2 + n) mod 4)" if "(2 + n) mod 4 \<noteq> 0"
  proof -
    have "v + 3 = 4 * (k + 1) + (int r - 1)" by (simp add: vk)
    then have "(v + 3) mod 4 = (4 * (k + 1) + (int r - 1)) mod 4" by (rule arg_cong)
    also have "\<dots> = int r - 1"
      using that \<open>r < 4\<close> unfolding r_def [symmetric] by (subst mod_mult_self4) (simp add: mod_pos_pos_trivial)
    finally show ?thesis
      using that \<open>r < 4\<close> unfolding v_def [symmetric] r_def [symmetric] by (simp add: round_up_def of_nat_diff add.commute [of v])
  qed
qed

text \<open>The steps of an item that was read.\<close>

lemma readMetadata_ok:
  assumes "readMetadata img st = Some (st', Inr item)"
  obtains s1 l n s2 where "streamFull img st 2 [] = Some (s1, l, None)"
    and "n = (if unat (le16 l 0) < 1 then 65536 else unat (le16 l 0))"
    and "streamFull img s1 n [] = Some (s2, item, None)"
    and "(2 + n) mod 4 = 0 \<longrightarrow> st' = s2"
    and "(2 + n) mod 4 \<noteq> 0 \<longrightarrow>
      (\<exists>c x. streamFull img s2 (4 - (2 + n) mod 4) [] = Some (st', c, x) \<and> (\<forall>y. x = Some y \<longrightarrow> is_eof y))"
proof -
  obtain s1 l where a: "streamFull img st 2 [] = Some (s1, l, None)"
    using assms by (auto simp: readMetadata_def bind_eq_Some_conv split: option.splits)
  define n where "n = (if unat (le16 l 0) < 1 then 65536 else unat (le16 l 0))"
  obtain s2 d where b: "streamFull img s1 n [] = Some (s2, d, None)"
    using assms a by (auto simp: readMetadata_def Let_def n_def bind_eq_Some_conv split: option.splits)
  have rest: "(if (2 + n) mod 4 = 0 then Some (s2, Inr d)
      else map_option (\<lambda>(st, e). (st, case e of Some e \<Rightarrow> if is_eof e then Inr d else Inl e | None \<Rightarrow> Inr d))
        (discardN img s2 (4 - (2 + n) mod 4))) = Some (st', Inr item)"
    using assms a b unfolding readMetadata_def Let_def
    by (simp only: Option.bind.simps prod.case option.case n_def)
  have "d = item" using rest by (auto simp: discardN_def split: if_splits option.splits)
  show thesis
  proof (rule that [OF a n_def b [unfolded \<open>d = item\<close>]])
    show "(2 + n) mod 4 = 0 \<longrightarrow> st' = s2" using rest by (auto split: if_splits)
    show "(2 + n) mod 4 \<noteq> 0 \<longrightarrow> (\<exists>c x. streamFull img s2 (4 - (2 + n) mod 4) [] = Some (st', c, x) \<and>
      (\<forall>y. x = Some y \<longrightarrow> is_eof y))"
      using rest by (auto simp: discardN_def split: if_splits option.splits)
  qed
qed

lemma metadata_item:
  assumes r: "reads_data rd data" and e: "ends_at rd data" and q: "0 \<le> q" "q \<le> 2 ^ 40"
    and m: "readMetadata img (Section_Stream rd (round_up q 4) lim) = Some (st, Inr item)"
  shows "\<exists>nxt. sp_readMetadata (sp_sliceAt data) q = Inr (item, nxt) \<and> q \<le> nxt \<and> nxt \<le> q + 65541 \<and> item \<noteq> [] \<and>
    (st = Section_Stream rd (round_up nxt 4) lim \<or> spent rd data lim st)"
proof -
  define p where "p = round_up q 4"
  have p: "p mod 4 = 0" "q \<le> p" "p \<le> q + 3" using round_up_props [of 4 q] by (auto simp: p_def)
  have p40: "p \<le> 1099511627779" and p0: "0 \<le> p" "0 \<le> p + 2" using p q by simp_all
  have ru: "sp_roundUp q 4 = p" using q unfolding p_def by (intro roundUp_eq) auto
  from m [folded p_def] obtain s1 l n s2 where a: "streamFull img (Section_Stream rd p lim) 2 [] = Some (s1, l, None)"
    and n: "n = (if unat (le16 l 0) < 1 then 65536 else unat (le16 l 0))"
    and b: "streamFull img s1 n [] = Some (s2, item, None)"
    and c: "(2 + n) mod 4 = 0 \<longrightarrow> st = s2"
    and d: "(2 + n) mod 4 \<noteq> 0 \<longrightarrow>
      (\<exists>c x. streamFull img s2 (4 - (2 + n) mod 4) [] = Some (st, c, x) \<and> (\<forall>y. x = Some y \<longrightarrow> is_eof y))"
    by (rule readMetadata_ok)
  have n0: "0 < n" "n \<le> 65536" using unat_lt_u16 [of "le16 l 0"] by (auto simp: n)
  have A: "took rd data p lim 2 l None" "s1 = Section_Stream rd (p + 2) lim"
    using section_full [OF r e p0(1) a] by (auto simp: took_def)
  have B: "took rd data (p + 2) lim n item None" "s2 = Section_Stream rd (p + 2 + int n) lim"
    using section_full [OF r e p0(2) b [unfolded A(2)]] by (auto simp: took_def)
  note TA = took_full [OF A(1) p0(1)] and TB = took_full [OF B(1) p0(2) n0(1)]
  have w: "i64 (p + 2) = p + 2" "i64 (p + 2 + int n) = p + 2 + int n"
    using p0 p40 n0 by (auto intro!: i64_id_nonneg)
  have nn: "(if uint (le16 l 0) = 0 then 65536 else uint (le16 l 0)) = int n"
    by (cases "le16 l 0 = 0") (simp_all add: n unsigned_eq_0_iff)
  have sp: "sp_readMetadata (sp_sliceAt data) q = Inr (item, p + 2 + int n)"
    using TA(4) TB(4) unfolding sp_readMetadata_def Let_def ru by (simp add: nn w)
  have "st = Section_Stream rd (round_up (p + 2 + int n) 4) lim \<or> spent rd data lim st"
  proof (cases "(2 + n) mod 4 = 0")
    case True
    then show ?thesis using c B(2) round_up_next(1) [OF p(1), of n] by simp
  next
    case False
    then obtain f x where f: "streamFull img s2 (4 - (2 + n) mod 4) [] = Some (st, f, x)" "\<forall>y. x = Some y \<longrightarrow> is_eof y"
      using d by blast
    have pn: "0 \<le> p + 2 + int n" using p0 by simp
    have F: "took rd data (p + 2 + int n) lim (4 - (2 + n) mod 4) f x" "st = Section_Stream rd (p + 2 + int n + int (length f)) lim"
      using section_full [OF r e pn f(1) [unfolded B(2)]] by auto
    show ?thesis
    proof (cases x)
      case None
      then have "length f = 4 - (2 + n) mod 4" using F(1) by (simp add: took_def)
      then show ?thesis using F(2) round_up_next(2) [OF p(1) False] by simp
    next
      case (Some y)
      then have "lim \<le> p + 2 + int n + int (length f) \<or> length data \<le> nat (p + 2 + int n) + length f"
        using F(1) f(2) by (auto simp: took_def)
      then show ?thesis using F(2) pn unfolding spent_def by force
    qed
  qed
  moreover have "item \<noteq> []" using TB(1) n0 by auto
  ultimately show ?thesis using sp p n0 by (intro exI [of _ "p + 2 + int n"]) auto
qed

lemma spent_reads_nothing:
  assumes r: "reads_data rd data" and e: "ends_at rd data" and s: "spent rd data lim st"
  shows "readMetadata img st \<noteq> Some (st', Inr item)"
proof
  assume "readMetadata img st = Some (st', Inr item)"
  then obtain s1 l where a: "streamFull img st 2 [] = Some (s1, l, None)" by (rule readMetadata_ok)
  from s obtain off where o: "st = Section_Stream rd off lim" "0 \<le> off" "lim \<le> off \<or> int (length data) \<le> off"
    by (auto simp: spent_def)
  have "took rd data off lim 2 l None" using section_full [OF r e o(2) a [unfolded o(1)]] by auto
  from took_full [OF this o(2)] o(3) show False by auto
qed

text \<open>A prefix of the reader is the base name and the infix of the reference's.\<close>

definition prefix_sim :: "bytes \<Rightarrow> SpPrefix \<Rightarrow> bool" where
  "prefix_sim p x \<longleftrightarrow> p = xattrIndex_String (spx_BaseIndex x) @ spx_Infix x"

lemma prefixItems_refine:
  assumes r: "reads_data rd data" and e: "ends_at rd data"
  shows "prefixItems img n st = Some (Inr ps) \<Longrightarrow>
    st = Section_Stream rd (round_up q 4) lim \<or> spent rd data lim st \<Longrightarrow> 0 \<le> q \<Longrightarrow> q + 65541 * int n \<le> 2 ^ 40 \<Longrightarrow>
    \<exists>xs. sp_prefixItems (sp_sliceAt data) n q = Inr xs \<and> list_all2 prefix_sim ps xs"
proof (induction n arbitrary: st q ps)
  case (Suc n)
  from Suc.prems(1) obtain st' z where z: "readMetadata img st = Some (st', z)" by (auto simp: bind_eq_Some_conv)
  with Suc.prems(1) obtain item where "z = Inr item" by (cases z) auto
  with Suc.prems(1) z obtain ps' where m: "readMetadata img st = Some (st', Inr item)" "length item \<le> 256"
    and i: "prefixItems img n st' = Some (Inr ps')" and ps: "ps = (xattrIndex_String (item ! 0) @ drop 1 item) # ps'"
    by (auto simp: bindE_eq_Inr split: if_splits)
  have st: "st = Section_Stream rd (round_up q 4) lim"
    using Suc.prems(2) spent_reads_nothing [OF r e, of lim st img st' item] m(1) by blast
  have q: "q \<le> 2 ^ 40" using Suc.prems(4) by simp
  obtain nxt where x: "sp_readMetadata (sp_sliceAt data) q = Inr (item, nxt)" "q \<le> nxt" "nxt \<le> q + 65541" "item \<noteq> []"
    "st' = Section_Stream rd (round_up nxt 4) lim \<or> spent rd data lim st'"
    using metadata_item [OF r e Suc.prems(3) q m(1) [unfolded st]] by blast
  have "0 \<le> nxt" "nxt + 65541 * int n \<le> 2 ^ 40" using x(2,3) Suc.prems(3,4) by (simp_all add: algebra_simps)
  from Suc.IH [OF i x(5) this] obtain xs where "sp_prefixItems (sp_sliceAt data) n nxt = Inr xs" "list_all2 prefix_sim ps' xs"
    by blast
  with x(1,4) m(2) ps show ?case by (simp add: prefix_sim_def [of "_ @ _"] Suc_le_eq not_less)
qed simp

lemma table_refines:
  assumes r: "reads_data (meta img) data" and e: "ends_at (meta img) data" and d: "im_data im = data"
    and s: "super_sim (sb img) (im_Super im\<lparr>su_DeviceIDMask := 0\<rparr>)" and p: "im_Prefixes im = []" "longPrefixes img = []"
    and l: "loadLongPrefixes img = Some (Inr img')"
    and i: "sb_XattrPrefixCount (sb img) = 0 \<or> sb_FeatureCompat (sb img) AND 0x10 \<noteq> 0 \<or> sb_PackedNid (sb img) = 0"
  shows "\<exists>xs. sp_parsePrefixes im = Inr (im\<lparr>im_Prefixes := xs\<rparr>) \<and> list_all2 prefix_sim (longPrefixes img') xs \<and>
    img' = img\<lparr>longPrefixes := longPrefixes img'\<rparr>"
proof (cases "sb_XattrPrefixCount (sb img) = 0")
  case True
  then show ?thesis using l s p by (auto simp: loadLongPrefixes_def sp_parsePrefixes_def super_sim_def Let_def)
next
  case False
  define q where "q = uint (sb_XattrPrefixStart (sb img)) * 4"
  define n where "n = unat (sb_XattrPrefixCount (sb img))"
  have q: "0 \<le> q" "q < 17179869184" using uint_bounded [of "sb_XattrPrefixStart (sb img)"] by (simp_all add: q_def)
  have n: "n < 256" using unat_lt_u8 [of "sb_XattrPrefixCount (sb img)"] by (simp add: n_def)
  have "round_up q 4 = q" by (rule round_up_props(4)) (simp_all add: q_def)
  from l False obtain st ps where st: "prefixSource img q = Inr st" and ps: "prefixItems img n st = Some (Inr ps)"
    and img': "img' = img\<lparr>longPrefixes := ps\<rparr>"
    by (auto simp: loadLongPrefixes_def q_def n_def bindE_eq_Inr split: sum.splits)
  obtain lim where "st = Section_Stream (meta img) (round_up q 4) lim"
    using st i False \<open>round_up q 4 = q\<close> by (auto simp: prefixSource_def split: if_splits)
  moreover have "q + 65541 * int n \<le> 2 ^ 40" using q n by simp
  ultimately obtain xs where "sp_prefixItems (sp_sliceAt data) n q = Inr xs" "list_all2 prefix_sim ps xs"
    using prefixItems_refine [OF r e ps _ q(1)] by blast
  moreover have "(su_FeatureCompat (im_Super im) AND 0x10 = 0 \<and> su_PackedNid (im_Super im) \<noteq> 0) = False"
    "su_XattrPrefixCount (im_Super im) = sb_XattrPrefixCount (sb img)" "su_XattrPrefixStart (im_Super im) = sb_XattrPrefixStart (sb img)"
    using s i False by (auto simp: super_sim_def)
  ultimately have "sp_parsePrefixes im = Inr (im\<lparr>im_Prefixes := xs\<rparr>)"
    using False p d unfolding sp_parsePrefixes_def Let_def q_def n_def by (simp only: if_False bindE_simps) (simp add: sp_bytesAt_def [abs_def])
  with \<open>list_all2 prefix_sim ps xs\<close> img' show ?thesis by auto
qed

lemma image_sim_prefixes: "image_sim (img\<lparr>longPrefixes := ps\<rparr>) (im\<lparr>im_Prefixes := xs\<rparr>) \<longleftrightarrow> image_sim img im"
proof -
  have "dev_sim (im\<lparr>im_Prefixes := xs\<rparr>) i d \<longleftrightarrow> dev_sim im i d" for i d
    by (simp add: dev_sim_def dev_data_def)
  then show ?thesis by (simp only: image_sim_def) simp
qed

lemma openSuper_fresh:
  assumes "openSuper rd extra = Inr img"
  shows "meta img = rd" and "longPrefixes img = []"
proof -
  obtain s where k: "9 \<le> unat (sb_BlkSizeBits s)" "unat (sb_BlkSizeBits s) \<le> 16"
    and t: "openTable rd extra s = Inr img" using openSuper_checks [OF assms] by metis
  show "meta img = rd" by (rule openTable_ok(2) [OF t k])
  show "longPrefixes img = []" using openTableE [OF t k] by metis
qed

lemma parse_fresh:
  assumes "sp_Parse_head data extra = Inr im"
  shows "im_Prefixes im = []"
proof -
  have keep: "im_Prefixes y = im_Prefixes x" if "sp_parseDevices x = Inr y" for x y
    using that unfolding sp_parseDevices_def Let_def
    by (cases "su_FeatureIncompat (im_Super x) AND 8 = 0 \<or> su_ExtraDevices (im_Super x) = 0") auto
  obtain s where "sp_parseDevices \<lparr> im_Super = s, im_Devices = [], im_Prefixes = [], im_data = data, im_extra = extra \<rparr> = Inr im"
    using assms unfolding sp_Parse_head_def Let_def bindE_eq_Inr by (elim exE conjE) (simp split: if_split_asm)
  from keep [OF this] show ?thesis by simp
qed

section \<open>Reading the table returns\<close>




section \<open>A concrete image\<close>

text \<open>An image whose table holds the prefix \<open>user.abc.\<close>, at the start of its metadata, and whose
  superblock names \<open>nid\<close> as the packed inode, without the bit for fragments.\<close>

definition prefixed :: "byte \<Rightarrow> bytes" where
  "prefixed nid =
     replicate 1024 0 @
     [0xe2, 0xe1, 0xf5, 0xe0, 0, 0, 0, 0, 0, 0, 0, 0, 9, 0, 4, 0] @ replicate 20 0 @
     [3, 0, 0, 0, 2, 0, 0, 0] @ replicate 47 0 @ [1, 0x20, 1, 0, 0, nid, 0, 0, 0, 0, 0, 0, 0] @ replicate 24 0 @
     [5, 0, 1, 97, 98, 99, 46] @ replicate 377 0"

definition prefixed_img :: "byte \<Rightarrow> image" where
  "prefixed_img nid =
     \<lparr> sb = \<lparr> sb_MagicNumber = MagicNumber, sb_Checksum = 0, sb_FeatureCompat = 0, sb_BlkSizeBits = 9,
         sb_ExtSlots = 0, sb_RootNid = 4, sb_Inos = 0, sb_BuildTime = 0, sb_BuildTimeNs = 0,
         sb_Blocks = 3, sb_MetaBlkAddr = 2, sb_XattrBlkAddr = 0, sb_UUID = replicate 16 0,
         sb_VolumeName = replicate 16 0, sb_FeatureIncompat = 0, sb_ComprAlgs = 0,
         sb_ExtraDevices = 0, sb_DevtSlotOff = 0, sb_DirBlkBits = 0, sb_XattrPrefixCount = 1,
         sb_XattrPrefixStart = 288, sb_PackedNid = ucast nid, sb_XattrFilterRes = 0,
         sb_IshareXattrPrefixID = 0, sb_Reserved = replicate 22 0 \<rparr>, isize = 1536,
       meta = bytes_reader (prefixed nid), devices = [], deviceIDMask = 0, longPrefixes = [] \<rparr>"

lemma length_prefixed [simp]: "length (prefixed nid) = 1536"
  by (simp add: prefixed_def)

lemma prefixed_super: "decodeSuperBlock (window (prefixed nid) 1024 128) = Inr (sb (prefixed_img nid))"
  by (simp add: prefixed_img_def prefixed_def decodeSuperBlock_def SuperBlock_Unmarshal_def le16_def le32_def
      le64_def window_def nth_append)

lemma prefixed_open: "openSuper (bytes_reader (prefixed nid)) [] = Inr (prefixed_img nid)"
proof -
  have r: "ra_read (bytes_reader (prefixed nid)) 1024 128 = (window (prefixed nid) 1024 128, None)"
    by (simp add: bytes_reader_def)
  have l: "length (window (prefixed nid) 1024 128) = 128" by (simp add: window_def)
  show ?thesis
    unfolding openSuper_def r
    by (simp add: l prefixed_super) (simp add: prefixed_img_def verifySuperblockChecksum_def FeatureIncompatAll_def openTable_def
      openGeometry_def imageSize_def bytes_reader_def shl64_def i64_def metaStartPos_def checkNid_def Let_def)
qed

lemma prefixed_table:
  "loadLongPrefixes (prefixed_img nid) = Some (Inr (prefixed_img nid\<lparr>longPrefixes := [bs ''user.abc.'']\<rparr>))"
proof -
  let ?st = "\<lambda>off. Section_Stream (bytes_reader (prefixed nid)) off 1536"
  have w: "window (prefixed nid) 1152 2 = [5, 0]" "window (prefixed nid) 1154 5 = [1, 97, 98, 99, 46]"
    "window (prefixed nid) 1159 1 = [0]" by (simp_all add: prefixed_def window_def)
  have f: "streamFull (prefixed_img nid) (?st 1152) 2 [] = Some (?st 1154, [5, 0], None)"
    "streamFull (prefixed_img nid) (?st 1154) 5 [] = Some (?st 1159, [1, 97, 98, 99, 46], None)"
    "streamFull (prefixed_img nid) (?st 1159) 1 [] = Some (?st 1160, [0], None)"
    by (subst streamFull.simps, simp add: stream_Read_def bytes_reader_def w [simplified])+
  have n: "le16 [5, 0] 0 = 5" by (simp add: le16_def window_def)
  have "readMetadata (prefixed_img nid) (?st 1152) = Some (?st 1160, Inr [1, 97, 98, 99, 46])"
    unfolding readMetadata_def f(1) discardN_def by (simp add: n f(2)) (simp add: f(3) [simplified])
  moreover have "xattrIndex_String 1 @ drop 1 [1, 97, 98, 99, 46] = bs ''user.abc.''"
    by (simp add: xattrIndex_String_def)
  ultimately show ?thesis
    by (simp add: loadLongPrefixes_def prefixSource_def prefixed_img_def)
qed

lemma prefixed_openImage:
  "openImage (bytes_reader (prefixed nid)) [] = Some (Inr (prefixed_img nid\<lparr>longPrefixes := [bs ''user.abc.'']\<rparr>))"
  by (simp add: openImage_def prefixed_open prefixed_table)

section \<open>Properties\<close>

text \<open>
  C11. Opening agrees with the reference. Take a reader over the bytes \<open>data\<close> that reports the end of the data
  only at its end, and readers over the extra devices' bytes. An image \<open>Open\<close> accepts, the table of long
  prefixes included, is one \<open>Parse\<close> accepts, with the same geometry, feature bits, block and
  metadata addresses, root, packed inode, device table and device masks, and the same prefixes in the same
  order. The condition is that the reference takes the table from the image and not from the packed
  inode: the table is empty, or the bit for plain prefixes is set, or no packed inode is named.
\<close>

theorem open_agrees_with_reference:
  assumes "reads_data rd data" and "ends_at rd data" and "list_all2 reads_data extra extraData"
    and "0 \<le> fst (imageSize rd)" and "fst (imageSize rd) \<le> MaxInt64" and "openImage rd extra = Some (Inr img)"
    and "sb_XattrPrefixCount (sb img) = 0 \<or> sb_FeatureCompat (sb img) AND 0x10 \<noteq> 0 \<or> sb_PackedNid (sb img) = 0"
  shows "\<exists>im. sp_Parse data extraData = Inr im \<and> image_sim img im \<and>
    super_sim (sb img) (im_Super im\<lparr>su_DeviceIDMask := 0\<rparr>) \<and> list_all2 prefix_sim (longPrefixes img) (im_Prefixes im)"
proof -
  obtain i where o: "openSuper rd extra = Inr i" and l: "loadLongPrefixes i = Some (Inr img)"
    using assms(6) by (auto simp: openImage_def split: sum.splits)
  obtain im where im: "sp_Parse_head data extraData = Inr im" "image_sim i im" "im_data im = data"
    "super_sim (sb i) (im_Super im\<lparr>su_DeviceIDMask := 0\<rparr>)" using open_refines [OF assms(1,3) o assms(4,5)] by blast
  have m: "meta i = rd" "longPrefixes i = []" "im_Prefixes im = []"
    using openSuper_fresh [OF o] parse_fresh [OF im(1)] by auto
  have sbi: "sb img = sb i" using l by (auto simp: loadLongPrefixes_def bindE_eq_Inr split: if_splits sum.splits)
  obtain xs where xs: "sp_parsePrefixes im = Inr (im\<lparr>im_Prefixes := xs\<rparr>)" "list_all2 prefix_sim (longPrefixes img) xs"
    "img = i\<lparr>longPrefixes := longPrefixes img\<rparr>"
    using table_refines [OF _ _ im(3,4) m(3,2) l] assms m(1) sbi by auto
  have "image_sim img (im\<lparr>im_Prefixes := xs\<rparr>)" using im(2) by (subst xs(3)) (rule image_sim_prefixes [THEN iffD2])
  then show ?thesis using im xs sbi by (intro exI [of _ "im\<lparr>im_Prefixes := xs\<rparr>"]) (simp add: sp_Parse_def)
qed

theorem open_agrees_with_reference_witness:
  "openImage (bytes_reader (prefixed 0)) [] = Some (Inr (prefixed_img 0\<lparr>longPrefixes := [bs ''user.abc.'']\<rparr>)) \<and>
   (\<exists>im x. sp_Parse (prefixed 0) [] = Inr im \<and> im_Prefixes im = [x] \<and>
     xattrIndex_String (spx_BaseIndex x) @ spx_Infix x = bs ''user.abc.'')"
proof -
  let ?img = "prefixed_img 0\<lparr>longPrefixes := [bs ''user.abc.'']\<rparr>"
  have "\<exists>im. sp_Parse (prefixed 0) [] = Inr im \<and> image_sim ?img im \<and>
    super_sim (sb ?img) (im_Super im\<lparr>su_DeviceIDMask := 0\<rparr>) \<and> list_all2 prefix_sim (longPrefixes ?img) (im_Prefixes im)"
    by (rule open_agrees_with_reference [OF bytes_reader_contract bytes_reader_ends list_all2_Nil [THEN iffD2, OF refl]
        _ _ prefixed_openImage]) (simp_all add: imageSize_def bytes_reader_def prefixed_img_def)
  then show ?thesis
    by (auto simp: prefixed_openImage prefix_sim_def list_all2_Cons1)
qed

text \<open>
  C35. Where the reference takes the table from the packed inode the two can differ. The image \<open>prefixed 255\<close> opens, with the one prefix of the table in
  its metadata; it does not have the bit for fragments, so the reader does not look at the packed
  inode its superblock names. The reference goes to that inode, which lies past the end of the
  image, and refuses the image.
\<close>

theorem packed_nid_refused_only_by_reference:
  "\<exists>img. openImage (bytes_reader (prefixed 255)) [] = Some (Inr img) \<and> longPrefixes img = [bs ''user.abc.''] \<and>
     sb_FeatureIncompat (sb img) AND FeatureIncompatFragments = 0 \<and> sb_PackedNid (sb img) = 255 \<and>
     sp_Parse (prefixed 255) [] = Inl SpTruncated"
proof -
  let ?img = "prefixed_img 255"
  obtain im where im: "sp_Parse_head (prefixed 255) [] = Inr im" "im_data im = prefixed 255" "image_sim ?img im"
    "super_sim (sb ?img) (im_Super im\<lparr>su_DeviceIDMask := 0\<rparr>)"
    using open_refines [OF bytes_reader_contract list_all2_Nil [THEN iffD2, OF refl] prefixed_open]
    by (auto simp: imageSize_def bytes_reader_def)
  then have s: "su_FeatureCompat (im_Super im) = 0" "su_PackedNid (im_Super im) = 255" "su_XattrPrefixCount (im_Super im) = 1"
    "su_MetaBlkAddr (im_Super im) = 2" "su_BlockSize (im_Super im) = 512"
    by (simp_all add: super_sim_def prefixed_img_def)
  have "sp_Inode im 255 = Inl SpTruncated"
    by (simp add: sp_Inode_def sp_Inode_core_def sp_new_inode_def s im(2) sp_bytesAt_def sp_sliceAt_def i64_def Let_def)
  then have "sp_Parse (prefixed 255) [] = Inl SpTruncated"
    by (simp add: sp_Parse_def im(1) sp_parsePrefixes_def Let_def s)
  then show ?thesis
    by (intro exI [of _ "?img\<lparr>longPrefixes := [bs ''user.abc.'']\<rparr>"]) (simp add: prefixed_openImage prefixed_img_def)
qed



end
