(* ===== verification/Dir.thy ===== *)
theory Dir
  imports Data_Map
begin

text \<open>
  Directories as \<open>erofs.go\<close> reads them: the names of dirents, the listing \<open>dir.ReadDir\<close> with its
  position in the directory, and \<open>dir.lookup\<close>, a binary search over the blocks by their first
  names and then over the dirents of one block.
\<close>

section \<open>Names\<close>

definition checkDirentName :: "bytes \<Rightarrow> unit result" where
  "checkDirentName name =
     (if name = [] then Inl ErrCorrupt
      else if 47 \<in> set name then Inl ErrCorrupt
      else if 0 \<in> set name then Inl ErrCorrupt
      else Inr ())"

definition dot :: bytes where "dot = [46]"

definition dotdot :: bytes where "dotdot = [46, 46]"

section \<open>Listing\<close>

text \<open>An open directory: its file, the block it reads next and how many entries of that block it
  has handed out. An entry it hands out is a file, with the name, nid and type of its dirent.\<close>

record dir =
  dfile :: open_file
  dbn :: int
  dconsumed :: nat

definition new_dir :: "open_file \<Rightarrow> dir" where
  "new_dir f = \<lparr> dfile = f, dbn = 0, dconsumed = 0 \<rparr>"

text \<open>The bounds of the name of dirent \<open>i\<close>, held in \<open>cur\<close>, with the dirent after it.\<close>

definition direntBounds :: "bytes \<Rightarrow> nat \<Rightarrow> nat \<Rightarrow> Dirent \<Rightarrow> (nat \<times> nat \<times> Dirent) result" where
  "direntBounds b entryN i cur =
     (let bufLen = length b; lo = unat (de_NameOff cur) in
      if i < entryN - 1 then
        (let start = SizeDirent * (i + 1) in
         if start + SizeDirent > bufLen then Inl ErrCorrupt
         else bindE (Dirent_Unmarshal (drop start b)) (\<lambda>next.
              if lo > bufLen \<or> unat (de_NameOff next) > bufLen \<or> de_NameOff next < de_NameOff cur
              then Inl ErrCorrupt
              else Inr (lo, unat (de_NameOff next), next)))
      else if lo > bufLen then Inl ErrCorrupt
      else Inr (lo, (case IndexByte (drop lo b) 0 of Some j \<Rightarrow> lo + j | None \<Rightarrow> bufLen), cur))"

text \<open>How the walk over one block ends: an error, the caller's count reached (at the last entry
  or before it), or the block exhausted.\<close>

datatype walk = WFail err | WFull bool | WDone

text \<open>The walk over the dirents of a block from dirent \<open>i\<close>, with \<open>k\<close> of them left; \<open>want\<close> is the
  size of the slab the entries are cut from and \<open>used\<close> how much of it is taken.\<close>

fun direntLoop ::
  "bytes \<Rightarrow> nat \<Rightarrow> int \<Rightarrow> nat \<Rightarrow> nat \<Rightarrow> nat \<Rightarrow> nat \<Rightarrow> Dirent \<Rightarrow> nat \<Rightarrow> open_file list \<Rightarrow> nat \<Rightarrow>
   open_file list \<times> nat \<times> walk" where
  "direntLoop b entryN n nameBase want 0 i cur used ents consumed = (ents, consumed, WDone)"
| "direntLoop b entryN n nameBase want (Suc k) i cur used ents consumed =
     (case direntBounds b entryN i cur of
        Inl e \<Rightarrow> (ents, consumed, WFail e)
      | Inr (lo, hi, next) \<Rightarrow>
          if lo < nameBase then (ents, consumed, WFail ErrCorrupt)
          else (case slice b lo hi of
             Inl e \<Rightarrow> (ents, consumed, WFail e)
           | Inr name \<Rightarrow>
               (case checkDirentName name of
                  Inl e \<Rightarrow> (ents, consumed, WFail e)
                | Inr _ \<Rightarrow>
                    if i \<ge> consumed \<and> name \<noteq> dot \<and> name \<noteq> dotdot then
                      (if used \<ge> want then (ents, consumed, WFail Panic)
                       else
                         let ents = ents @ [new_file name (de_Nid cur) (EroFSFtypeToFileMode (de_FileType cur))] in
                         if n > 0 \<and> int (length ents) = n
                         then (ents, i + 1, WFull (i = entryN - 1))
                         else direntLoop b entryN n nameBase want k (i + 1) next (used + 1) ents (i + 1))
                    else direntLoop b entryN n nameBase want k (i + 1) next used ents consumed)))"

text \<open>One block of a directory.\<close>

definition readDirBlock :: "int \<Rightarrow> bytes \<Rightarrow> open_file list \<Rightarrow> nat \<Rightarrow> open_file list \<times> nat \<times> walk" where
  "readDirBlock n b ents consumed =
     (if length b < SizeDirent then (ents, consumed, WFail ErrCorrupt)
      else
        (case Dirent_Unmarshal b of
           Inl e \<Rightarrow> (ents, consumed, WFail e)
         | Inr first \<Rightarrow>
             let nameOff = unat (de_NameOff first); entryN = nameOff div SizeDirent in
             if nameOff \<ge> length b \<or> entryN = 0 \<or> nameOff mod SizeDirent \<noteq> 0
             then (ents, consumed, WFail ErrCorrupt)
             else
               let left = entryN - consumed;
                   want = (if n > 0 \<and> n < int left then nat n else left)
               in direntLoop b entryN n nameOff want entryN 0 first 0 ents consumed))"

text \<open>The loop of \<open>ReadDir\<close> over the blocks. Its offset is \<open>int64(d.bn << BlkSizeBits)\<close>, which can
  wrap, so that the loop is one that may not end.\<close>

partial_function (option) readDirLoop ::
  "image \<Rightarrow> inode \<Rightarrow> int \<Rightarrow> dir \<Rightarrow> open_file list \<Rightarrow> (dir \<times> open_file list \<times> err option) option" where
  "readDirLoop img fi n d ents =
     (let pos = shl64 (dbn d) (blkbits img);
          finish = Some (d, ents, if n > 0 then Some EOF else None)
      in if \<not> pos < fsize fi then finish
         else
           (case loadBlock img fi pos of
              Inl e \<Rightarrow> if errors_Is e EOF then finish else Some (d, [], Some e)
            | Inr blk \<Rightarrow>
                (case readDirBlock n (block_bytes blk) ents (dconsumed d) of
                   (ents, consumed, WFail e) \<Rightarrow> Some (d\<lparr>dconsumed := consumed\<rparr>, ents, Some e)
                 | (ents, consumed, WFull atEnd) \<Rightarrow>
                     Some (if atEnd then d\<lparr>dconsumed := 0, dbn := i64 (dbn d + 1)\<rparr>
                           else d\<lparr>dconsumed := consumed\<rparr>, ents, None)
                 | (ents, consumed, WDone) \<Rightarrow>
                     readDirLoop img fi n (d\<lparr>dconsumed := 0, dbn := i64 (dbn d + 1)\<rparr>) ents)))"

definition ReadDir :: "image \<Rightarrow> dir \<Rightarrow> int \<Rightarrow> (dir \<times> open_file list \<times> err option) option" where
  "ReadDir img d n =
     (case readInfo img (dfile d) of
        (f, Inl e) \<Rightarrow> Some (d\<lparr>dfile := f\<rparr>, [], Some e)
      | (f, Inr fi) \<Rightarrow> readDirLoop img fi n (d\<lparr>dfile := f\<rparr>) [])"

section \<open>Looking up a name\<close>

text \<open>The name of the first entry of a block.\<close>

definition blockFirstName :: "bytes \<Rightarrow> bytes result" where
  "blockFirstName b =
     (if length b < SizeDirent then Inl ErrCorrupt
      else bindE (Dirent_Unmarshal b) (\<lambda>first.
        let nameOff = unat (de_NameOff first); entryN = nameOff div SizeDirent in
        if entryN = 0 \<or> nameOff > length b then Inl ErrCorrupt
        else bindE (if entryN > 1 then
                      (let nextOff = SizeDirent + 8 in
                       if nextOff + 2 > length b then Inl ErrCorrupt else Inr (unat (le16 b nextOff)))
                    else Inr (length b)) (\<lambda>nameEnd.
        if nameOff > nameEnd \<or> nameEnd > length b then Inl ErrCorrupt
        else bindE (slice b nameOff nameEnd) (\<lambda>name.
             let name = (case IndexByte name 0 of Some i \<Rightarrow> take i name | None \<Rightarrow> name) in
             bindE (checkDirentName name) (\<lambda>_. Inr name)))))"

text \<open>Dirent \<open>i\<close> of a block of \<open>entryN\<close>, with its name.\<close>

definition blockDirent :: "bytes \<Rightarrow> nat \<Rightarrow> nat \<Rightarrow> (Dirent \<times> bytes) result" where
  "blockDirent b i entryN =
     (let off = SizeDirent * i in
      if off + SizeDirent > length b then Inl ErrCorrupt
      else bindE (Dirent_Unmarshal (drop off b)) (\<lambda>de.
        let nameOff = unat (de_NameOff de) in
        bindE (if i < entryN - 1 then
                 (let nextOff = SizeDirent * (i + 1) + 8 in
                  if nextOff + 2 > length b then Inl ErrCorrupt else Inr (unat (le16 b nextOff)))
               else Inr (length b)) (\<lambda>nameEnd.
        if nameOff > nameEnd \<or> nameEnd > length b then Inl ErrCorrupt
        else bindE (slice b nameOff nameEnd) (\<lambda>name.
             let name = (if i = entryN - 1
                         then (case IndexByte name 0 of Some j \<Rightarrow> take j name | None \<Rightarrow> name)
                         else name) in
             bindE (checkDirentName name) (\<lambda>_. Inr (de, name))))))"

text \<open>The binary search of \<open>lookupBlock\<close> over the dirents \<open>[lo, hi)\<close>.\<close>

function lookupDirents :: "bytes \<Rightarrow> nat \<Rightarrow> bytes \<Rightarrow> nat \<Rightarrow> nat \<Rightarrow> (u64 \<times> FileMode) result" where
  "lookupDirents b entryN target lo hi =
     (if lo < hi then
        (let mid = lo + (hi - lo) div 2 in
         case blockDirent b mid entryN of
           Inl e \<Rightarrow> Inl e
         | Inr (de, name) \<Rightarrow>
             if Compare name target = 0 then Inr (de_Nid de, EroFSFtypeToFileMode (de_FileType de))
             else if Compare name target = - 1 then lookupDirents b entryN target (mid + 1) hi
             else lookupDirents b entryN target lo mid)
      else Inl ErrNotExist)"
  by auto
termination by (relation "measure (\<lambda>(b, entryN, target, lo, hi). hi - lo)") auto

declare lookupDirents.simps [simp del]

definition lookupBlock :: "bytes \<Rightarrow> bytes \<Rightarrow> (u64 \<times> FileMode) result" where
  "lookupBlock b target =
     (if length b < SizeDirent then Inl ErrCorrupt
      else bindE (Dirent_Unmarshal b) (\<lambda>first.
        let nameOff = unat (de_NameOff first) in
        if nameOff mod SizeDirent \<noteq> 0 then Inl ErrCorrupt
        else if nameOff > length b then Inl ErrCorrupt
        else lookupDirents b (nameOff div SizeDirent) target 0 (nameOff div SizeDirent)))"

text \<open>The search of \<open>lookup\<close> over the blocks \<open>[lo, hi)\<close>, with the candidate it keeps: the last
  block loaded whose first name is not after the target. A block past the end moves the upper
  bound. The bounds are never negative.\<close>

function lookupBlocks ::
  "image \<Rightarrow> inode \<Rightarrow> bytes \<Rightarrow> nat \<Rightarrow> nat \<Rightarrow> bytes option \<Rightarrow> (u64 \<times> FileMode) result" where
  "lookupBlocks img fi target lo hi lastBlk =
     (if lo < hi then
        (let mid = lo + (hi - lo) div 2;
             pos = i64 (int mid * 2 ^ blkbits img)
         in case loadBlock img fi pos of
              Inl e \<Rightarrow> if errors_Is e EOF then lookupBlocks img fi target lo mid lastBlk else Inl e
            | Inr blk \<Rightarrow>
                (case blockFirstName (block_bytes blk) of
                   Inl e \<Rightarrow> Inl e
                 | Inr firstName \<Rightarrow>
                     if Compare firstName target \<le> 0
                     then lookupBlocks img fi target (mid + 1) hi (Some (block_bytes blk))
                     else lookupBlocks img fi target lo mid lastBlk))
      else
        (case lastBlk of None \<Rightarrow> Inl ErrNotExist | Some b \<Rightarrow> lookupBlock b target))"
  by auto
termination by (relation "measure (\<lambda>(img, fi, target, lo, hi, lastBlk). hi - lo)") auto

declare lookupBlocks.simps [simp del]

definition lookup :: "image \<Rightarrow> dir \<Rightarrow> bytes \<Rightarrow> dir \<times> (u64 \<times> FileMode) result" where
  "lookup img d target =
     (case readInfo img (dfile d) of
        (f, Inl e) \<Rightarrow> (d\<lparr>dfile := f\<rparr>, Inl e)
      | (f, Inr fi) \<Rightarrow>
          let nblocks = go_div (i64 (fsize fi + 2 ^ blkbits img - 1)) (2 ^ blkbits img) in
          (d\<lparr>dfile := f\<rparr>, lookupBlocks img fi target 0 (nat nblocks) None))"

section \<open>Binary search\<close>

text \<open>The search both levels of \<open>lookup\<close> run: a probe of the middle ends it, or raises the lower
  bound and replaces what the search carries, or lowers the upper bound.\<close>

datatype ('a, 'r) probe = PStop 'r | PUp 'a | PDown

locale binary_search =
  fixes probe :: "nat \<Rightarrow> ('a, 'r) probe" and fin :: "'a \<Rightarrow> 'r" and search :: "nat \<Rightarrow> nat \<Rightarrow> 'a \<Rightarrow> 'r"
  assumes search_eq: "search lo hi acc =
    (if lo < hi then
       (case probe (lo + (hi - lo) div 2) of
          PStop r \<Rightarrow> r
        | PUp a \<Rightarrow> search (lo + (hi - lo) div 2 + 1) hi a
        | PDown \<Rightarrow> search lo (lo + (hi - lo) div 2) acc)
     else fin acc)"
begin

text \<open>A stop with only ups below it and only downs above it is found.\<close>

lemma search_hit:
  assumes "lo \<le> c" and "c < hi" and "probe c = PStop r"
    and "\<And>i. lo \<le> i \<Longrightarrow> i < c \<Longrightarrow> \<exists>a. probe i = PUp a" and "\<And>i. c < i \<Longrightarrow> i < hi \<Longrightarrow> probe i = PDown"
  shows "search lo hi acc = r"
  using assms
proof (induction "hi - lo" arbitrary: lo hi acc rule: less_induct)
  case less
  define mid where "mid = lo + (hi - lo) div 2"
  have m: "lo \<le> mid" "mid < hi" using less.prems(1,2) by (auto simp: mid_def)
  have eq: "search lo hi acc = (case probe mid of PStop r \<Rightarrow> r | PUp a \<Rightarrow> search (mid + 1) hi a
      | PDown \<Rightarrow> search lo mid acc)"
    unfolding mid_def using less.prems(1,2) by (subst search_eq) simp
  consider "mid < c" | "mid = c" | "c < mid" by linarith
  then show ?case
  proof cases
    case 1
    then obtain a where a: "probe mid = PUp a" using less.prems(4) m by blast
    have "search (mid + 1) hi a = r" using 1 m less.prems by (intro less.hyps) auto
    with eq a show ?thesis by simp
  next
    case 2
    with eq less.prems(3) show ?thesis by simp
  next
    case 3
    then have d: "probe mid = PDown" using less.prems(5) m by blast
    have "search lo mid acc = r" using 3 m less.prems by (intro less.hyps) auto
    with eq d show ?thesis by simp
  qed
qed

text \<open>Ups below a point and downs from it on end in what the last up carries.\<close>

lemma search_split:
  assumes "lo \<le> c" and "c \<le> hi"
    and "\<And>i. lo \<le> i \<Longrightarrow> i < c \<Longrightarrow> probe i = PUp (f i)" and "\<And>i. c \<le> i \<Longrightarrow> i < hi \<Longrightarrow> probe i = PDown"
  shows "search lo hi acc = fin (if c = lo then acc else f (c - 1))"
  using assms
proof (induction "hi - lo" arbitrary: lo hi acc rule: less_induct)
  case less
  show ?case
  proof (cases "lo < hi")
    case True
    define mid where "mid = lo + (hi - lo) div 2"
    have m: "lo \<le> mid" "mid < hi" using True by (auto simp: mid_def)
    have eq: "search lo hi acc = (case probe mid of PStop r \<Rightarrow> r | PUp a \<Rightarrow> search (mid + 1) hi a
        | PDown \<Rightarrow> search lo mid acc)"
      unfolding mid_def using True by (subst search_eq) simp
    show ?thesis
    proof (cases "mid < c")
      case up: True
      have "search (mid + 1) hi (f mid) = fin (if c = mid + 1 then f mid else f (c - 1))"
        using up m less.prems by (intro less.hyps) auto
      with eq up m less.prems(3) show ?thesis by auto
    next
      case False
      have "search lo mid acc = fin (if c = lo then acc else f (c - 1))"
        using False m less.prems by (intro less.hyps) auto
      with eq False m less.prems(4) show ?thesis by auto
    qed
  next
    case False
    with less.prems search_eq [of lo hi acc] show ?thesis by simp
  qed
qed

end

definition dirent_probe :: "bytes \<Rightarrow> nat \<Rightarrow> bytes \<Rightarrow> nat \<Rightarrow> (unit, (u64 \<times> FileMode) result) probe" where
  "dirent_probe b entryN target i =
     (case blockDirent b i entryN of
        Inl e \<Rightarrow> PStop (Inl e)
      | Inr (de, name) \<Rightarrow>
          if name = target then PStop (Inr (de_Nid de, EroFSFtypeToFileMode (de_FileType de)))
          else if name < target then PUp () else PDown)"

definition block_probe :: "image \<Rightarrow> inode \<Rightarrow> bytes \<Rightarrow> nat \<Rightarrow> (bytes option, (u64 \<times> FileMode) result) probe" where
  "block_probe img fi target i =
     (case loadBlock img fi (i64 (int i * 2 ^ blkbits img)) of
        Inl e \<Rightarrow> if e = EOF then PDown else PStop (Inl e)
      | Inr blk \<Rightarrow>
          (case blockFirstName (block_bytes blk) of
             Inl e \<Rightarrow> PStop (Inl e)
           | Inr first \<Rightarrow> if first \<le> target then PUp (Some (block_bytes blk)) else PDown))"

interpretation dirents: binary_search "dirent_probe b entryN target" "\<lambda>_. Inl ErrNotExist"
  "\<lambda>lo hi _. lookupDirents b entryN target lo hi"
  by unfold_locales
    (subst lookupDirents.simps, auto simp: dirent_probe_def Let_def Compare_def split: sum.split prod.split)

interpretation blocks: binary_search "block_probe img fi target"
  "case_option (Inl ErrNotExist) (\<lambda>b. lookupBlock b target)" "lookupBlocks img fi target"
  by unfold_locales
    (subst lookupBlocks.simps, auto simp: block_probe_def Let_def Compare_def less_le split: sum.split)

section \<open>The entries of a block\<close>

definition entry_count :: "bytes \<Rightarrow> nat" where
  "entry_count b = unat (le16 b 8) div SizeDirent"

definition block_ok :: "bytes \<Rightarrow> bool" where
  "block_ok b \<longleftrightarrow> SizeDirent \<le> length b \<and> unat (le16 b 8) < length b \<and> entry_count b \<noteq> 0 \<and>
     unat (le16 b 8) mod SizeDirent = 0"

abbreviation entry :: "bytes \<Rightarrow> nat \<Rightarrow> (Dirent \<times> bytes) result" where
  "entry b i \<equiv> blockDirent b i (entry_count b)"

definition visible :: "Dirent \<times> bytes \<Rightarrow> bool" where
  "visible e \<longleftrightarrow> snd e \<noteq> dot \<and> snd e \<noteq> dotdot"

definition to_file :: "Dirent \<times> bytes \<Rightarrow> open_file" where
  "to_file e = new_file (snd e) (de_Nid (fst e)) (EroFSFtypeToFileMode (de_FileType (fst e)))"

fun emit :: "int \<Rightarrow> nat \<Rightarrow> nat \<Rightarrow> (Dirent \<times> bytes) result list \<Rightarrow> open_file list \<Rightarrow> nat \<Rightarrow> open_file list \<times> nat \<times> walk" where
  "emit n entryN i [] ents c = (ents, c, WDone)"
| "emit n entryN i (Inl e # rs) ents c = (ents, c, WFail e)"
| "emit n entryN i (Inr x # rs) ents c =
     (if i \<ge> c \<and> visible x then
        (if n > 0 \<and> int (length ents) + 1 = n then (ents @ [to_file x], i + 1, WFull (i = entryN - 1))
         else emit n entryN (i + 1) rs (ents @ [to_file x]) (i + 1))
      else emit n entryN (i + 1) rs ents c)"

lemma unmarshal_drop [simp]:
  "12 * i + 12 \<le> length b \<Longrightarrow> Dirent_Unmarshal (drop (12 * i) b) =
     Inr \<lparr> de_Nid = le64 b (12 * i), de_NameOff = le16 b (12 * i + 8), de_FileType = b ! (12 * i + 10),
           de_Reserved = b ! (12 * i + 11) \<rparr>"
  by (simp add: Dirent_Unmarshal_def le64_def le16_def window_drop)

definition dirent_at :: "bytes \<Rightarrow> nat \<Rightarrow> Dirent" where
  "dirent_at b i = \<lparr> de_Nid = le64 b (12 * i), de_NameOff = le16 b (12 * i + 8), de_FileType = b ! (12 * i + 10),
           de_Reserved = b ! (12 * i + 11) \<rparr>"

lemma block_dirents_fit: "block_ok b \<Longrightarrow> i < entry_count b \<Longrightarrow> 12 * i + 12 \<le> length b"
proof -
  assume a: "block_ok b" "i < entry_count b"
  have "12 * entry_count b \<le> unat (le16 b 8)" by (simp add: entry_count_def)
  with a show ?thesis by (simp add: block_ok_def)
qed

definition name_end :: "bytes \<Rightarrow> nat \<Rightarrow> nat" where
  "name_end b i =
     (if i + 1 < entry_count b then unat (le16 b (12 * (i + 1) + 8))
      else (let lo = unat (le16 b (12 * i + 8)) in
            case IndexByte (drop lo b) 0 of Some j \<Rightarrow> lo + j | None \<Rightarrow> length b))"

definition name_ok :: "bytes \<Rightarrow> nat \<Rightarrow> bool" where
  "name_ok b i \<longleftrightarrow> unat (le16 b (12 * i + 8)) \<le> name_end b i \<and> name_end b i \<le> length b"

definition name_at :: "bytes \<Rightarrow> nat \<Rightarrow> bytes" where
  "name_at b i = (let lo = unat (le16 b (12 * i + 8)) in window b lo (name_end b i - lo))"

lemma trim_window:
  assumes "lo \<le> length b"
  shows "(case IndexByte (window b lo (length b - lo)) 0 of Some j \<Rightarrow> take j (window b lo (length b - lo))
      | None \<Rightarrow> window b lo (length b - lo)) =
    window b lo ((case IndexByte (drop lo b) 0 of Some j \<Rightarrow> lo + j | None \<Rightarrow> length b) - lo)"
    and "(case IndexByte (drop lo b) 0 of Some j \<Rightarrow> lo + j | None \<Rightarrow> length b) \<le> length b"
    and "lo \<le> (case IndexByte (drop lo b) 0 of Some j \<Rightarrow> lo + j | None \<Rightarrow> length b)"
  using assms by (auto simp: window_def split: option.split dest!: IndexByte_Some)

lemma entry_eq:
  assumes ok: "block_ok b" and i: "i < entry_count b"
  shows "entry b i = (if name_ok b i
      then bindE (checkDirentName (name_at b i)) (\<lambda>_. Inr (dirent_at b i, name_at b i)) else Inl ErrCorrupt)"
proof -
  have f: "12 * i + 12 \<le> length b" by (rule block_dirents_fit [OF ok i])
  show ?thesis
  proof (cases "i + 1 < entry_count b")
    case True
    then have g: "12 * (i + 1) + 12 \<le> length b" using block_dirents_fit [OF ok True] by simp
    have "i < entry_count b - 1" "i \<noteq> entry_count b - 1" using True by auto
    then show ?thesis
      using f g True unfolding blockDirent_def Let_def unmarshal_drop [OF f] bindE_simps
      by (simp add: name_ok_def name_end_def name_at_def dirent_at_def Let_def)
  next
    case False
    then have e: "(i = entry_count b - 1) = True" "(i < entry_count b - 1) = False" using i by auto
    show ?thesis
    proof (cases "unat (le16 b (12 * i + 8)) \<le> length b")
      case True
      then show ?thesis
        using f False trim_window [OF True] unfolding blockDirent_def Let_def unmarshal_drop [OF f] e if_True if_False bindE_simps
        by (simp add: name_ok_def name_end_def name_at_def dirent_at_def Let_def)
    next
      case b: False
      then show ?thesis
        using f False unfolding blockDirent_def Let_def unmarshal_drop [OF f] e if_True if_False bindE_simps
        by (auto simp: name_ok_def name_end_def Let_def split: option.splits)
    qed
  qed
qed

lemma direntBounds_eq:
  assumes ok: "block_ok b" and i: "i < entry_count b"
  shows "direntBounds b (entry_count b) i (dirent_at b i) =
    (if name_ok b i then Inr (unat (le16 b (12 * i + 8)), name_end b i,
        if i + 1 < entry_count b then dirent_at b (i + 1) else dirent_at b i) else Inl ErrCorrupt)"
proof (cases "i + 1 < entry_count b")
  case True
  then have g: "12 * (i + 1) + 12 \<le> length b" using block_dirents_fit [OF ok True] by simp
  then show ?thesis
    using True unmarshal_drop [OF g]
    by (auto simp: direntBounds_def Let_def name_ok_def name_end_def dirent_at_def word_less_nat_alt)
next
  case False
  then show ?thesis
    using trim_window(2,3) [of "unat (le16 b (12 * i + 8))" b]
    by (auto simp: direntBounds_def Let_def name_ok_def name_end_def dirent_at_def split: option.splits)
qed

text \<open>The walk is the emission of the block's entries.\<close>

lemma checkDirentName_cases: "checkDirentName nm = Inr () \<or> checkDirentName nm = Inl ErrCorrupt"
  by (simp add: checkDirentName_def)

lemma direntLoop_emit:
  assumes ok: "block_ok b" and "i + k = entry_count b" and "cur = dirent_at b i \<or> k = 0"
    and "unat (le16 b 8) \<le> unat (de_NameOff cur) \<or> k = 0"
    and "used + e0 = length ents"
    and w: "want = (if n > 0 \<and> n < int (entry_count b - c0) then nat n else entry_count b - c0)"
    and "c0 \<le> c" and "used \<le> i - c0" and "n > 0 \<longrightarrow> int (length ents) < n"
  shows "direntLoop b (entry_count b) n (unat (le16 b 8)) want k i cur used ents c =
    emit n (entry_count b) i (map (entry b) [i..<entry_count b]) ents c"
  using assms(2-)
proof (induction k arbitrary: i cur used ents c)
  case (Suc k)
  have i: "i < entry_count b" and cur: "cur = dirent_at b i" using Suc.prems by auto
  have lo: "unat (le16 b 8) \<le> unat (le16 b (12 * i + 8))" using Suc.prems(3) by (simp add: cur dirent_at_def)
  have up: "[i..<entry_count b] = i # [i + 1..<entry_count b]" using i by (simp add: upt_conv_Cons)
  show ?case
  proof (cases "name_ok b i \<and> checkDirentName (name_at b i) = Inr ()")
    case False
    then show ?thesis
      using checkDirentName_cases [of "name_at b i"] lo i
      unfolding up cur
      by (auto simp: direntBounds_eq [OF ok i] entry_eq [OF ok i] name_ok_def name_at_def Let_def)
  next
    case True
    let ?nx = "if i + 1 < entry_count b then dirent_at b (i + 1) else dirent_at b i"
    have e: "entry b i = Inr (dirent_at b i, name_at b i)" using True by (simp add: entry_eq [OF ok i])
    have lo': "unat (le16 b 8) \<le> unat (de_NameOff ?nx) \<or> k = 0"
      using True lo Suc.prems(1) by (auto simp: name_ok_def name_end_def dirent_at_def)
    have nx: "?nx = dirent_at b (i + 1) \<or> k = 0" using Suc.prems(1) by auto
    have room: "used < want" if "c \<le> i"
      using Suc.prems that i by (auto simp: w)
    have step: "direntLoop b (entry_count b) n (unat (le16 b 8)) want (Suc k) i cur used ents c =
        (if c \<le> i \<and> visible (dirent_at b i, name_at b i) then
           (if n > 0 \<and> int (length ents) + 1 = n
            then (ents @ [to_file (dirent_at b i, name_at b i)], i + 1, WFull (i = entry_count b - 1))
            else direntLoop b (entry_count b) n (unat (le16 b 8)) want k (i + 1) ?nx (used + 1)
                   (ents @ [to_file (dirent_at b i, name_at b i)]) (i + 1))
         else direntLoop b (entry_count b) n (unat (le16 b 8)) want k (i + 1) ?nx used ents c)"
      using True lo room
      by (auto simp: direntBounds_eq [OF ok i] cur visible_def to_file_def name_ok_def name_at_def Let_def not_le)
    show ?thesis
    proof (cases "c \<le> i \<and> visible (dirent_at b i, name_at b i) \<and> \<not> (n > 0 \<and> int (length ents) + 1 = n)")
      case go: True
      have "direntLoop b (entry_count b) n (unat (le16 b 8)) want k (i + 1) ?nx (used + 1)
            (ents @ [to_file (dirent_at b i, name_at b i)]) (i + 1) =
          emit n (entry_count b) (i + 1) (map (entry b) [i + 1..<entry_count b])
            (ents @ [to_file (dirent_at b i, name_at b i)]) (i + 1)"
        by (rule Suc.IH) (use Suc.prems nx lo' go in auto)
      with go show ?thesis unfolding up step by (auto simp: e)
    next
      case False
      have "direntLoop b (entry_count b) n (unat (le16 b 8)) want k (i + 1) ?nx used ents c =
          emit n (entry_count b) (i + 1) (map (entry b) [i + 1..<entry_count b]) ents c"
        by (rule Suc.IH) (use Suc.prems nx lo' in auto)
      with False show ?thesis unfolding up step by (auto simp: e)
    qed
  qed
qed simp

lemma readDirBlock_emit:
  assumes "block_ok b" and "n > 0 \<longrightarrow> int (length ents) < n"
  shows "readDirBlock n b ents c = emit n (entry_count b) 0 (map (entry b) [0..<entry_count b]) ents c"
proof -
  have first: "Dirent_Unmarshal b = Inr (dirent_at b 0)"
    using unmarshal_drop [of 0 b] assms(1) by (simp add: block_ok_def dirent_at_def)
  have f: "de_NameOff (dirent_at b 0) = le16 b 8" by (simp add: dirent_at_def)
  define want where "want = (if n > 0 \<and> n < int (entry_count b - c) then nat n else entry_count b - c)"
  have "readDirBlock n b ents c =
      direntLoop b (entry_count b) n (unat (le16 b 8)) want (entry_count b) 0 (dirent_at b 0) 0 ents c"
    unfolding readDirBlock_def first sum.case Let_def f entry_count_def [symmetric] want_def [symmetric]
    using assms(1) by (simp add: block_ok_def)
  also have "\<dots> = emit n (entry_count b) 0 (map (entry b) [0..<entry_count b]) ents c"
    by (rule direntLoop_emit [OF assms(1), of 0 "entry_count b" _ 0 "length ents" ents want n c])
      (use assms(2) f in \<open>simp_all add: want_def\<close>)
  finally show ?thesis .
qed

abbreviation files :: "(Dirent \<times> bytes) list \<Rightarrow> open_file list" where
  "files xs \<equiv> map to_file (filter visible xs)"

lemma drop_step: "i < c \<Longrightarrow> drop (c - i) (x # xs) = drop (c - Suc i) xs"
  by (simp add: drop_Cons')

text \<open>Without a count the whole of the rest is emitted; with one, up to the count, and the
  position that is kept is where the rest begins.\<close>

lemma emit_all:
  "n \<le> 0 \<Longrightarrow> \<exists>c'. emit n N i (map Inr xs) ents c = (ents @ files (drop (c - i) xs), c', WDone)"
proof (induction xs arbitrary: i ents c)
  case (Cons x xs)
  show ?case
  proof (cases "c \<le> i")
    case True
    then show ?thesis
      using Cons.prems Cons.IH [of "i + 1" "ents @ [to_file x]" "i + 1"] Cons.IH [of "i + 1" ents c] by auto
  next
    case False
    then have "drop (c - i) (x # xs) = drop (c - (i + 1)) xs" by (simp add: drop_step)
    with False Cons.prems Cons.IH [of "i + 1" ents c] show ?thesis by auto
  qed
qed simp

lemma emit_count:
  assumes "int (length ents) < n" and "i + length xs = N"
  shows "let L = files (drop (c - i) xs); m = nat n - length ents in
    if length L < m then \<exists>c'. emit n N i (map Inr xs) ents c = (ents @ L, c', WDone)
    else \<exists>c'. emit n N i (map Inr xs) ents c = (ents @ take m L, c', WFull (c' = N)) \<and>
      i < c' \<and> c' \<le> N \<and> files (drop (c' - i) xs) = drop m L"
  using assms
proof (induction xs arbitrary: i ents c)
  case (Cons x xs)
  show ?case
  proof (cases "c \<le> i \<and> visible x")
    case True
    define m where "m = nat n - length ents"
    have m: "0 < m" using Cons.prems(1) by (simp add: m_def)
    show ?thesis
    proof (cases "m = 1")
      case one: True
      then have "int (length ents) + 1 = n" using Cons.prems(1) by (simp add: m_def)
      with True Cons.prems one show ?thesis
        by (auto simp: Let_def m_def [symmetric] intro!: exI [of _ "i + 1"])
    next
      case False
      then have g: "int (length ents) + 1 < n" "\<not> int (length ents) + 1 = n"
        using Cons.prems(1) by (auto simp: m_def)
      obtain m0 where m0: "nat n - length ents = Suc m0" "nat n - Suc (length ents) = m0"
        using m unfolding m_def by (metis Suc_diff_Suc Suc_pred diff_Suc_Suc diff_Suc_eq_diff_pred diff_commute gr0_implies_Suc zero_less_diff)
      have "emit n N i (map Inr (x # xs)) ents c = emit n N (i + 1) (map Inr xs) (ents @ [to_file x]) (i + 1)"
        using True g(2) by simp
      moreover have "files (drop (c - i) (x # xs)) = to_file x # files xs" using True by simp
      ultimately show ?thesis
        using Cons.IH [of "ents @ [to_file x]" "i + 1" "i + 1"] Cons.prems g(1) unfolding m0(1)
        by (auto simp: Let_def m0(2) drop_step split: if_splits)
    qed
  next
    case False
    then have "files (drop (c - i) (x # xs)) = files (drop (c - (i + 1)) xs)" by (auto simp: drop_Cons')
    moreover have "emit n N i (map Inr (x # xs)) ents c = emit n N (i + 1) (map Inr xs) ents c" using False by auto
    ultimately show ?thesis
      using Cons.IH [of ents "i + 1" c] Cons.prems by (auto simp: Let_def drop_step split: if_splits)
  qed
qed (simp add: Let_def)

section \<open>A readable directory\<close>

text \<open>A directory all of whose blocks load and hold well-formed entries: \<open>xss\<close> is what they hold,
  block by block.\<close>

definition good_dir :: "image \<Rightarrow> inode \<Rightarrow> (Dirent \<times> bytes) list list \<Rightarrow> bool" where
  "good_dir img fi xss \<longleftrightarrow>
     blkbits img \<le> 16 \<and> 0 \<le> fsize fi \<and> fsize fi \<le> 2 ^ 62 \<and>
     int (length xss) = calculateBlocks (blkbits img) (fsize fi) \<and>
     (\<forall>j < length xss. \<exists>blk. loadBlock img fi (int j * 2 ^ blkbits img) = Inr blk \<and>
        block_ok (block_bytes blk) \<and>
        map (entry (block_bytes blk)) [0..<entry_count (block_bytes blk)] = map Inr (xss ! j))"

lemma good_dir_pos:
  assumes "good_dir img fi xss"
  shows "j < length xss \<longleftrightarrow> int j * 2 ^ blkbits img < fsize fi"
    and "j \<le> length xss \<Longrightarrow> int j * 2 ^ blkbits img \<le> 2 ^ 62 + 65536"
proof -
  let ?B = "2 ^ blkbits img :: int"
  have sz: "0 \<le> fsize fi" "fsize fi \<le> 2 ^ 62" and k: "blkbits img \<le> 16"
    and l: "int (length xss) = calculateBlocks (blkbits img) (fsize fi)"
    using assms by (auto simp: good_dir_def)
  have B: "0 < ?B" "?B \<le> 2 ^ 16" by simp (use k in \<open>intro power_increasing; simp\<close>)
  have up: "fsize fi \<le> int (length xss) * ?B" and lo: "(int (length xss) - 1) * ?B < fsize fi"
    using calculateBlocks_bounds [where sz = "fsize fi" and k = "blkbits img"] by (simp_all add: l)
  show "j < length xss \<longleftrightarrow> int j * ?B < fsize fi"
  proof
    assume "j < length xss"
    then have "int j * ?B \<le> (int (length xss) - 1) * ?B" by (intro mult_right_mono) auto
    with lo show "int j * ?B < fsize fi" by linarith
  next
    assume "int j * ?B < fsize fi"
    with up have "int j * ?B < int (length xss) * ?B" by linarith
    then show "j < length xss" using B(1) by (simp add: mult_less_cancel_right)
  qed
  assume "j \<le> length xss"
  then have "int j * ?B \<le> int (length xss) * ?B" by (intro mult_right_mono) auto
  also have "\<dots> = (int (length xss) - 1) * ?B + ?B" by (simp add: algebra_simps)
  also have "\<dots> \<le> 2 ^ 62 + 65536" using lo B(2) sz(2) by simp
  finally show "int j * ?B \<le> 2 ^ 62 + 65536" .
qed

lemma good_dir_shl:
  assumes "good_dir img fi xss" and "j \<le> length xss"
  shows "shl64 (int j) (blkbits img) = int j * 2 ^ blkbits img" and "i64 (int j * 2 ^ blkbits img) = int j * 2 ^ blkbits img"
    and "i64 (int j + 1) = int (Suc j)"
proof -
  have b: "int j * 2 ^ blkbits img \<le> 2 ^ 62 + 65536" by (rule good_dir_pos(2) [OF assms])
  then show r: "i64 (int j * 2 ^ blkbits img) = int j * 2 ^ blkbits img" by (intro i64_id_nonneg) simp_all
  then show "shl64 (int j) (blkbits img) = int j * 2 ^ blkbits img" by (simp add: shl64_def push_bit_eq_mult)
  have "int j * 1 \<le> int j * 2 ^ blkbits img" by (intro mult_left_mono) simp_all
  with b show "i64 (int j + 1) = int (Suc j)" by (subst i64_id_nonneg) simp_all
qed

text \<open>The entries a position has still to hand out.\<close>

definition remaining :: "(Dirent \<times> bytes) list list \<Rightarrow> nat \<Rightarrow> nat \<Rightarrow> (Dirent \<times> bytes) list" where
  "remaining xss j c = drop c (concat (take 1 (drop j xss))) @ concat (drop (Suc j) xss)"

lemma remaining_block: "j < length xss \<Longrightarrow> remaining xss j c = drop c (xss ! j) @ remaining xss (Suc j) 0"
  by (simp add: remaining_def Cons_nth_drop_Suc [symmetric, of j] take_Suc_conv_app_nth)
    (cases "drop (Suc j) xss"; simp add: drop_Suc flip: tl_drop)

lemma remaining_end: "length xss \<le> j \<Longrightarrow> remaining xss j c = []"
  by (simp add: remaining_def)

definition at_entry :: "dir \<Rightarrow> nat \<Rightarrow> nat \<Rightarrow> bool" where
  "at_entry d j c \<longleftrightarrow> dbn d = int j \<and> dconsumed d = c"

lemma readDirLoop_all:
  assumes g: "good_dir img fi xss" and "at_entry d j c" and "j \<le> length xss" and n: "n \<le> 0"
  shows "\<exists>d'. readDirLoop img fi n d ents = Some (d', ents @ files (remaining xss j c), None) \<and>
    at_entry d' (length xss) (if j = length xss then c else 0) \<and> dfile d' = dfile d"
  using assms(2,3)
proof (induction "length xss - j" arbitrary: d ents j c)
  case 0
  then have j: "j = length xss" by simp
  have "\<not> shl64 (dbn d) (blkbits img) < fsize fi"
    using 0 good_dir_shl(1) [OF g, of j] good_dir_pos(1) [OF g, of j] by (simp add: at_entry_def j)
  with n 0 j show ?case by (subst readDirLoop.simps) (simp add: Let_def remaining_end)
next
  case (Suc k)
  then have j: "j < length xss" by simp
  have pos: "shl64 (dbn d) (blkbits img) = int j * 2 ^ blkbits img" "int j * 2 ^ blkbits img < fsize fi"
    using Suc.prems good_dir_shl(1) [OF g, of j] good_dir_pos(1) [OF g, of j] j by (auto simp: at_entry_def)
  obtain blk where blk: "loadBlock img fi (int j * 2 ^ blkbits img) = Inr blk" "block_ok (block_bytes blk)"
    "map (entry (block_bytes blk)) [0..<entry_count (block_bytes blk)] = map Inr (xss ! j)"
    using g j by (auto simp: good_dir_def)
  obtain c' where e: "readDirBlock n (block_bytes blk) ents (dconsumed d) = (ents @ files (drop c (xss ! j)), c', WDone)"
    using readDirBlock_emit [OF blk(2), of n ents c] emit_all [OF n, of _ 0 "xss ! j" ents c] n Suc.prems(1)
    by (auto simp: blk(3) at_entry_def)
  have "\<exists>d'. readDirLoop img fi n (d\<lparr>dconsumed := 0, dbn := i64 (dbn d + 1)\<rparr>) (ents @ files (drop c (xss ! j))) =
      Some (d', (ents @ files (drop c (xss ! j))) @ files (remaining xss (Suc j) 0), None) \<and>
      at_entry d' (length xss) (if Suc j = length xss then 0 else 0) \<and> dfile d' = dfile (d\<lparr>dconsumed := 0, dbn := i64 (dbn d + 1)\<rparr>)"
    by (rule Suc.hyps) (use Suc.hyps(2) Suc.prems j good_dir_shl(3) [OF g, of j] in \<open>auto simp: at_entry_def\<close>)
  then show ?case
    using j by (subst readDirLoop.simps) (auto simp: Let_def pos blk(1) e remaining_block [OF j])
qed

lemma readDirLoop_count:
  assumes g: "good_dir img fi xss" and "at_entry d j c" and "j \<le> length xss" and "int (length ents) < n"
  shows "let L = files (remaining xss j c); m = nat n - length ents in
    if length L < m
    then \<exists>d'. readDirLoop img fi n d ents = Some (d', ents @ L, Some EOF) \<and> at_entry d' (length xss) (if j = length xss then c else 0) \<and>
      dfile d' = dfile d
    else \<exists>d' j' c'. readDirLoop img fi n d ents = Some (d', ents @ take m L, None) \<and> at_entry d' j' c' \<and>
      j' \<le> length xss \<and> files (remaining xss j' c') = drop m L \<and> dfile d' = dfile d"
  using assms(2-)
proof (induction "length xss - j" arbitrary: d ents j c)
  case 0
  then have j: "j = length xss" by simp
  have "\<not> shl64 (dbn d) (blkbits img) < fsize fi"
    using 0 good_dir_shl(1) [OF g, of j] good_dir_pos(1) [OF g, of j] by (simp add: at_entry_def j)
  with 0 j show ?case by (subst (1 2) readDirLoop.simps) (simp add: Let_def remaining_end)
next
  case (Suc k)
  then have j: "j < length xss" by simp
  have pos: "shl64 (dbn d) (blkbits img) = int j * 2 ^ blkbits img" "int j * 2 ^ blkbits img < fsize fi"
    using Suc.prems good_dir_shl(1) [OF g, of j] good_dir_pos(1) [OF g, of j] j by (auto simp: at_entry_def)
  obtain blk where blk: "loadBlock img fi (int j * 2 ^ blkbits img) = Inr blk" "block_ok (block_bytes blk)"
    "map (entry (block_bytes blk)) [0..<entry_count (block_bytes blk)] = map Inr (xss ! j)"
    using g j by (auto simp: good_dir_def)
  have len: "length (xss ! j) = entry_count (block_bytes blk)" using arg_cong [OF blk(3), of length] by simp
  define Lb where "Lb = files (drop c (xss ! j))"
  define R where "R = files (remaining xss (Suc j) 0)"
  define m where "m = nat n - length ents"
  define d1 where "d1 = d\<lparr>dconsumed := 0, dbn := i64 (dbn d + 1)\<rparr>"
  have L: "files (remaining xss j c) = Lb @ R" using remaining_block [OF j] by (simp add: Lb_def R_def)
  have d1: "at_entry d1 (Suc j) 0" "dfile d1 = dfile d"
    using Suc.prems(1) good_dir_shl(3) [OF g, of j] j by (simp_all add: d1_def at_entry_def)
  note em = emit_count [OF Suc.prems(3), of 0 "xss ! j" "entry_count (block_bytes blk)" c,
      unfolded Let_def diff_zero, folded Lb_def m_def]
  have rb: "readDirBlock n (block_bytes blk) ents (dconsumed d) =
      emit n (entry_count (block_bytes blk)) 0 (map Inr (xss ! j)) ents c"
    using readDirBlock_emit [OF blk(2), of n ents c] Suc.prems by (simp add: blk(3) at_entry_def)
  show ?case
  proof (cases "length Lb < m")
    case True
    then obtain c' where e: "readDirBlock n (block_bytes blk) ents (dconsumed d) = (ents @ Lb, c', WDone)"
      using em len rb by auto
    have step: "readDirLoop img fi n d ents = readDirLoop img fi n d1 (ents @ Lb)"
      by (subst readDirLoop.simps) (simp add: Let_def pos blk(1) e d1_def)
    have k: "k = length xss - Suc j" "Suc j \<le> length xss" using Suc.hyps(2) j by auto
    have lt: "int (length (ents @ Lb)) < n" and m': "nat n - length (ents @ Lb) = m - length Lb"
      using True Suc.prems(3) by (auto simp: m_def)
    note ih = Suc.hyps(1) [OF k(1) d1(1) k(2) lt, unfolded Let_def m', folded R_def]
    have iff: "length R < m - length Lb \<longleftrightarrow> length (Lb @ R) < m" using True by auto
    show ?thesis
      using ih True d1(2) j unfolding step L m_def [symmetric] Let_def iff
      by (cases "length (Lb @ R) < m") auto
  next
    case False
    then obtain c' where e: "readDirBlock n (block_bytes blk) ents (dconsumed d) =
        (ents @ take m Lb, c', WFull (c' = entry_count (block_bytes blk)))"
      and c': "c' \<le> entry_count (block_bytes blk)" "files (drop c' (xss ! j)) = drop m Lb"
      using em len rb by auto
    have tk: "take m (Lb @ R) = take m Lb" "drop m (Lb @ R) = drop m Lb @ R" using False by auto
    show ?thesis
    proof (cases "c' = entry_count (block_bytes blk)")
      case whole: True
      then have "drop m Lb = []" using c'(2) len by simp
      moreover have "readDirLoop img fi n d ents = Some (d1, ents @ take m Lb, None)"
        by (subst readDirLoop.simps) (simp add: Let_def pos blk(1) e d1_def whole)
      ultimately show ?thesis
        using d1 j False tk unfolding L m_def [symmetric] Let_def
        by (auto simp: R_def) (metis Suc_leI)
    next
      case mid: False
      have "readDirLoop img fi n d ents = Some (d\<lparr>dconsumed := c'\<rparr>, ents @ take m Lb, None)"
        by (subst readDirLoop.simps) (simp add: Let_def pos blk(1) e mid)
      moreover have "at_entry (d\<lparr>dconsumed := c'\<rparr>) j c'" using Suc.prems(1) by (simp add: at_entry_def)
      moreover have "files (remaining xss j c') = drop m Lb @ R" using remaining_block [OF j, of c'] c'(2) by (simp add: R_def)
      ultimately show ?thesis
        using j False tk unfolding L m_def [symmetric] Let_def
        by (auto) (metis less_imp_le)
    qed
  qed
qed

section \<open>Looking up in a sorted directory\<close>

lemma entry_nth:
  assumes "block_ok b" and "map (entry b) [0..<entry_count b] = map Inr xs"
  shows "length xs = entry_count b" and "i < entry_count b \<Longrightarrow> entry b i = Inr (xs ! i)"
proof -
  show l: "length xs = entry_count b" using arg_cong [OF assms(2), of length] by simp
  show "entry b i = Inr (xs ! i)" if "i < entry_count b"
    using arg_cong [OF assms(2), of "\<lambda>l. l ! i"] that l by simp
qed

lemma name_checked: "checkDirentName nm = Inr () \<longleftrightarrow> nm \<noteq> [] \<and> 47 \<notin> set nm \<and> 0 \<notin> set nm"
  by (simp add: checkDirentName_def)

lemma firstName_entry:
  assumes ok: "block_ok b" and e: "entry b 0 = Inr (de, nm)"
  shows "blockFirstName b = Inr nm"
proof -
  have N: "0 < entry_count b" using ok by (simp add: block_ok_def)
  have nm: "name_ok b 0" "nm = name_at b 0" "checkDirentName nm = Inr ()"
    using e unfolding entry_eq [OF ok N] by (auto split: if_splits)
  have nz: "0 \<notin> set nm" using nm(3) by (simp add: name_checked)
  have first: "Dirent_Unmarshal b = Inr (dirent_at b 0)"
    using unmarshal_drop [of 0 b] ok by (simp add: block_ok_def dirent_at_def)
  have f: "de_NameOff (dirent_at b 0) = le16 b 8" by (simp add: dirent_at_def)
  show ?thesis
  proof (cases "1 < entry_count b")
    case True
    then have "24 \<le> length b" using block_dirents_fit [OF ok True] by simp
    moreover have "IndexByte (window b (unat (le16 b 8)) (unat (le16 b 20) - unat (le16 b 8))) 0 = None"
      and "nm = window b (unat (le16 b 8)) (unat (le16 b 20) - unat (le16 b 8))"
      and "unat (le16 b 8) \<le> unat (le16 b 20)" "unat (le16 b 20) \<le> length b"
      using nm(1,2) nz True by (simp_all add: IndexByte_None name_at_def name_end_def name_ok_def Let_def)
    moreover have "\<not> length b < unat (le16 b 8)" "entry_count b \<noteq> 0" using ok by (simp_all add: block_ok_def)
    ultimately show ?thesis
      using True nm(3) unfolding blockFirstName_def first bindE_simps Let_def f entry_count_def [symmetric]
      by simp
  next
    case False
    then have N1: "entry_count b = 1" using N by simp
    have lo: "unat (le16 b 8) \<le> length b" using ok by (simp add: block_ok_def)
    have "(case IndexByte (window b (unat (le16 b 8)) (length b - unat (le16 b 8))) 0 of
        Some i \<Rightarrow> take i (window b (unat (le16 b 8)) (length b - unat (le16 b 8)))
      | None \<Rightarrow> window b (unat (le16 b 8)) (length b - unat (le16 b 8))) = nm"
      unfolding trim_window(1) [OF lo] using nm(2) N1 by (simp add: name_at_def name_end_def Let_def)
    moreover have "12 \<le> length b" using ok by (simp add: block_ok_def)
    ultimately show ?thesis
      using N1 nm(3) lo unfolding blockFirstName_def first bindE_simps Let_def f entry_count_def [symmetric]
      by simp
  qed
qed

text \<open>Where a property that only falls along a sequence ends.\<close>

lemma threshold:
  fixes n :: nat
  assumes "\<And>i j. i < j \<Longrightarrow> j < n \<Longrightarrow> P j \<Longrightarrow> P i"
  shows "\<exists>c \<le> n. (\<forall>i < c. P i) \<and> (\<forall>i. c \<le> i \<longrightarrow> i < n \<longrightarrow> \<not> P i)"
proof -
  define c where "c = (LEAST i. i \<ge> n \<or> \<not> P i)"
  have c: "c \<ge> n \<or> \<not> P c" unfolding c_def by (rule LeastI [of _ n]) simp
  have "c \<le> n" unfolding c_def by (rule Least_le) simp
  moreover have "\<forall>i < c. P i" unfolding c_def using not_less_Least by blast
  moreover have "\<not> P i" if "c \<le> i" "i < n" for i
    using c that assms [of c i] by (cases "c = i") auto
  ultimately show ?thesis by blast
qed

text \<open>In one block with its names in order.\<close>

definition found :: "(Dirent \<times> bytes) list \<Rightarrow> bytes \<Rightarrow> (u64 \<times> FileMode) result" where
  "found xs target =
     (case find (\<lambda>x. snd x = target) xs of
        Some x \<Rightarrow> Inr (de_Nid (fst x), EroFSFtypeToFileMode (de_FileType (fst x)))
      | None \<Rightarrow> Inl ErrNotExist)"

lemma find_sorted:
  fixes xs :: "(Dirent \<times> bytes) list"
  assumes "sorted_wrt (<) (map snd xs)" and "x \<in> set xs"
  shows "find (\<lambda>y. snd y = snd x) xs = Some x"
proof -
  obtain i where i: "i < length xs" "xs ! i = x" using assms(2) by (auto simp: in_set_conv_nth)
  have "snd (xs ! j) < snd (xs ! i)" if "j < i" for j
    using assms(1) that i(1) by (auto simp: sorted_wrt_iff_nth_less)
  note less_imp_neq [OF this]
  with i show ?thesis unfolding find_Some_iff by (intro exI [of _ i]) auto
qed

lemma lookupBlock_sorted:
  assumes ok: "block_ok b" and xs: "map (entry b) [0..<entry_count b] = map Inr xs"
    and s: "sorted_wrt (<) (map snd xs)"
  shows "lookupBlock b target = found xs target"
proof -
  let ?N = "entry_count b"
  note e = entry_nth [OF ok xs]
  have "lookupBlock b target = lookupDirents b ?N target 0 ?N"
    using unmarshal_drop [of 0 b] ok by (simp add: lookupBlock_def block_ok_def entry_count_def Let_def)
  have probe: "dirent_probe b ?N target i =
      (if snd (xs ! i) = target
       then PStop (Inr (de_Nid (fst (xs ! i)), EroFSFtypeToFileMode (de_FileType (fst (xs ! i)))))
       else if snd (xs ! i) < target then PUp () else PDown)" if "i < ?N" for i
    using e(2) [OF that] by (cases "xs ! i") (simp add: dirent_probe_def)
  have mono: "snd (xs ! i) < snd (xs ! j)" if "i < j" "j < ?N" for i j
    using s that e(1) by (auto simp: sorted_wrt_iff_nth_less)
  have "lookupDirents b ?N target 0 ?N = found xs target"
  proof (cases "\<exists>c < ?N. snd (xs ! c) = target")
    case True
    then obtain c where c: "c < ?N" "snd (xs ! c) = target" by blast
    have "lookupDirents b ?N target 0 ?N = Inr (de_Nid (fst (xs ! c)), EroFSFtypeToFileMode (de_FileType (fst (xs ! c))))"
    proof (rule dirents.search_hit [of 0 c])
      show "\<exists>a. dirent_probe b ?N target i = PUp a" if "i < c" for i
        using mono [OF that c(1)] probe [of i] that c by auto
      show "dirent_probe b ?N target i = PDown" if "c < i" "i < ?N" for i
        using mono [OF that] probe [of i] that c less_asym less_irrefl by auto
    qed (use c probe in auto)
    with find_sorted [OF s, of "xs ! c"] c e(1) show ?thesis by (simp add: found_def)
  next
    case False
    obtain c where c: "c \<le> ?N" "\<forall>i < c. snd (xs ! i) < target" "\<forall>i. c \<le> i \<longrightarrow> i < ?N \<longrightarrow> \<not> snd (xs ! i) < target"
      using threshold [of ?N "\<lambda>i. snd (xs ! i) < target"] mono less_trans by blast
    have "lookupDirents b ?N target 0 ?N = Inl ErrNotExist"
      by (rule dirents.search_split [of 0 c, where f = "\<lambda>_. ()"]) (use c False probe in auto)
    moreover have "find (\<lambda>x. snd x = target) xs = None"
      using False e(1) by (auto simp: find_None_iff in_set_conv_nth)
    ultimately show ?thesis by (simp add: found_def)
  qed
  with \<open>lookupBlock b target = _\<close> show ?thesis by simp
qed


lemma sorted_concat:
  "sorted_wrt R (concat xss) \<longleftrightarrow> (\<forall>xs \<in> set xss. sorted_wrt R xs) \<and>
     sorted_wrt (\<lambda>xs ys. \<forall>x \<in> set xs. \<forall>y \<in> set ys. R x y) xss"
  by (induction xss) (auto simp: sorted_wrt_append)

lemma find_in_block:
  fixes xss :: "(Dirent \<times> bytes) list list"
  assumes "sorted_wrt (<) (map snd (concat xss))" and "j < length xss"
    and "\<And>i x. i < length xss \<Longrightarrow> x \<in> set (xss ! i) \<Longrightarrow> snd x = target \<Longrightarrow> i = j"
  shows "find (\<lambda>x. snd x = target) (concat xss) = find (\<lambda>x. snd x = target) (xss ! j)"
proof (cases "\<exists>x \<in> set (concat xss). snd x = target")
  case True
  then obtain x where x: "x \<in> set (concat xss)" "snd x = target" by blast
  then obtain i where "i < length xss" "x \<in> set (xss ! i)" by (auto simp: in_set_conv_nth [of _ xss])
  then have xj: "x \<in> set (xss ! j)" using assms(3) x(2) by blast
  have "sorted_wrt (\<lambda>x y. snd x < snd y) (concat xss)" using assms(1) by (simp add: sorted_wrt_map)
  then have "sorted_wrt (<) (map snd (xss ! j))" using assms(2) by (auto simp: sorted_concat sorted_wrt_map)
  from find_sorted [OF this xj] find_sorted [OF assms(1) x(1)] x(2) show ?thesis by simp
next
  case False
  then have "find (\<lambda>x. snd x = target) (concat xss) = None" "find (\<lambda>x. snd x = target) (xss ! j) = None"
    unfolding find_None_iff using nth_mem [OF assms(2)] by (blast, metis UN_I set_concat)
  then show ?thesis by simp
qed

lemma lookupBlocks_sorted:
  assumes g: "good_dir img fi xss" and s: "sorted_wrt (<) (map snd (concat xss))"
  shows "lookupBlocks img fi target 0 (length xss) None = found (concat xss) target"
proof -
  have s2: "sorted_wrt (\<lambda>x y. snd x < snd y) (concat xss)" using s by (simp add: sorted_wrt_map)
  have inner: "sorted_wrt (<) (map snd (xss ! j))" if "j < length xss" for j
    using s2 that by (auto simp: sorted_concat sorted_wrt_map)
  have across: "snd x < snd y" if "i < j" "j < length xss" "x \<in> set (xss ! i)" "y \<in> set (xss ! j)" for i j x y
    using s2 [unfolded sorted_concat, THEN conjunct2] that by (auto simp: sorted_wrt_iff_nth_less)
  have "\<forall>j. \<exists>b. j < length xss \<longrightarrow> (\<exists>blk. loadBlock img fi (int j * 2 ^ blkbits img) = Inr blk \<and> b = block_bytes blk) \<and>
        block_ok b \<and> map (entry b) [0..<entry_count b] = map Inr (xss ! j)"
    using g by (fastforce simp: good_dir_def)
  then obtain B where B: "\<And>j. j < length xss \<Longrightarrow> (\<exists>blk. loadBlock img fi (int j * 2 ^ blkbits img) = Inr blk \<and> B j = block_bytes blk)"
    "\<And>j. j < length xss \<Longrightarrow> block_ok (B j)"
    "\<And>j. j < length xss \<Longrightarrow> map (entry (B j)) [0..<entry_count (B j)] = map Inr (xss ! j)"
    by metis
  define first where "first j = snd (xss ! j ! 0)" for j
  have ne: "xss ! j \<noteq> []" and fn: "blockFirstName (B j) = Inr (first j)" if j: "j < length xss" for j
  proof -
    have N: "0 < entry_count (B j)" using B(2) [OF j] by (simp add: block_ok_def)
    note e = entry_nth [OF B(2) [OF j] B(3) [OF j]]
    show "xss ! j \<noteq> []" using e(1) N by auto
    show "blockFirstName (B j) = Inr (first j)"
      using firstName_entry [OF B(2) [OF j], of "fst (xss ! j ! 0)" "snd (xss ! j ! 0)"] e(2) [OF N] by (simp add: first_def)
  qed
  have probe: "block_probe img fi target j = (if first j \<le> target then PUp (Some (B j)) else PDown)"
    if j: "j < length xss" for j
    using B(1) [OF j] fn [OF j] good_dir_shl(2) [OF g, of j] j by (auto simp: block_probe_def)
  have mono: "first i < first j" if "i < j" "j < length xss" for i j
    using across [OF that] ne [of i] ne [of j] that by (simp add: first_def)
  have down: "first i \<le> target" if "i < j" "j < length xss" "first j \<le> target" for i j
    using less_imp_le [OF mono [OF that(1,2)]] that(3) by (rule order_trans)
  obtain c where c: "c \<le> length xss" "\<forall>i < c. first i \<le> target" "\<forall>i. c \<le> i \<longrightarrow> i < length xss \<longrightarrow> \<not> first i \<le> target"
    using threshold [of "length xss" "\<lambda>i. first i \<le> target"] down by auto
  have r: "lookupBlocks img fi target 0 (length xss) None =
      (case (if c = 0 then None else Some (B (c - 1))) of None \<Rightarrow> Inl ErrNotExist | Some b \<Rightarrow> lookupBlock b target)"
    by (rule blocks.search_split [where f = "\<lambda>j. Some (B j)"]) (use c probe in auto)
  have only: "Suc i = c" if i: "i < length xss" and x: "x \<in> set (xss ! i)" "snd x = target" for i x
  proof -
    obtain p where p: "p < length (xss ! i)" "xss ! i ! p = x" using x(1) by (auto simp: in_set_conv_nth)
    then have "first i \<le> target"
      using inner [OF i] x(2) by (cases "p = 0") (auto simp: first_def sorted_wrt_iff_nth_less intro: less_imp_le)
    then have "i < c" using c(3) i not_less by blast
    moreover have "\<not> Suc i < c"
    proof
      assume lt: "Suc i < c"
      then have "snd x < first (Suc i)"
        using across [of i "Suc i" x] x(1) ne [of "Suc i"] c(1) by (simp add: first_def)
      moreover have "first (Suc i) \<le> target" using c(2) lt by blast
      ultimately show False using x(2) by simp
    qed
    ultimately show ?thesis by simp
  qed
  show ?thesis
  proof (cases "c = 0")
    case True
    then have "find (\<lambda>x. snd x = target) (concat xss) = None"
      using only unfolding find_None_iff by (metis UN_E in_set_conv_nth nat.simps(3) set_concat)
    with r True show ?thesis by (simp add: found_def)
  next
    case False
    then have j: "c - 1 < length xss" using c(1) by simp
    have "find (\<lambda>x. snd x = target) (concat xss) = find (\<lambda>x. snd x = target) (xss ! (c - 1))"
      by (rule find_in_block [OF s j]) (use only in \<open>metis diff_Suc_1\<close>)
    then have "found (concat xss) target = found (xss ! (c - 1)) target" by (simp add: found_def)
    with r False lookupBlock_sorted [OF B(2) [OF j] B(3) [OF j] inner [OF j]] show ?thesis by simp
  qed
qed

section \<open>Names that are handed out\<close>

definition base_name :: "bytes \<Rightarrow> bool" where
  "base_name nm \<longleftrightarrow> nm \<noteq> [] \<and> 47 \<notin> set nm \<and> 0 \<notin> set nm \<and> nm \<noteq> dot \<and> nm \<noteq> dotdot"

lemma direntLoop_names:
  assumes "direntLoop b N n nb want k i cur used ents c = (ents', c', w)"
  shows "\<exists>new. ents' = ents @ new \<and> (\<forall>f \<in> set new. base_name (fname f))"
  using assms
proof (induction b N n nb want k i cur used ents c rule: direntLoop.induct)
  case (2 b N n nb want k i cur used ents c)
  show ?case
  proof (cases "\<exists>lo hi nx nm. direntBounds b N i cur = Inr (lo, hi, nx) \<and> \<not> lo < nb \<and> slice b lo hi = Inr nm \<and>
      checkDirentName nm = Inr ()")
    case True
    then obtain lo hi nx nm where r: "direntBounds b N i cur = Inr (lo, hi, nx)" "\<not> lo < nb" "slice b lo hi = Inr nm"
      "checkDirentName nm = Inr ()" by blast
    let ?f = "new_file nm (de_Nid cur) (EroFSFtypeToFileMode (de_FileType cur))"
    show ?thesis
    proof (cases "c \<le> i \<and> nm \<noteq> dot \<and> nm \<noteq> dotdot")
      case vis: True
      then have f: "base_name (fname ?f)" using r(4) by (simp add: base_name_def name_checked new_file_def)
      note ih = "2.IH"(1) [OF r(1) refl refl r(2,3,4)]
      show ?thesis
        using "2.prems" vis f r ih by (auto simp: Let_def split: if_splits)
    next
      case False
      then show ?thesis using "2.prems" r "2.IH"(2) [OF r(1) refl refl r(2,3,4)] by (auto split: if_splits)
    qed
  next
    case False
    then show ?thesis using "2.prems" by (auto split: sum.splits if_splits prod.splits)
  qed
qed simp

lemma readDirBlock_names:
  assumes "readDirBlock n b ents c = (ents', c', w)"
  shows "\<exists>new. ents' = ents @ new \<and> (\<forall>f \<in> set new. base_name (fname f))"
  using assms unfolding readDirBlock_def Let_def
  by (auto split: if_splits sum.splits dest!: direntLoop_names)

lemma readDirLoop_names:
  assumes "readDirLoop img fi n d ents = Some y" and "\<forall>f \<in> set ents. base_name (fname f)"
  shows "\<forall>f \<in> set (fst (snd y)). base_name (fname f)"
proof -
  have "(\<forall>f \<in> set ents. base_name (fname f)) \<longrightarrow> (\<forall>f \<in> set (fst (snd y)). base_name (fname f))"
    using assms(1)
  proof (rule readDirLoop.raw_induct [rotated], intro impI)
    fix RL img fi n d ents y
    assume ih: "\<And>img fi n d ents y. RL img fi n d ents = Some y \<Longrightarrow>
        (\<forall>f \<in> set ents. base_name (fname f)) \<longrightarrow> (\<forall>f \<in> set (fst (snd y)). base_name (fname f))"
      and step: "(let pos = shl64 (dbn d) (blkbits img);
          finish = Some (d, ents, if n > 0 then Some EOF else None)
      in if \<not> pos < fsize fi then finish
         else
           (case loadBlock img fi pos of
              Inl e \<Rightarrow> if errors_Is e EOF then finish else Some (d, [], Some e)
            | Inr blk \<Rightarrow>
                (case readDirBlock n (block_bytes blk) ents (dconsumed d) of
                   (ents, consumed, WFail e) \<Rightarrow> Some (d\<lparr>dconsumed := consumed\<rparr>, ents, Some e)
                 | (ents, consumed, WFull atEnd) \<Rightarrow>
                     Some (if atEnd then d\<lparr>dconsumed := 0, dbn := i64 (dbn d + 1)\<rparr>
                           else d\<lparr>dconsumed := consumed\<rparr>, ents, None)
                 | (ents, consumed, WDone) \<Rightarrow>
                     RL img fi n (d\<lparr>dconsumed := 0, dbn := i64 (dbn d + 1)\<rparr>) ents))) = Some y"
      and ok: "\<forall>f \<in> set ents. base_name (fname f)"
    show "\<forall>f \<in> set (fst (snd y)). base_name (fname f)"
    proof (cases "\<exists>blk. shl64 (dbn d) (blkbits img) < fsize fi \<and> loadBlock img fi (shl64 (dbn d) (blkbits img)) = Inr blk")
      case True
      then obtain blk where b: "shl64 (dbn d) (blkbits img) < fsize fi"
        "loadBlock img fi (shl64 (dbn d) (blkbits img)) = Inr blk" by blast
      obtain ents' c' w where r: "readDirBlock n (block_bytes blk) ents (dconsumed d) = (ents', c', w)"
        by (metis prod_cases3)
      have ok': "\<forall>f \<in> set ents'. base_name (fname f)" using readDirBlock_names [OF r] ok by auto
      show ?thesis using step b r ok' ih by (cases w) (auto simp: Let_def)
    next
      case False
      then show ?thesis using step ok by (auto simp: Let_def split: sum.splits if_splits)
    qed
  qed
  with assms(2) show ?thesis by blast
qed

section \<open>Listing returns\<close>

text \<open>The position of a directory stays within its blocks.\<close>

definition dir_at :: "image \<Rightarrow> inode \<Rightarrow> dir \<Rightarrow> bool" where
  "dir_at img fi d \<longleftrightarrow> 0 \<le> dbn d \<and> dbn d \<le> calculateBlocks (blkbits img) (fsize fi)"

lemma block_pos:
  assumes k: "k \<le> 16" and sz: "sz \<le> 2 ^ 62" and j: "0 \<le> j" "j \<le> calculateBlocks k sz"
  shows "shl64 j k = j * 2 ^ k" and "j * 2 ^ k < sz \<longleftrightarrow> j < calculateBlocks k sz" and "i64 (j + 1) = j + 1"
proof -
  let ?nb = "calculateBlocks k sz"
  have B: "(0 :: int) < 2 ^ k" "(2 :: int) ^ k \<le> 2 ^ 16" by simp (use k in \<open>intro power_increasing; simp\<close>)
  note c = calculateBlocks_bounds [where k = k and sz = sz]
  have "j * 2 ^ k \<le> ?nb * 2 ^ k" using j by (intro mult_right_mono) auto
  also have "\<dots> = (?nb - 1) * 2 ^ k + 2 ^ k" by (simp add: algebra_simps)
  finally have le: "j * 2 ^ k \<le> 2 ^ 62 + 65536" using c(2) B(2) sz by simp
  then show "shl64 j k = j * 2 ^ k"
    using j(1) by (simp add: shl64_def push_bit_eq_mult i64_id_nonneg)
  have "j * 1 \<le> j * 2 ^ k" using j(1) B(1) by (intro mult_left_mono) auto
  with le j(1) show "i64 (j + 1) = j + 1" by (intro i64_id_nonneg) auto
  show "j * 2 ^ k < sz \<longleftrightarrow> j < ?nb"
  proof
    assume "j * 2 ^ k < sz"
    with c(1) have "j * 2 ^ k < ?nb * 2 ^ k" by linarith
    then show "j < ?nb" using B(1) by (simp add: mult_less_cancel_right)
  next
    assume "j < ?nb"
    then have "j * 2 ^ k \<le> (?nb - 1) * 2 ^ k" by (intro mult_right_mono) auto
    with c(2) show "j * 2 ^ k < sz" by linarith
  qed
qed

lemma readDirLoop_total:
  assumes k: "blkbits img \<le> 16" and sz: "fsize fi \<le> 2 ^ 62" and "dir_at img fi d"
  shows "\<exists>d' ents' e. readDirLoop img fi n d ents = Some (d', ents', e) \<and> dir_at img fi d' \<and> dfile d' = dfile d"
  using assms(3)
proof (induction "nat (calculateBlocks (blkbits img) (fsize fi) - dbn d)" arbitrary: d ents rule: less_induct)
  case less
  note p = block_pos [OF k sz, of "dbn d"]
  have b: "0 \<le> dbn d" "dbn d \<le> calculateBlocks (blkbits img) (fsize fi)" using less.prems by (auto simp: dir_at_def)
  show ?case
  proof (cases "\<exists>blk. dbn d < calculateBlocks (blkbits img) (fsize fi) \<and> loadBlock img fi (dbn d * 2 ^ blkbits img) = Inr blk")
    case False
    then show ?thesis
      using less.prems p(1,2) [OF b] by (subst readDirLoop.simps) (auto simp: Let_def split: sum.splits)
  next
    case True
    then obtain blk where lt: "dbn d < calculateBlocks (blkbits img) (fsize fi)"
      and blk: "loadBlock img fi (dbn d * 2 ^ blkbits img) = Inr blk" by blast
    obtain ents' c' w where r: "readDirBlock n (block_bytes blk) ents (dconsumed d) = (ents', c', w)"
      by (metis prod_cases3)
    let ?d = "d\<lparr>dconsumed := 0, dbn := dbn d + 1\<rparr>"
    have ok: "dir_at img fi ?d" using lt b by (simp add: dir_at_def)
    have "\<exists>d' ents'' e. readDirLoop img fi n ?d ents' = Some (d', ents'', e) \<and> dir_at img fi d' \<and> dfile d' = dfile ?d"
      using lt ok by (intro less.hyps) auto
    with lt blk r ok less.prems p [OF b] show ?thesis
      by (subst readDirLoop.simps) (cases w; auto simp: Let_def dir_at_def)
  qed
qed

section \<open>A concrete directory\<close>

definition sample_dirents :: bytes where
  "sample_dirents =
     [4, 0, 0, 0, 0, 0, 0, 0, 36, 0, 2, 0, 4, 0, 0, 0, 0, 0, 0, 0, 37, 0, 2, 0,
      15, 0, 0, 0, 0, 0, 0, 0, 39, 0, 1, 0, 46, 46, 46, 97]"

definition sample_dir :: bytes where
  "sample_dir = [4, 0, 0, 0, 0xED, 0x41, 2, 0, 40, 0, 0, 0] @ replicate 20 0 @ sample_dirents @ replicate 312 0"

definition sample_dir_inode :: inode where
  "sample_dir_inode = (sample_inode 4 2 40)\<lparr>imode := ModeDir OR 0x1ED, rawMode := 0x41ED, inlink := 2\<rparr>"

definition sample_list :: "(Dirent \<times> bytes) list" where
  "sample_list =
     [(\<lparr> de_Nid = 4, de_NameOff = 36, de_FileType = 2, de_Reserved = 0 \<rparr>, dot),
      (\<lparr> de_Nid = 4, de_NameOff = 37, de_FileType = 2, de_Reserved = 0 \<rparr>, dotdot),
      (\<lparr> de_Nid = 15, de_NameOff = 39, de_FileType = 1, de_Reserved = 0 \<rparr>, [97])]"

lemma length_sample_dir [simp]: "length sample_dir = 384" "length sample_dirents = 40"
  by (simp_all add: sample_dir_def sample_dirents_def)

lemma sample_dir_read:
  "readInfo (sample_img sample_dir) (new_file [] 4 ModeDir) =
     ((new_file [] 4 ModeDir)\<lparr>finfo := Some sample_dir_inode\<rparr>, Inr sample_dir_inode)"
proof -
  have "decodeInfo (sample_img sample_dir) [] 4 ModeDir sample_dir = (Some sample_dir_inode, Inr sample_dir_inode)"
    by (simp add: decodeInfo_def sample_dir_def le16_def le32_def le64_def window_def Let_def checkInodeFormat_def
      decodeInode_def InodeCompact_Unmarshal_def FileMode_Type_def EroFSModeToGoFileMode_def finishInfo_def finishTarget_def
      checkChunkFormat_def i64_def sample_inode_def sample_dir_inode_def)
  moreover have "checkNid (sample_img sample_dir) 4 = Inr ()"
    by (simp add: checkNid_def i64_def Let_def)
  ultimately show ?thesis
    by (simp add: readInfo_def readInode_def new_file_def sample_read_inode)
qed

lemma sample_dir_block:
  "\<exists>blk. loadBlock (sample_img sample_dir) sample_dir_inode 0 = Inr blk \<and> block_bytes blk = sample_dirents"
proof -
  have "ra_read (bytes_reader (sample_with sample_dir)) 1184 40 = (sample_dirents, None)"
    by (simp add: bytes_reader_def sample_with_def window_def sample_dir_def)
  moreover have "viewed (loadBlock_in (getBlock (sample_img sample_dir)) (sample_img sample_dir) sample_dir_inode 0) = Inr (160, 200, sample_dirents)"
    using calculation
    by (simp add: loadBlock_in_def sample_inode_def sample_dir_inode_def Let_def calculateBlocks_def flatDataOffset_def loadFlat_in_def
        bad_bounds_def i64_def checkImageRange_def view_read getBlock_def)
  ultimately show ?thesis
    by (cases "loadBlock_in (getBlock (sample_img sample_dir)) (sample_img sample_dir) sample_dir_inode 0") (auto simp: loadBlock_def block_view_def)
qed

lemma sample_dir_good: "good_dir (sample_img sample_dir) sample_dir_inode [sample_list]"
proof -
  have "block_ok sample_dirents \<and> entry_count sample_dirents = 3" 
    by (simp add: block_ok_def entry_count_def sample_dirents_def le16_def window_def)
  moreover have "map (\<lambda>i. blockDirent sample_dirents i 3) [0..<3] = map Inr sample_list"
    by (simp add: upt_rec numeral_3_eq_3 sample_dirents_def sample_list_def blockDirent_def Dirent_Unmarshal_def le16_def le64_def
      window_def dot_def dotdot_def checkDirentName_def slice_def Let_def)
  ultimately show ?thesis
    using sample_dir_block by (auto simp: good_dir_def sample_dir_inode_def sample_inode_def calculateBlocks_def)
qed


abbreviation sample_open_dir :: dir where
  "sample_open_dir \<equiv> new_dir (new_file [] 4 ModeDir)"

lemma ReadDir_info:
  "readInfo img (dfile d) = (f, Inr fi) \<Longrightarrow> ReadDir img d n = readDirLoop img fi n (d\<lparr>dfile := f\<rparr>) []"
  by (simp add: ReadDir_def)

lemma sample_dir_info:
  "readInfo (sample_img sample_dir) (dfile sample_open_dir) =
     ((new_file [] 4 ModeDir)\<lparr>finfo := Some sample_dir_inode\<rparr>, Inr sample_dir_inode)"
  using sample_dir_read by (simp add: new_dir_def)

lemma sample_dir_files: "files (remaining [sample_list] 0 0) = [new_file [97] 15 0]"
  by (simp add: remaining_def sample_list_def visible_def dot_def dotdot_def to_file_def EroFSFtypeToFileMode_def)

lemma lookup_found:
  assumes "readInfo img (dfile d) = (f, Inr fi)" and "good_dir img fi xss"
    and "sorted_wrt (<) (map snd (concat xss))"
  shows "lookup img d target = (d\<lparr>dfile := f\<rparr>, found (concat xss) target)"
proof -
  have g: "0 \<le> fsize fi" "fsize fi \<le> 2 ^ 62" "blkbits img \<le> 16" "int (length xss) = calculateBlocks (blkbits img) (fsize fi)"
    using assms(2) by (auto simp: good_dir_def)
  have "go_div (i64 (fsize fi + 2 ^ blkbits img - 1)) (2 ^ blkbits img) = int (length xss)"
  proof (cases "fsize fi = 0")
    case True
    have "(2 :: int) ^ blkbits img \<le> 2 ^ 16" using g(3) by (intro power_increasing) auto
    then have "i64 (2 ^ blkbits img - 1) = 2 ^ blkbits img - 1" by (intro i64_id_nonneg) simp_all
    with True g(4) show ?thesis by (simp add: go_div_def calculateBlocks_eq)
  next
    case False
    with g blocks_eq(1) [of "fsize fi" "blkbits img"] show ?thesis by simp
  qed
  with assms(1) lookupBlocks_sorted [OF assms(2,3)] show ?thesis by (simp add: lookup_def)
qed

section \<open>Properties\<close>

text \<open>
  C2. \<open>lookup\<close> is correct on a sorted directory: where every block loads and parses and the names
  ascend across the whole directory, the two nested binary searches find exactly the entries
  that are there, with their nid and type, and report \<open>ErrNotExist\<close> for every other name.
\<close>

theorem lookup_finds_exactly:
  assumes "readInfo img (dfile d) = (f, Inr fi)" and "good_dir img fi xss"
    and "sorted_wrt (<) (map snd (concat xss))"
  shows "lookup img d target = (d\<lparr>dfile := f\<rparr>, found (concat xss) target)"
  by (rule lookup_found [OF assms])

theorem lookup_finds_exactly_witness:
  "snd (lookup (sample_img sample_dir) sample_open_dir [97]) = Inr (15, 0) \<and>
   snd (lookup (sample_img sample_dir) sample_open_dir [98]) = Inl ErrNotExist"
proof -
  have s: "sorted_wrt (<) (map snd (concat [sample_list]))"
    by (simp add: sample_list_def dot_def dotdot_def)
  show ?thesis
    unfolding lookup_finds_exactly [OF sample_dir_info sample_dir_good s]
    by (simp add: found_def sample_list_def dot_def dotdot_def EroFSFtypeToFileMode_def)
qed

text \<open>
  C14. \<open>ReadDir\<close> without a count lists the whole directory: every entry of every block once, in
  order, except \<open>.\<close> and \<open>..\<close>, with its name, nid and type, and no error.
\<close>

theorem ReadDir_lists_all:
  assumes "readInfo img (dfile d) = (f, Inr fi)" and "good_dir img fi xss" and "n \<le> 0"
    and "dbn d = 0" and "dconsumed d = 0"
  shows "\<exists>d'. ReadDir img d n = Some (d', map to_file (filter visible (concat xss)), None)"
proof -
  have "remaining xss 0 0 = concat xss" by (cases xss) (simp_all add: remaining_def)
  with readDirLoop_all [OF assms(2), of "d\<lparr>dfile := f\<rparr>" 0 0 n "[]"] assms show ?thesis
    by (auto simp: ReadDir_info [OF assms(1)] at_entry_def)
qed

theorem ReadDir_lists_all_witness:
  "\<exists>d'. ReadDir (sample_img sample_dir) sample_open_dir (- 1) = Some (d', [new_file [97] 15 0], None)"
proof -
  from ReadDir_lists_all [OF sample_dir_info sample_dir_good, of "- 1"] show ?thesis
    by (simp add: new_dir_def sample_list_def visible_def dot_def dotdot_def to_file_def EroFSFtypeToFileMode_def)
qed

text \<open>
  C3. Paging through a directory loses and repeats nothing: from any position a listing can be
  left at, \<open>ReadDir\<close> of a positive count hands out the next entries, exactly that many or, with
  \<open>io.EOF\<close>, all that are left, and leaves the directory where the others follow.
\<close>

theorem ReadDir_pages:
  assumes "readInfo img (dfile d) = (f, Inr fi)" and "good_dir img fi xss" and "n > 0"
    and "dbn d = int j" and "dconsumed d = c" and "j \<le> length xss"
  shows "\<exists>d' ents e j' c'. ReadDir img d n = Some (d', ents, e) \<and>
    map to_file (filter visible (remaining xss j c)) = ents @ map to_file (filter visible (remaining xss j' c')) \<and>
    dbn d' = int j' \<and> dconsumed d' = c' \<and> j' \<le> length xss \<and> dfile d' = f \<and>
    (e = None \<and> int (length ents) = n \<or> e = Some EOF \<and> int (length ents) < n \<and> remaining xss j' c' = [])"
proof -
  let ?L = "files (remaining xss j c)"
  have at: "at_entry (d\<lparr>dfile := f\<rparr>) j c" using assms by (simp add: at_entry_def)
  note r = readDirLoop_count [OF assms(2) at assms(6), of "[]" n, unfolded Let_def]
  show ?thesis
  proof (cases "length ?L < nat n")
    case True
    with r assms(3) obtain d' where "ReadDir img d n = Some (d', ?L, Some EOF)"
      "at_entry d' (length xss) (if j = length xss then c else 0)" "dfile d' = f"
      by (auto simp: ReadDir_info [OF assms(1)])
    with True show ?thesis by (auto simp: at_entry_def remaining_end)
  next
    case False
    with r assms(3) obtain d' j' c' where "ReadDir img d n = Some (d', take (nat n) ?L, None)"
      "at_entry d' j' c'" "j' \<le> length xss" "files (remaining xss j' c') = drop (nat n) ?L" "dfile d' = f"
      by (auto simp: ReadDir_info [OF assms(1)])
    with False assms(3) show ?thesis
      by (intro exI [of _ d'] exI [of _ "take (nat n) ?L"] exI [of _ None] exI [of _ j'] exI [of _ c'])
        (auto simp: at_entry_def append_take_drop_id)
  qed
qed

theorem ReadDir_pages_witness:
  "\<exists>d' j' c'. ReadDir (sample_img sample_dir) sample_open_dir 1 = Some (d', [new_file [97] 15 0], None) \<and>
     dbn d' = int j' \<and> dconsumed d' = c'"
proof -
  obtain d' ents e j' c' where p: "ReadDir (sample_img sample_dir) sample_open_dir 1 = Some (d', ents, e)"
    "[new_file [97] 15 0] = ents @ files (remaining [sample_list] j' c')" "dbn d' = int j'" "dconsumed d' = c'"
    "e = None \<and> int (length ents) = 1 \<or> e = Some EOF \<and> int (length ents) < 1 \<and> remaining [sample_list] j' c' = []"
    using ReadDir_pages [OF sample_dir_info sample_dir_good, of 1 0 0] unfolding sample_dir_files
    by (auto simp: new_dir_def)
  then have "e = None" "ents = [new_file [97] 15 0]" by (cases ents; force)+
  with p show ?thesis by blast
qed

text \<open>
  C16. Every name \<open>ReadDir\<close> hands out is a base name, whatever the image: not empty, without a
  path separator or a NUL, and neither \<open>.\<close> nor \<open>..\<close>, also in a listing that ends in an error.
\<close>

theorem ReadDir_names_are_base_names:
  assumes "ReadDir img d n = Some (d', ents, e)" and "f \<in> set ents"
  shows "fname f \<noteq> [] \<and> 47 \<notin> set (fname f) \<and> 0 \<notin> set (fname f) \<and> fname f \<noteq> dot \<and> fname f \<noteq> dotdot"
proof -
  have "\<forall>f \<in> set ents. base_name (fname f)"
    using assms(1) by (auto simp: ReadDir_def split: prod.splits sum.splits dest!: readDirLoop_names)
  with assms(2) show ?thesis by (simp add: base_name_def)
qed

theorem ReadDir_names_are_base_names_witness:
  "\<exists>d' ents e. ReadDir (sample_img sample_dir) sample_open_dir 0 = Some (d', ents, e) \<and>
     (\<exists>f \<in> set ents. fname f = [97] \<and> 47 \<notin> set (fname f))"
proof -
  have "at_entry (sample_open_dir\<lparr>dfile := (new_file [] 4 ModeDir)\<lparr>finfo := Some sample_dir_inode\<rparr>\<rparr>) 0 0"
    by (simp add: at_entry_def new_dir_def)
  from readDirLoop_all [OF sample_dir_good this, of 0 "[]"] obtain d' where
    d: "ReadDir (sample_img sample_dir) sample_open_dir 0 = Some (d', [new_file [97] 15 0], None)"
    unfolding ReadDir_info [OF sample_dir_info] sample_dir_files by auto
  from ReadDir_names_are_base_names [OF d, of "new_file [97] 15 0"] d show ?thesis by (auto simp: new_file_def)
qed

text \<open>
  C17. \<open>ReadDir\<close> returns: on every image and directory of up to \<open>2^62\<close> bytes, from every position
  within its blocks, and leaves it at such a position, although its offset \<open>bn << BlkSizeBits\<close> is
  computed in 64 bits.
\<close>

theorem ReadDir_returns:
  assumes "blkbits img \<le> 16" and "readInfo img (dfile d) = (f, Inr fi)" and "fsize fi \<le> 2 ^ 62"
    and "0 \<le> dbn d" and "dbn d \<le> calculateBlocks (blkbits img) (fsize fi)"
  shows "\<exists>d' ents e. ReadDir img d n = Some (d', ents, e) \<and>
    0 \<le> dbn d' \<and> dbn d' \<le> calculateBlocks (blkbits img) (fsize fi) \<and> dfile d' = f"
  using readDirLoop_total [OF assms(1,3), of "d\<lparr>dfile := f\<rparr>" n "[]"] assms(4,5)
  by (auto simp: ReadDir_info [OF assms(2)] dir_at_def)

theorem ReadDir_returns_witness:
  "\<exists>d' ents e. ReadDir (sample_img sample_dir) sample_open_dir 7 = Some (d', ents, e)"
proof -
  from ReadDir_returns [OF _ sample_dir_info, of 7] show ?thesis
    by (auto simp: new_dir_def sample_dir_inode_def sample_inode_def calculateBlocks_def)
qed

end
