(* ===== verification/Spec_Dir.thy ===== *)
theory Spec_Dir
  imports Spec_Reader
begin

text \<open>
  The directories of the reference reader, \<open>internal/erofsspec/dir.go\<close>: the listing of a directory,
  the kernel's name lookup with its matched prefixes, the resolution of a path through symbolic
  links, the walk of a whole tree and the checks of a directory's entries.
\<close>

section \<open>Entries\<close>

record SpDirent =
  sde_Nid :: u64
  sde_Name :: bytes
  sde_Type :: byte

definition sp_strnlen :: "bytes \<Rightarrow> nat" where
  "sp_strnlen b = (case IndexByte b 0 of Some i \<Rightarrow> i | None \<Rightarrow> length b)"

abbreviation (input) sp_NameMax :: int where "sp_NameMax \<equiv> 255"

text \<open>The length of the name of dirent \<open>i\<close> of \<open>count\<close>, and the dirent itself.\<close>

definition sp_direntOfBlock :: "bytes \<Rightarrow> nat \<Rightarrow> nat \<Rightarrow> SpDirent spec_result" where
  "sp_direntOfBlock block count i =
     (let maxsize = length block;
          nameoff = unat (le16 block (i * 12 + 8))
      in bindE (if i + 1 < count then Inr (int (unat (le16 block ((i + 1) * 12 + 8))) - int nameoff)
                else if maxsize \<le> nameoff then Inl SpCorrupt
                else Inr (int (sp_strnlen (drop nameoff block)))) (\<lambda>namelen.
         if namelen < 1 \<or> namelen > sp_NameMax \<or> int nameoff + namelen > int maxsize then Inl SpCorrupt
         else
           let name = window block nameoff (nat namelen) in
           if 47 \<in> set name \<or> 0 \<in> set name then Inl SpCorrupt
           else Inr \<lparr> sde_Nid = le64 block (i * 12), sde_Name = name, sde_Type = block ! (i * 12 + 10) \<rparr>))"

fun sp_direntsFrom :: "bytes \<Rightarrow> nat \<Rightarrow> nat \<Rightarrow> nat \<Rightarrow> SpDirent list spec_result" where
  "sp_direntsFrom block count i 0 = Inr []"
| "sp_direntsFrom block count i (Suc k) =
     bindE (sp_direntOfBlock block count i) (\<lambda>de.
     bindE (sp_direntsFrom block count (i + 1) k) (\<lambda>es. Inr (de # es)))"

definition sp_direntsOfBlock :: "bytes \<Rightarrow> int \<Rightarrow> SpDirent list spec_result" where
  "sp_direntsOfBlock block bsz =
     (if length block < 12 then Inl SpCorrupt
      else
        let nameoff0 = unat (le16 block 8) in
        if nameoff0 = 0 \<or> int nameoff0 \<ge> bsz \<or> nameoff0 mod 12 \<noteq> 0 then Inl SpCorrupt
        else if nameoff0 > length block then Inl SpCorrupt
        else sp_direntsFrom block (nameoff0 div 12) 0 (nameoff0 div 12))"

text \<open>The loop of \<open>Dirents\<close> over the blocks from \<open>start\<close>.\<close>

partial_function (option) sp_DirentsFrom ::
  "SpImage \<Rightarrow> SpInode \<Rightarrow> int \<Rightarrow> SpDirent list \<Rightarrow> SpDirent list spec_result option" where
  "sp_DirentsFrom im d start out =
     (let bsz = su_BlockSize (im_Super im) in
      if start < sn_Size d then
        (case bindE (sp_ReadAt im d start (min bsz (sn_Size d - start))) (\<lambda>block.
                sp_direntsOfBlock block bsz) of
           Inl e \<Rightarrow> Some (Inl e)
         | Inr entries \<Rightarrow> sp_DirentsFrom im d (i64 (start + bsz)) (out @ entries))
      else Some (Inr out))"

definition sp_Dirents :: "SpImage \<Rightarrow> SpInode \<Rightarrow> SpDirent list spec_result option" where
  "sp_Dirents im d = (if \<not> sp_IsDir d then Some (Inl SpNotDir) else sp_DirentsFrom im d 0 [])"

section \<open>Lookup\<close>

text \<open>\<open>erofs_dirnamecmp\<close> from the prefix already matched, with where it stopped.\<close>

function sp_dirnamecmp :: "bytes \<Rightarrow> bytes \<Rightarrow> nat \<Rightarrow> int \<times> nat" where
  "sp_dirnamecmp name held i =
     (if i < length held \<and> held ! i \<noteq> 0 then
        (let c = (if i < length name then name ! i else 0) in
         if c \<noteq> held ! i then (if c > held ! i then 1 else - 1, i)
         else sp_dirnamecmp name held (i + 1))
      else (if i \<ge> length name then 0 else 1, i))"
  by auto
termination by (relation "measure (\<lambda>(name, held, i). length held - i)") auto

declare sp_dirnamecmp.simps [simp del]

text \<open>The dirent at an index of a block: as the listing resolves it, or its bare header.\<close>

definition sp_direntAt :: "bytes \<Rightarrow> nat \<Rightarrow> SpDirent" where
  "sp_direntAt block i =
     (let bare = \<lparr> sde_Nid = le64 block (i * 12), sde_Name = [], sde_Type = block ! (i * 12 + 10) \<rparr> in
      case sp_direntsOfBlock block (int (length block)) of
        Inl _ \<Rightarrow> bare
      | Inr entries \<Rightarrow> if i \<ge> length entries then bare else entries ! i)"

definition sp_nameoff :: "bytes \<Rightarrow> int \<Rightarrow> nat \<Rightarrow> nat" where
  "sp_nameoff block bsz i = nat (int (unat (le16 block (i * 12 + 8))) AND (bsz - 1))"

text \<open>\<open>find_target_dirent\<close> over the dirents \<open>[head, back]\<close>.\<close>

function sp_findTarget :: "bytes \<Rightarrow> bytes \<Rightarrow> int \<Rightarrow> int \<Rightarrow> int \<Rightarrow> int \<Rightarrow> nat \<Rightarrow> nat \<Rightarrow> SpDirent option" where
  "sp_findTarget name block bsz ndirents head back startprfx endprfx =
     (if head \<le> back then
        (let mid = head + (back - head) div 2;
             nameoff = sp_nameoff block bsz (nat mid);
             fin = (if mid < ndirents - 1 then sp_nameoff block bsz (nat (mid + 1)) else nat bsz);
             held = (if nameoff \<le> fin then window block nameoff (fin - nameoff) else []);
             (ret, matched) = sp_dirnamecmp name held (min startprfx endprfx)
         in if ret = 0 then Some (sp_direntAt block (nat mid))
            else if ret > 0 then sp_findTarget name block bsz ndirents (mid + 1) back matched endprfx
            else sp_findTarget name block bsz ndirents head (mid - 1) startprfx matched)
      else None)"
  by auto
termination by (relation "measure (\<lambda>(name, block, bsz, ndirents, head, back, s, e). nat (back + 1 - head))") auto

declare sp_findTarget.simps [simp del]

definition sp_findTargetDirent :: "bytes \<Rightarrow> bytes \<Rightarrow> int \<Rightarrow> int \<Rightarrow> SpDirent option" where
  "sp_findTargetDirent name block bsz ndirents = sp_findTarget name block bsz ndirents 1 (ndirents - 1) 0 0"

text \<open>A block as the page cache holds it, zero past the end of the directory, and its count.\<close>

definition sp_dirBlock :: "SpImage \<Rightarrow> SpInode \<Rightarrow> int \<Rightarrow> (bytes \<times> int) spec_result" where
  "sp_dirBlock im d i =
     (let bsz = su_BlockSize (im_Super im) in
      bindE (sp_ReadAt im d (i * bsz) (min bsz (sn_Size d - i * bsz))) (\<lambda>block.
      let block = block @ replicate (nat bsz - length block) 0;
          ndirents = int (sp_nameoff block bsz 0) div 12
      in if ndirents = 0 then Inl SpCorrupt else Inr (block, ndirents)))"

text \<open>\<open>erofs_find_target_block\<close> over the blocks \<open>[head, back]\<close>, with the candidate it keeps. The
  slice of the first name panics where its bounds cross.\<close>

function sp_LookupBlocks ::
  "SpImage \<Rightarrow> SpInode \<Rightarrow> bytes \<Rightarrow> int \<Rightarrow> int \<Rightarrow> nat \<Rightarrow> nat \<Rightarrow> (bytes \<times> int) option \<Rightarrow> SpDirent spec_result" where
  "sp_LookupBlocks im d name head back startprfx endprfx candidate =
     (let bsz = su_BlockSize (im_Super im) in
      if head \<le> back then
        (let mid = head + (back - head) div 2 in
         case sp_dirBlock im d mid of
           Inl e \<Rightarrow> Inl e
         | Inr (block, ndirents) \<Rightarrow>
             (let fin = (if ndirents > 1 then sp_nameoff block bsz 1 else nat bsz);
                  nameoff = sp_nameoff block bsz 0
              in case slice block nameoff fin of
                   Inl _ \<Rightarrow> Inl SpPanic
                 | Inr held \<Rightarrow>
                     (case sp_dirnamecmp name held (min startprfx endprfx) of
                        (diff, matched) \<Rightarrow>
                          if diff < 0
                          then sp_LookupBlocks im d name head (mid - 1) startprfx matched candidate
                          else if diff = 0 then Inr (sp_direntAt block 0)
                          else sp_LookupBlocks im d name (mid + 1) back matched endprfx (Some (block, ndirents)))))
      else
        (case candidate of
           None \<Rightarrow> Inl SpNotExist
         | Some (block, ndirents) \<Rightarrow>
             (case sp_findTargetDirent name block bsz ndirents of
                None \<Rightarrow> Inl SpNotExist | Some de \<Rightarrow> Inr de)))"
  by auto
termination by (relation "measure (\<lambda>(im, d, name, head, back, s, e, c). nat (back + 1 - head))") auto

declare sp_LookupBlocks.simps [simp del]

definition sp_Lookup :: "SpImage \<Rightarrow> SpInode \<Rightarrow> bytes \<Rightarrow> SpDirent spec_result" where
  "sp_Lookup im d name =
     (let bsz = su_BlockSize (im_Super im) in
      if \<not> sp_IsDir d then Inl SpNotDir
      else if sn_Size d = 0 then Inl SpNotExist
      else sp_LookupBlocks im d name 0 (go_div (i64 (sn_Size d + bsz - 1)) bsz - 1) 0 0 None)"

section \<open>Paths\<close>

text \<open>\<open>strings.Cut(rest, "/")\<close>.\<close>

definition sp_Cut :: "bytes \<Rightarrow> bytes \<times> bytes" where
  "sp_Cut p = (case IndexByte p 47 of Some i \<Rightarrow> (take i p, drop (i + 1) p) | None \<Rightarrow> (p, []))"

text \<open>The walk of \<open>rest\<close> from \<open>cur\<close>, with the links followed so far; a symbolic link on the way is
  walked in its turn, from the root or from the directory that holds it. The recursion through
  \<open>followLink\<close> is nested, so the walk is a partial function first.\<close>

partial_function (option) sp_walk ::
  "SpImage \<Rightarrow> SpInode \<Rightarrow> int \<Rightarrow> int \<Rightarrow> SpInode \<Rightarrow> bytes \<Rightarrow> (int \<times> SpInode spec_result) option" where
  "sp_walk im root maxLinks links cur rest =
     (if rest = [] then Some (links, Inr cur)
      else
        (case sp_Cut rest of
           (name, rest) \<Rightarrow>
             if name = [] \<or> name = [46] then sp_walk im root maxLinks links cur rest
             else if \<not> sp_IsDir cur then Some (links, Inl SpNotDir)
             else
               (case bindE (sp_Lookup im cur name) (\<lambda>de. sp_Inode im (sde_Nid de)) of
                  Inl e \<Rightarrow> Some (links, Inl e)
                | Inr link \<Rightarrow>
                    if \<not> sp_IsSymlink link then sp_walk im root maxLinks links link rest
                    else if links + 1 > maxLinks then Some (links + 1, Inl SpLoop)
                    else
                      (case sp_Target im link of
                         Inl e \<Rightarrow> Some (links + 1, Inl e)
                       | Inr target \<Rightarrow>
                           Option.bind
                             (sp_walk im root maxLinks (links + 1)
                                (if target \<noteq> [] \<and> hd target = 47 then root else cur) target)
                             (\<lambda>(links, r).
                               case r of
                                 Inl e \<Rightarrow> Some (links, Inl e)
                               | Inr found \<Rightarrow> sp_walk im root maxLinks links found rest)))))"

definition sp_Resolve :: "SpImage \<Rightarrow> bytes \<Rightarrow> int \<Rightarrow> SpInode spec_result option" where
  "sp_Resolve im path maxLinks =
     (case sp_Inode im (su_RootNid (im_Super im)) of
        Inl e \<Rightarrow> Some (Inl e)
      | Inr root \<Rightarrow>
          if \<not> sp_IsDir root then Some (Inl SpNotDir)
          else map_option snd (sp_walk im root maxLinks 0 root path))"

section \<open>The walk of a tree\<close>

record SpEntry =
  en_Path :: bytes
  en_Dir :: SpDirent
  en_Inode :: SpInode
  en_Parent :: u64

text \<open>What the caller's function answers: go on, skip the children, or stop.\<close>

datatype visit = VGo | VSkip | VStop spec_err

text \<open>\<open>walkDir\<close> and \<open>walkEntry\<close> over the entries that are left of a directory: the caller's function
  with its state, the directories already descended into.\<close>

partial_function (option) sp_walkEntries ::
  "SpImage \<Rightarrow> ('s \<Rightarrow> SpEntry \<Rightarrow> 's \<times> visit) \<Rightarrow> u64 \<Rightarrow> SpDirent list \<Rightarrow> bytes \<Rightarrow> u64 set \<Rightarrow> 's \<Rightarrow>
   ('s \<times> u64 set \<times> spec_err option) option" where
  "sp_walkEntries im fn parent entries prfx seen s =
     (case entries of
        [] \<Rightarrow> Some (s, seen, None)
      | de # es \<Rightarrow>
          if sde_Name de = [46] \<or> sde_Name de = [46, 46] then sp_walkEntries im fn parent es prfx seen s
          else
            (case sp_Inode im (sde_Nid de) of
               Inl e \<Rightarrow> Some (s, seen, Some e)
             | Inr node \<Rightarrow>
                 (case fn s \<lparr> en_Path = prfx @ sde_Name de, en_Dir = de, en_Inode = node, en_Parent = parent \<rparr> of
                    (s, VStop e) \<Rightarrow> Some (s, seen, Some e)
                  | (s, VSkip) \<Rightarrow> sp_walkEntries im fn parent es prfx seen s
                  | (s, VGo) \<Rightarrow>
                      if sp_IsDir node \<and> sn_Nid node \<notin> seen then
                        Option.bind (sp_Dirents im node) (\<lambda>r.
                          case r of
                            Inl e \<Rightarrow> Some (s, insert (sn_Nid node) seen, Some e)
                          | Inr sub \<Rightarrow>
                              Option.bind
                                (sp_walkEntries im fn (sn_Nid node) sub (prfx @ sde_Name de @ [47])
                                   (insert (sn_Nid node) seen) s)
                                (\<lambda>(s, seen, e).
                                  case e of
                                    Some e \<Rightarrow> Some (s, seen, Some e)
                                  | None \<Rightarrow> sp_walkEntries im fn parent es prfx seen s))
                      else sp_walkEntries im fn parent es prfx seen s)))"

definition sp_Walk ::
  "SpImage \<Rightarrow> ('s \<Rightarrow> SpEntry \<Rightarrow> 's \<times> visit) \<Rightarrow> 's \<Rightarrow> ('s \<times> spec_err option) option" where
  "sp_Walk im fn s =
     (case sp_Inode im (su_RootNid (im_Super im)) of
        Inl e \<Rightarrow> Some (s, Some e)
      | Inr root \<Rightarrow>
          if \<not> sp_IsDir root then Some (s, Some SpNotDir)
          else
            Option.bind (sp_Dirents im root) (\<lambda>r.
              case r of
                Inl e \<Rightarrow> Some (s, Some e)
              | Inr entries \<Rightarrow>
                  map_option (\<lambda>(s, seen, e). (s, e))
                    (sp_walkEntries im fn (sn_Nid root) entries [] {sn_Nid root} s)))"

section \<open>The checks of a directory\<close>

text \<open>The violations \<open>CheckDir\<close> reports, one constructor for each message.\<close>

datatype violation =
    NotAfter | BadType | RepeatedDot | WrongDot | RepeatedDotdot | WrongDotdot | IllegalName | MissingDots

definition sp_appendIf :: "violation list \<Rightarrow> bool \<Rightarrow> violation \<Rightarrow> violation list" where
  "sp_appendIf errs cond e = (if cond then errs @ [e] else errs)"

text \<open>One entry, after the previous one, and whether the dots have been seen.\<close>

definition sp_checkEntry ::
  "u64 \<Rightarrow> u64 \<Rightarrow> SpDirent option \<Rightarrow> SpDirent \<Rightarrow> bool \<Rightarrow> bool \<Rightarrow> violation list \<Rightarrow> bool \<times> bool \<times> violation list" where
  "sp_checkEntry self parent prev de dotSeen dotdotSeen errs =
     (let errs = sp_appendIf errs (case prev of None \<Rightarrow> False | Some p \<Rightarrow> Compare (sde_Name p) (sde_Name de) \<ge> 0) NotAfter;
          errs = sp_appendIf errs (sde_Type de \<ge> 8) BadType
      in if sde_Name de = [46] then
           (True, dotdotSeen, sp_appendIf (sp_appendIf errs dotSeen RepeatedDot) (sde_Nid de \<noteq> self) WrongDot)
         else if sde_Name de = [46, 46] then
           (dotSeen, True, sp_appendIf (sp_appendIf errs dotdotSeen RepeatedDotdot) (sde_Nid de \<noteq> parent) WrongDotdot)
         else (dotSeen, dotdotSeen, sp_appendIf errs (47 \<in> set (sde_Name de) \<or> 0 \<in> set (sde_Name de)) IllegalName))"

fun sp_checkEntries ::
  "u64 \<Rightarrow> u64 \<Rightarrow> SpDirent option \<Rightarrow> SpDirent list \<Rightarrow> bool \<Rightarrow> bool \<Rightarrow> violation list \<Rightarrow> violation list" where
  "sp_checkEntries self parent prev [] dotSeen dotdotSeen errs =
     sp_appendIf errs (\<not> dotSeen \<or> \<not> dotdotSeen) MissingDots"
| "sp_checkEntries self parent prev (de # es) dotSeen dotdotSeen errs =
     (case sp_checkEntry self parent prev de dotSeen dotdotSeen errs of
        (dotSeen, dotdotSeen, errs) \<Rightarrow> sp_checkEntries self parent (Some de) es dotSeen dotdotSeen errs)"

definition sp_CheckDir :: "SpImage \<Rightarrow> SpInode \<Rightarrow> u64 \<Rightarrow> SpDirent list \<Rightarrow> violation list" where
  "sp_CheckDir im d parent entries =
     (let parent = (if sn_Nid d = su_RootNid (im_Super im) then sn_Nid d else parent) in
      sp_checkEntries (sn_Nid d) parent None entries (sn_DotOmitted d) False [])"

end
