(* ===== verification/Refine_Dir.thy ===== *)
theory Refine_Dir
  imports Dir Spec_Dir Refine_Open
begin

text \<open>
  Directories against the reference: the kernel's search with matched prefixes is a plain search
  on ascending names (the locale \<open>prefix_search\<close>, interpreted for the dirents of a block and for
  the blocks of a directory), so that the two lookups and the two listings agree; and the
  reference's walk along a path ends.
\<close>

section \<open>Common prefixes\<close>

fun lcp :: "'a list \<Rightarrow> 'a list \<Rightarrow> nat" where
  "lcp (x # xs) (y # ys) = (if x = y then Suc (lcp xs ys) else 0)"
| "lcp xs ys = 0"

lemma lcp_Nil [simp]: "lcp xs [] = 0" "lcp [] ys = 0"
  by (cases xs; simp)+

lemma lcp_le: "lcp xs ys \<le> length xs" "lcp xs ys \<le> length ys"
  by (induction xs ys rule: lcp.induct) auto

lemma lcp_prefix: "take (lcp xs ys) xs = take (lcp xs ys) ys"
  by (induction xs ys rule: lcp.induct) auto

lemma lcp_ge: "m \<le> lcp xs ys \<longleftrightarrow> m \<le> length xs \<and> m \<le> length ys \<and> take m xs = take m ys"
proof (induction xs ys arbitrary: m rule: lcp.induct)
  case (1 x xs y ys)
  then show ?case by (cases m) auto
qed auto

lemma take_mono_lex: "(xs :: bytes) \<le> ys \<Longrightarrow> take m xs \<le> take m ys"
proof (induction xs arbitrary: ys m)
  case (Cons x xs)
  then obtain y ys' where ys: "ys = y # ys'" by (cases ys) auto
  with Cons show ?case by (cases m) (auto simp: le_less)
qed simp

text \<open>Between two strings that share a prefix with the target, every string shares it.\<close>

lemma lcp_between:
  fixes lo mid hi target :: bytes
  assumes "lo \<le> mid" "mid \<le> hi" "m \<le> lcp target lo" "m \<le> lcp target hi"
  shows "m \<le> lcp target mid"
proof -
  have t: "m \<le> length target" "m \<le> length lo" "take m target = take m lo" "take m target = take m hi"
    using assms(3,4) by (auto simp: lcp_ge)
  have "take m lo \<le> take m mid" "take m mid \<le> take m hi" using assms(1,2) by (auto intro: take_mono_lex)
  then have e: "take m mid = take m target" using t(3,4) by (metis antisym)
  then have "m \<le> length mid" using t(1) by (metis length_take min.absorb2 min.cobounded1)
  with e t show ?thesis by (simp add: lcp_ge)
qed

text \<open>What the comparison of the kernel computes: from any prefix the two share, it compares the
  name with the stored bytes up to their first NUL and stops where they part.\<close>

lemma dirnamecmp_drop:
  assumes "held = nm \<or> (\<exists>r. held = nm @ 0 # r)" and "0 \<notin> set nm" and "i \<le> length name" "i \<le> length nm"
  shows "sp_dirnamecmp name held i = (Compare (drop i name) (drop i nm), i + lcp (drop i name) (drop i nm))"
  using assms(3,4)
proof (induction "length nm - i" arbitrary: i rule: less_induct)
  case less
  show ?case
  proof (cases "i < length nm")
    case False
    then have i: "i = length nm" using less.prems by simp
    have "\<not> (i < length held \<and> held ! i \<noteq> 0)" using assms(1) by (auto simp: i nth_append)
    then have "sp_dirnamecmp name held i = (if i \<ge> length name then 0 else 1, i)"
      by (subst sp_dirnamecmp.simps) auto
    then show ?thesis using i less.prems by (auto simp: Compare_def)
  next
    case True
    then have h: "held ! i = nm ! i" "i < length held" "nm ! i \<noteq> 0"
      using assms(1,2) by (auto simp: nth_append in_set_conv_nth)
    have dn: "drop i nm = nm ! i # drop (i + 1) nm" using True by (simp add: Cons_nth_drop_Suc)
    show ?thesis
    proof (cases "i < length name \<and> name ! i = nm ! i")
      case same: True
      then have dm: "drop i name = nm ! i # drop (i + 1) name" by (metis Cons_nth_drop_Suc Suc_eq_plus1)
      have "sp_dirnamecmp name held i = sp_dirnamecmp name held (i + 1)"
        using h same by (subst sp_dirnamecmp.simps) simp
      also have "\<dots> = (Compare (drop (i + 1) name) (drop (i + 1) nm), i + 1 + lcp (drop (i + 1) name) (drop (i + 1) nm))"
        using True same by (intro less.hyps) auto
      finally show ?thesis unfolding dn dm by (simp add: Compare_def)
    next
      case False
      let ?c = "if i < length name then name ! i else 0"
      have "sp_dirnamecmp name held i = (if ?c > nm ! i then 1 else - 1, i)"
        using h False by (subst sp_dirnamecmp.simps) (auto simp: Let_def)
      moreover have "drop i name = [] \<or> (\<exists>r. drop i name = name ! i # r \<and> i < length name)"
        by (metis Cons_nth_drop_Suc drop_all not_less)
      ultimately show ?thesis
        unfolding dn using False h(3) by (auto simp: Compare_def word_gt_0 not_less)
    qed
  qed
qed

lemma lcp_drop: "take i xs = take i ys \<Longrightarrow> i \<le> length xs \<Longrightarrow> i \<le> length ys \<Longrightarrow> lcp xs ys = i + lcp (drop i xs) (drop i ys)"
proof (induction i arbitrary: xs ys)
  case (Suc i)
  then show ?case by (cases xs; cases ys) auto
qed simp

lemma Compare_Cons: "Compare (x # xs) (x # ys) = Compare xs ys"
  by (simp add: Compare_def)

lemma Compare_drop:
  "take i xs = take i ys \<Longrightarrow> i \<le> length xs \<Longrightarrow> i \<le> length ys \<Longrightarrow> Compare xs ys = Compare (drop i xs) (drop i ys)"
proof (induction i arbitrary: xs ys)
  case (Suc i)
  then show ?case by (cases xs; cases ys) (auto simp: Compare_Cons)
qed simp

lemma dirnamecmp_eq:
  assumes "i \<le> lcp name nm" and "held = nm \<or> (\<exists>r. held = nm @ 0 # r)" and "0 \<notin> set nm"
  shows "sp_dirnamecmp name held i = (Compare name nm, lcp name nm)"
proof -
  have "i \<le> length name" "i \<le> length nm" "take i name = take i nm" using assms(1) by (auto simp: lcp_ge)
  with dirnamecmp_drop [OF assms(2,3)] lcp_drop Compare_drop show ?thesis by metis
qed

section \<open>The kernel's search\<close>

text \<open>The search both levels of the reference's lookup run, over a closed range, skipping the prefix
  its two bounds already share with the target. A probe that cannot be made is not \<open>ok\<close>.\<close>

definition bounded_below :: "(int \<Rightarrow> bytes) \<Rightarrow> bytes \<Rightarrow> int \<Rightarrow> int \<Rightarrow> nat \<Rightarrow> bool" where
  "bounded_below key target head bk s \<longleftrightarrow>
     s = 0 \<or> (\<exists>lo. s = lcp target lo \<and> (\<forall>i. head \<le> i \<and> i \<le> bk \<longrightarrow> lo \<le> key i))"

definition bounded_above :: "(int \<Rightarrow> bytes) \<Rightarrow> bytes \<Rightarrow> int \<Rightarrow> int \<Rightarrow> nat \<Rightarrow> bool" where
  "bounded_above key target head bk e \<longleftrightarrow>
     e = 0 \<or> (\<exists>hi. e = lcp target hi \<and> (\<forall>i. head \<le> i \<and> i \<le> bk \<longrightarrow> key i \<le> hi))"

lemma bounded_mono:
  assumes "head \<le> head'" and "bk' \<le> bk"
  shows "bounded_below key target head bk s \<Longrightarrow> bounded_below key target head' bk' s"
    and "bounded_above key target head bk e \<Longrightarrow> bounded_above key target head' bk' e"
  using assms by (auto simp: bounded_below_def bounded_above_def)

lemma bounded_step:
  "(\<And>i. head \<le> i \<Longrightarrow> i \<le> bk \<Longrightarrow> key m < key i) \<Longrightarrow> bounded_below key target head bk (lcp target (key m))"
  "(\<And>i. head \<le> i \<Longrightarrow> i \<le> bk \<Longrightarrow> key i < key m) \<Longrightarrow> bounded_above key target head bk (lcp target (key m))"
  unfolding bounded_below_def bounded_above_def
  by (rule disjI2, rule exI [of _ "key m"], simp add: less_imp_le)+

locale prefix_search =
  fixes ok :: "int \<Rightarrow> bool" and key :: "int \<Rightarrow> bytes" and target :: bytes and hit :: "int \<Rightarrow> 'r"
    and up :: "int \<Rightarrow> 'a" and fin :: "'a \<Rightarrow> 'r" and search :: "int \<Rightarrow> int \<Rightarrow> nat \<Rightarrow> nat \<Rightarrow> 'a \<Rightarrow> 'r"
  assumes search_probe: "head \<le> bk \<Longrightarrow> ok (head + (bk - head) div 2) \<Longrightarrow>
      min s e \<le> lcp target (key (head + (bk - head) div 2)) \<Longrightarrow>
      search head bk s e acc =
        (let mid = head + (bk - head) div 2 in
         if key mid = target then hit mid
         else if key mid < target then search (mid + 1) bk (lcp target (key mid)) e (up mid)
         else search head (mid - 1) s (lcp target (key mid)) acc)"
    and search_end: "\<not> head \<le> bk \<Longrightarrow> search head bk s e acc = fin acc"
begin

lemma shared:
  assumes "bounded_below key target head bk s" "bounded_above key target head bk e" "head \<le> i" "i \<le> bk"
  shows "min s e \<le> lcp target (key i)"
proof (cases "s = 0 \<or> e = 0")
  case False
  obtain lo where "s = lcp target lo" "lo \<le> key i"
    using False assms(1,3,4) by (auto simp: bounded_below_def)
  moreover obtain hi where "e = lcp target hi" "key i \<le> hi"
    using False assms(2-4) by (auto simp: bounded_above_def)
  ultimately show ?thesis by (simp add: lcp_between [of lo _ hi])
qed auto

text \<open>On ascending keys the search finds the target where it is, and otherwise ends with what it
  carries from the last key before the target.\<close>

lemma search_sorted:
  assumes "\<And>i. head \<le> i \<Longrightarrow> i \<le> bk \<Longrightarrow> ok i"
    and "\<And>i j. head \<le> i \<Longrightarrow> i < j \<Longrightarrow> j \<le> bk \<Longrightarrow> key i < key j"
    and "bounded_below key target head bk s" and "bounded_above key target head bk e"
    and "head \<le> c" "c \<le> bk + 1"
    and "\<And>i. head \<le> i \<Longrightarrow> i < c \<Longrightarrow> key i < target" and "\<And>i. c \<le> i \<Longrightarrow> i \<le> bk \<Longrightarrow> target \<le> key i"
  shows "search head bk s e acc =
    (if c \<le> bk \<and> key c = target then hit c else fin (if c = head then acc else up (c - 1)))"
  using assms
proof (induction "nat (bk + 1 - head)" arbitrary: head bk s e acc rule: less_induct)
  case less
  show ?case
  proof (cases "head \<le> bk")
    case False
    then have "c = head" "\<not> c \<le> bk" using less.prems(5,6) by auto
    with False show ?thesis by (simp add: search_end)
  next
    case True
    define mid where "mid = head + (bk - head) div 2"
    have m: "head \<le> mid" "mid \<le> bk" using True by (auto simp: mid_def)
    have eq: "search head bk s e acc =
        (if key mid = target then hit mid
         else if key mid < target then search (mid + 1) bk (lcp target (key mid)) e (up mid)
         else search head (mid - 1) s (lcp target (key mid)) acc)"
      using search_probe [OF True, of s e acc] less.prems(1) [OF m] shared [OF less.prems(3,4) m]
      unfolding mid_def [symmetric] Let_def by simp
    consider "mid < c" | "c \<le> mid" "key mid = target" | "c \<le> mid" "key mid \<noteq> target" by fastforce
    then show ?thesis
    proof cases
      case 1
      have k: "key mid < target" using less.prems(7) m 1 by blast
      have "search (mid + 1) bk (lcp target (key mid)) e (up mid) =
          (if c \<le> bk \<and> key c = target then hit c else fin (if c = mid + 1 then up mid else up (c - 1)))"
      proof (rule less.hyps)
        show "nat (bk + 1 - (mid + 1)) < nat (bk + 1 - head)" using m by simp
        show "bounded_below key target (mid + 1) bk (lcp target (key mid))"
          by (rule bounded_step) (use less.prems(2) [of mid] m in auto)
        show "bounded_above key target (mid + 1) bk e" by (rule bounded_mono(2) [OF _ _ less.prems(4)]) (use m in auto)
        show "ok i" if "mid + 1 \<le> i" "i \<le> bk" for i using less.prems(1) [of i] that m by simp
        show "key i < key j" if "mid + 1 \<le> i" "i < j" "j \<le> bk" for i j using less.prems(2) [of i j] that m by simp
        show "mid + 1 \<le> c" "c \<le> bk + 1" using 1 less.prems(6) by auto
        show "key i < target" if "mid + 1 \<le> i" "i < c" for i using less.prems(7) [of i] that m by simp
        show "target \<le> key i" if "c \<le> i" "i \<le> bk" for i by (rule less.prems(8) [OF that])
      qed
      moreover have "key mid \<noteq> target" using k by (rule less_imp_neq)
      ultimately show ?thesis using eq k 1 m by (cases "c = mid + 1") auto
    next
      case 2
      have "c = mid"
      proof (rule ccontr)
        assume "c \<noteq> mid"
        then have "key c < key mid" using less.prems(2,5) 2(1) m by simp
        moreover have "target \<le> key c" using less.prems(8) 2(1) m by simp
        ultimately show False using 2(2) by simp
      qed
      with eq 2 m show ?thesis by simp
    next
      case 3
      have k: "target < key mid" using less.prems(8) [of mid] 3 m by (simp add: less_le)
      have ne: "c = mid \<Longrightarrow> key c \<noteq> target" using 3 by simp
      have "search head (mid - 1) s (lcp target (key mid)) acc =
          (if c \<le> mid - 1 \<and> key c = target then hit c else fin (if c = head then acc else up (c - 1)))"
      proof (rule less.hyps)
        show "nat (mid - 1 + 1 - head) < nat (bk + 1 - head)" using m by simp
        show "bounded_above key target head (mid - 1) (lcp target (key mid))"
          by (rule bounded_step) (use less.prems(2) [of _ mid] m in auto)
        show "bounded_below key target head (mid - 1) s" by (rule bounded_mono(1) [OF _ _ less.prems(3)]) (use m in auto)
        show "ok i" if "head \<le> i" "i \<le> mid - 1" for i using less.prems(1) [of i] that m by simp
        show "key i < key j" if "head \<le> i" "i < j" "j \<le> mid - 1" for i j using less.prems(2) [of i j] that m by simp
        show "head \<le> c" "c \<le> mid - 1 + 1" using 3 less.prems(5) by auto
        show "key i < target" if "head \<le> i" "i < c" for i by (rule less.prems(7) [OF that])
        show "target \<le> key i" if "c \<le> i" "i \<le> mid - 1" for i using less.prems(8) [of i] that m by simp
      qed
      moreover have "\<not> key mid < target" using k by (simp add: less_not_sym)
      moreover have "c = mid \<or> c \<le> mid - 1" using 3(1) by linarith
      then have "c \<le> mid - 1 \<and> key c = target \<longleftrightarrow> c \<le> bk \<and> key c = target" using ne m by auto
      ultimately show ?thesis using eq 3 by simp
    qed
  qed
qed

end

lemma trimmed: "held = takeWhile (\<lambda>x. x \<noteq> 0) held \<or> (\<exists>r. held = takeWhile (\<lambda>x. x \<noteq> (0 :: byte)) held @ 0 # r)"
proof (cases "takeWhile (\<lambda>x. x \<noteq> 0) held = held")
  case False
  then have "dropWhile (\<lambda>x. x \<noteq> 0) held \<noteq> []" by (metis append_Nil2 takeWhile_dropWhile_id)
  then have "\<exists>r. dropWhile (\<lambda>x. x \<noteq> 0) held = 0 # r"
    by (metis (mono_tags, lifting) hd_dropWhile list.exhaust list.sel(1))
  then show ?thesis by (metis takeWhile_dropWhile_id)
qed (rule disjI1, rule sym)

lemma dirnamecmp_trim:
  "i \<le> lcp name (takeWhile (\<lambda>x. x \<noteq> 0) held) \<Longrightarrow>
   sp_dirnamecmp name held i = (Compare name (takeWhile (\<lambda>x. x \<noteq> 0) held), lcp name (takeWhile (\<lambda>x. x \<noteq> 0) held))"
  by (rule dirnamecmp_eq [OF _ trimmed]) (auto dest: set_takeWhileD)

lemma Compare_signs: "Compare a b = 0 \<longleftrightarrow> a = b" "Compare a b > 0 \<longleftrightarrow> b < a" "Compare a b < 0 \<longleftrightarrow> a < b"
  by (auto simp: Compare_def)

definition sp_held :: "bytes \<Rightarrow> int \<Rightarrow> int \<Rightarrow> int \<Rightarrow> bytes" where
  "sp_held block bsz nd i =
     (let nameoff = sp_nameoff block bsz (nat i);
          fin = (if i < nd - 1 then sp_nameoff block bsz (nat (i + 1)) else nat bsz)
      in if nameoff \<le> fin then window block nameoff (fin - nameoff) else [])"

definition sp_key :: "bytes \<Rightarrow> int \<Rightarrow> int \<Rightarrow> int \<Rightarrow> bytes" where
  "sp_key block bsz nd i = takeWhile (\<lambda>x. x \<noteq> 0) (sp_held block bsz nd i)"

interpretation target_dirent: prefix_search "\<lambda>_. True" "sp_key block bsz nd" target
  "\<lambda>i. Some (sp_direntAt block (nat i))" "\<lambda>_. ()" "\<lambda>_. None"
  "\<lambda>head bk s e _. sp_findTarget target block bsz nd head bk s e"
proof unfold_locales
  fix head bk :: int and s e :: nat
  let ?m = "head + (bk - head) div 2"
  assume hb: "head \<le> bk" and le: "min s e \<le> lcp target (sp_key block bsz nd ?m)"
  have "sp_findTarget target block bsz nd head bk s e =
      (case sp_dirnamecmp target (sp_held block bsz nd ?m) (min s e) of (ret, matched) \<Rightarrow>
         if ret = 0 then Some (sp_direntAt block (nat ?m))
         else if ret > 0 then sp_findTarget target block bsz nd (?m + 1) bk matched e
         else sp_findTarget target block bsz nd head (?m - 1) s matched)"
    using hb by (subst sp_findTarget.simps) (simp only: sp_held_def Let_def if_True)
  also have "sp_dirnamecmp target (sp_held block bsz nd ?m) (min s e) =
      (Compare target (sp_key block bsz nd ?m), lcp target (sp_key block bsz nd ?m))"
    unfolding sp_key_def by (rule dirnamecmp_trim [OF le [unfolded sp_key_def]])
  finally show "sp_findTarget target block bsz nd head bk s e =
      (let mid = ?m in if sp_key block bsz nd mid = target then Some (sp_direntAt block (nat mid))
       else if sp_key block bsz nd mid < target
            then sp_findTarget target block bsz nd (mid + 1) bk (lcp target (sp_key block bsz nd mid)) e
            else sp_findTarget target block bsz nd head (mid - 1) s (lcp target (sp_key block bsz nd mid)))"
    by (simp only: prod.case Let_def Compare_signs eq_commute [of target])
next
  fix head bk :: int and s e :: nat
  assume "\<not> head \<le> bk"
  then show "sp_findTarget target block bsz nd head bk s e = None" by (subst sp_findTarget.simps) simp
qed

definition block_ready :: "SpImage \<Rightarrow> SpInode \<Rightarrow> int \<Rightarrow> bool" where
  "block_ready im d i \<longleftrightarrow>
     (case sp_dirBlock im d i of
        Inl _ \<Rightarrow> False
      | Inr (block, nd) \<Rightarrow>
          let bsz = su_BlockSize (im_Super im);
              fin = (if nd > 1 then sp_nameoff block bsz 1 else nat bsz)
          in sp_nameoff block bsz 0 \<le> fin \<and> fin \<le> length block)"

definition block_of :: "SpImage \<Rightarrow> SpInode \<Rightarrow> int \<Rightarrow> bytes \<times> int" where
  "block_of im d i = (case sp_dirBlock im d i of Inl _ \<Rightarrow> ([], 0) | Inr p \<Rightarrow> p)"

definition first_key :: "SpImage \<Rightarrow> SpInode \<Rightarrow> int \<Rightarrow> bytes" where
  "first_key im d i = (case block_of im d i of (block, nd) \<Rightarrow> sp_key block (su_BlockSize (im_Super im)) nd 0)"

interpretation target_block: prefix_search "block_ready im d" "first_key im d" target
  "\<lambda>i. Inr (sp_direntAt (fst (block_of im d i)) 0)" "\<lambda>i. Some (block_of im d i)"
  "\<lambda>c. case c of None \<Rightarrow> Inl SpNotExist
    | Some (block, nd) \<Rightarrow> (case sp_findTargetDirent target block (su_BlockSize (im_Super im)) nd of
        None \<Rightarrow> Inl SpNotExist | Some de \<Rightarrow> Inr de)"
  "\<lambda>head bk s e c. sp_LookupBlocks im d target head bk s e c"
proof unfold_locales
  fix head bk :: int and s e :: nat and acc
  let ?m = "head + (bk - head) div 2"
  assume hb: "head \<le> bk" and ok: "block_ready im d ?m" and le: "min s e \<le> lcp target (first_key im d ?m)"
  obtain block nd where b: "sp_dirBlock im d ?m = Inr (block, nd)"
    using ok by (auto simp: block_ready_def split: sum.splits prod.splits)
  show "sp_LookupBlocks im d target head bk s e acc =
      (let mid = ?m in if first_key im d mid = target then Inr (sp_direntAt (fst (block_of im d mid)) 0)
       else if first_key im d mid < target
            then sp_LookupBlocks im d target (mid + 1) bk (lcp target (first_key im d mid)) e (Some (block_of im d mid))
            else sp_LookupBlocks im d target head (mid - 1) s (lcp target (first_key im d mid)) acc)"
  proof -
    let ?bsz = "su_BlockSize (im_Super im)"
    let ?fin = "if nd > 1 then sp_nameoff block ?bsz 1 else nat ?bsz"
    have r: "sp_nameoff block ?bsz 0 \<le> ?fin" "?fin \<le> length block"
      using ok unfolding block_ready_def b sum.case prod.case Let_def by auto
    have f: "block_of im d ?m = (block, nd)" "first_key im d ?m = sp_key block ?bsz nd 0"
      by (simp_all add: block_of_def first_key_def b)
    have h: "sp_held block ?bsz nd 0 = window block (sp_nameoff block ?bsz 0) (?fin - sp_nameoff block ?bsz 0)"
      using r(1) by (auto simp: sp_held_def Let_def)
    have c: "sp_dirnamecmp target (sp_held block ?bsz nd 0) (min s e) =
        (Compare target (sp_key block ?bsz nd 0), lcp target (sp_key block ?bsz nd 0))"
      using le unfolding f sp_key_def by (rule dirnamecmp_trim)
    have "sp_LookupBlocks im d target head bk s e acc =
        (case sp_dirnamecmp target (sp_held block ?bsz nd 0) (min s e) of (diff, matched) \<Rightarrow>
           if diff < 0 then sp_LookupBlocks im d target head (?m - 1) s matched acc
           else if diff = 0 then Inr (sp_direntAt block 0)
           else sp_LookupBlocks im d target (?m + 1) bk matched e (Some (block, nd)))"
      using hb unfolding h by (subst sp_LookupBlocks.simps) (simp only: Let_def b sum.case prod.case slice_ok [OF r] if_True)
    then show ?thesis
      unfolding c f Let_def by (auto simp: Compare_signs)
  qed
next
  fix head bk :: int and s e :: nat and acc
  assume "\<not> head \<le> bk"
  then show "sp_LookupBlocks im d target head bk s e acc = (case acc of None \<Rightarrow> Inl SpNotExist
    | Some (block, nd) \<Rightarrow> (case sp_findTargetDirent target block (su_BlockSize (im_Super im)) nd of
        None \<Rightarrow> Inl SpNotExist | Some de \<Rightarrow> Inr de))" by (subst sp_LookupBlocks.simps) (simp add: Let_def)
qed

section \<open>A block on both sides\<close>

lemma IndexByte_takeWhile:
  "(case IndexByte b c of Some j \<Rightarrow> take j b | None \<Rightarrow> b) = takeWhile (\<lambda>x. x \<noteq> c) b"
  by (induction b) (auto split: option.splits)

definition padded :: "bytes \<Rightarrow> nat \<Rightarrow> bytes" where
  "padded b n = b @ replicate (n - length b) 0"

text \<open>A block whose entries the reader accepts, inside a block of \<open>2 ^ k\<close> bytes.\<close>

definition good_block :: "nat \<Rightarrow> bytes \<Rightarrow> (Dirent \<times> bytes) list \<Rightarrow> bool" where
  "good_block k b xs \<longleftrightarrow>
     block_ok b \<and> map (entry b) [0..<entry_count b] = map Inr xs \<and> length b \<le> 2 ^ k"

lemma good_entry:
  assumes "good_block k b xs" and "i < length xs"
  shows "length xs = entry_count b" and "xs ! i = (dirent_at b i, name_at b i)" and "name_ok b i"
    and "name_at b i \<noteq> []" and "47 \<notin> set (name_at b i)" and "0 \<notin> set (name_at b i)"
    and "unat (le16 b (12 * i + 8)) < name_end b i" and "12 * i + 12 \<le> length b"
proof -
  have ok: "block_ok b" and m: "map (entry b) [0..<entry_count b] = map Inr xs" using assms(1) by (auto simp: good_block_def)
  note e = entry_nth [OF ok m]
  show l: "length xs = entry_count b" by (rule e(1))
  then have i: "i < entry_count b" using assms(2) by simp
  have "entry b i = Inr (xs ! i)" by (rule e(2) [OF i])
  then have *: "name_ok b i \<and> checkDirentName (name_at b i) = Inr () \<and> xs ! i = (dirent_at b i, name_at b i)"
    unfolding entry_eq [OF ok i] by (auto split: if_splits)
  then show "xs ! i = (dirent_at b i, name_at b i)" "name_ok b i" "name_at b i \<noteq> []" "47 \<notin> set (name_at b i)"
    "0 \<notin> set (name_at b i)" by (auto simp: name_checked)
  then show "unat (le16 b (12 * i + 8)) < name_end b i"
    by (cases "unat (le16 b (12 * i + 8)) = name_end b i") (auto simp: name_at_def name_ok_def Let_def)
  show "12 * i + 12 \<le> length b" by (rule block_dirents_fit [OF ok i])
qed

lemma good_count:
  assumes "good_block k b xs"
  shows "length xs = entry_count b" and "0 < length xs" and "unat (le16 b 8) = 12 * length xs" and "12 * length xs < length b"
proof -
  have ok: "block_ok b" and m: "map (entry b) [0..<entry_count b] = map Inr xs" using assms by (auto simp: good_block_def)
  show l: "length xs = entry_count b" by (rule entry_nth(1) [OF ok m])
  then show "0 < length xs" "unat (le16 b 8) = 12 * length xs" "12 * length xs < length b"
    using ok by (auto simp: block_ok_def entry_count_def)
qed

lemma le_padded:
  "i + 2 \<le> length b \<Longrightarrow> le16 (padded b n) i = le16 b i"
  "i + 8 \<le> length b \<Longrightarrow> le64 (padded b n) i = le64 b i"
  "i < length b \<Longrightarrow> padded b n ! i = b ! i"
  by (simp_all add: padded_def le16_def le64_def window_append_left nth_append)

lemma length_padded: "length b \<le> n \<Longrightarrow> length (padded b n) = n"
  by (simp add: padded_def)

lemma nameoff_padded:
  assumes "good_block k b xs" and "i < length xs"
  shows "sp_nameoff (padded b (2 ^ k)) (2 ^ k) i = unat (le16 b (12 * i + 8))"
proof -
  note g = good_entry [OF assms]
  have "unat (le16 b (12 * i + 8)) < length b" using g(3,7) by (simp add: name_ok_def)
  also have "\<dots> \<le> 2 ^ k" using assms(1) by (simp add: good_block_def)
  finally have "int (unat (le16 b (12 * i + 8))) < 2 ^ k" by (metis of_nat_less_iff of_nat_numeral of_nat_power)
  moreover have "le16 (padded b (2 ^ k)) (i * 12 + 8) = le16 b (12 * i + 8)"
    using g(8) by (simp add: le_padded mult.commute)
  moreover have "int (unat (le16 b (12 * i + 8))) AND (2 ^ k - 1) = int (unat (le16 b (12 * i + 8))) mod 2 ^ k"
    by (simp only: take_bit_eq_mask [symmetric] mask_eq_exp_minus_1 [symmetric] take_bit_eq_mod)
  ultimately show ?thesis by (simp add: sp_nameoff_def)
qed

lemma key_padded:
  assumes g: "good_block k b xs" and i: "i < length xs"
  shows "sp_key (padded b (2 ^ k)) (2 ^ k) (int (length xs)) (int i) = snd (xs ! i)"
proof -
  note e = good_entry [OF g i]
  have lb: "length b \<le> 2 ^ k" using g by (simp add: good_block_def)
  have nb: "name_end b i \<le> length b" using e(3) by (simp add: name_ok_def)
  have all: "takeWhile (\<lambda>x. x \<noteq> 0) (name_at b i) = name_at b i" using e(6) by (auto simp: takeWhile_eq_all_conv)
  show ?thesis
  proof (cases "i + 1 < length xs")
    case True
    have n1: "sp_nameoff (padded b (2 ^ k)) (2 ^ k) (Suc i) = name_end b i"
      using nameoff_padded [OF g, of "Suc i"] True e(1) by (simp add: name_end_def)
    have "sp_held (padded b (2 ^ k)) (2 ^ k) (int (length xs)) (int i) = name_at b i"
    proof -
      have "nat (int i + 1) = Suc i" by simp
      then have "sp_held (padded b (2 ^ k)) (2 ^ k) (int (length xs)) (int i) =
          window (padded b (2 ^ k)) (unat (le16 b (12 * i + 8))) (name_end b i - unat (le16 b (12 * i + 8)))"
        using True e(7) unfolding sp_held_def Let_def nat_int nameoff_padded [OF g i] by (simp add: n1)
      also have "\<dots> = name_at b i" using e(7) nb by (simp add: name_at_def padded_def window_append_left Let_def)
      finally show ?thesis .
    qed
    with all e(2) show ?thesis by (simp add: sp_key_def)
  next
    case False
    then have l: "Suc i = length xs" using i by simp
    have lo: "unat (le16 b (12 * i + 8)) \<le> length b" using e(7) nb by simp
    have "sp_held (padded b (2 ^ k)) (2 ^ k) (int (length xs)) (int i) =
        drop (unat (le16 b (12 * i + 8))) b @ replicate (2 ^ k - length b) 0"
      using l lo lb unfolding sp_held_def Let_def nat_int nameoff_padded [OF g i]
      by (simp add: padded_def window_def nat_power_eq)
    then have "sp_key (padded b (2 ^ k)) (2 ^ k) (int (length xs)) (int i) =
        takeWhile (\<lambda>x. x \<noteq> 0) (drop (unat (le16 b (12 * i + 8))) b)"
      by (simp add: sp_key_def takeWhile_append takeWhile_replicate) (metis (mono_tags, lifting) takeWhile_eq_all_conv)
    also have "\<dots> = name_at b i"
      using False e(1) unfolding IndexByte_takeWhile [symmetric]
      by (auto simp: name_at_def name_end_def Let_def window_def split: option.splits)
    finally show ?thesis using e(2) by simp
  qed
qed

lemma sp_direntsFrom_nth:
  "sp_direntsFrom block count i k = Inr es \<Longrightarrow>
   length es = k \<and> (\<forall>j < k. sde_Nid (es ! j) = le64 block ((i + j) * 12) \<and> sde_Type (es ! j) = block ! ((i + j) * 12 + 10))"
proof (induction block count i k arbitrary: es rule: sp_direntsFrom.induct)
  case (2 block count i k)
  then obtain de es' where es: "es = de # es'" "sp_direntOfBlock block count i = Inr de"
    "sp_direntsFrom block count (i + 1) k = Inr es'" by auto
  have "sde_Nid de = le64 block (i * 12)" "sde_Type de = block ! (i * 12 + 10)"
    using es(2) by (auto simp: sp_direntOfBlock_def Let_def split: if_splits)
  with "2.IH" [OF es(2,3)] es(1) show ?case by (auto simp: nth_Cons add.left_commute split: nat.split)
qed simp

lemma direntAt_header: "sde_Nid (sp_direntAt block i) = le64 block (i * 12) \<and> sde_Type (sp_direntAt block i) = block ! (i * 12 + 10)"
  using sp_direntsFrom_nth
  by (fastforce simp: sp_direntAt_def sp_direntsOfBlock_def Let_def split: sum.splits if_splits)

lemma direntAt_padded:
  assumes "good_block k b xs" and "i < length xs"
  shows "sde_Nid (sp_direntAt (padded b (2 ^ k)) i) = de_Nid (fst (xs ! i))"
    and "sde_Type (sp_direntAt (padded b (2 ^ k)) i) = de_FileType (fst (xs ! i))"
  using good_entry [OF assms] direntAt_header [of "padded b (2 ^ k)" i] by (simp_all add: dirent_at_def le_padded mult.commute)

section \<open>A directory on both sides\<close>

definition same_dir :: "image \<Rightarrow> SpImage \<Rightarrow> inode \<Rightarrow> SpInode \<Rightarrow> bool" where
  "same_dir img im fi n \<longleftrightarrow>
     image_sim img im \<and> inode_sim img fi n \<and> image_ok img \<and> inode_ok img fi \<and> near img fi \<and> sp_IsDir n \<and>
     (inodeLayout fi = LayoutFlatInline \<longrightarrow> inline_fits img fi \<and> (im_extra im = [] \<or> tail_unmapped img fi))"

lemma dir_block:
  assumes s: "same_dir img im fi n" and g: "good_dir img fi xss" and j: "j < length xss"
  shows "\<exists>b. good_block (blkbits img) b (xss ! j) \<and>
    sp_ReadAt im n (int j * 2 ^ blkbits img) (min (2 ^ blkbits img) (sn_Size n - int j * 2 ^ blkbits img)) = Inr b"
proof -
  let ?p = "int j * 2 ^ blkbits img"
  obtain blk where blk: "loadBlock img fi ?p = Inr blk" "block_ok (block_bytes blk)"
    "map (entry (block_bytes blk)) [0..<entry_count (block_bytes blk)] = map Inr (xss ! j)"
    using g j by (auto simp: good_dir_def)
  have pos: "0 \<le> ?p" "?p < fsize fi" using good_dir_pos(1) [OF g, of j] j by auto
  have sz: "sn_Size n = fsize fi" using s by (simp add: same_dir_def inode_sim_def)
  have v: "viewed (loadBlock_in (getBlock img) img fi ?p) = Inr (offset blk, bend blk, block_bytes blk)"
    using blk(1) by (simp add: loadBlock_def block_view_def)
  have pool: "length (getBlock img) = 2 ^ blkbits img" by (simp add: getBlock_def)
  have len: "int (length (block_bytes blk)) = min (2 ^ blkbits img) (fsize fi - ?p)"
    using loadBlock_shape [OF pos pool v] by (simp add: block_len_def)
  have "sp_ReadAt im n ?p (int (length (block_bytes blk))) = Inr (block_bytes blk)"
    by (rule loadBlock_refines [OF _ _ _ _ _ pos _ pool v]) (use s in \<open>auto simp: same_dir_def\<close>)
  moreover have "length (block_bytes blk) \<le> 2 ^ blkbits img"
    using len by (metis min.cobounded1 of_nat_le_iff of_nat_numeral of_nat_power)
  ultimately show ?thesis using blk len sz by (auto simp: good_block_def)
qed

lemma dir_blocks:
  assumes "same_dir img im fi n" and "good_dir img fi xss"
  obtains B where "\<And>j. j < length xss \<Longrightarrow> good_block (blkbits img) (B j) (xss ! j)"
    and "\<And>j. j < length xss \<Longrightarrow>
      sp_ReadAt im n (int j * 2 ^ blkbits img) (min (2 ^ blkbits img) (sn_Size n - int j * 2 ^ blkbits img)) = Inr (B j)"
proof -
  have "\<forall>j. \<exists>b. j < length xss \<longrightarrow> good_block (blkbits img) b (xss ! j) \<and>
      sp_ReadAt im n (int j * 2 ^ blkbits img) (min (2 ^ blkbits img) (sn_Size n - int j * 2 ^ blkbits img)) = Inr b"
    using dir_block [OF assms] by blast
  from choice [OF this] show ?thesis using that by blast
qed

lemma sim_bsz: "same_dir img im fi n \<Longrightarrow> su_BlockSize (im_Super im) = 2 ^ blkbits img"
  by (simp add: same_dir_def image_sim_def)

subsection \<open>Lookup\<close>

lemma dirBlock_padded:
  assumes s: "same_dir img im fi n" and g: "good_block (blkbits img) b xs"
    and r: "sp_ReadAt im n (i * 2 ^ blkbits img) (min (2 ^ blkbits img) (sn_Size n - i * 2 ^ blkbits img)) = Inr b"
  shows "sp_dirBlock im n i = Inr (padded b (2 ^ blkbits img), int (length xs))"
proof -
  note c = good_count [OF g]
  have "sp_nameoff (padded b (2 ^ blkbits img)) (2 ^ blkbits img) 0 = 12 * length xs"
    using nameoff_padded [OF g c(2)] c(3) by simp
  with r c(2) show ?thesis
    unfolding sp_dirBlock_def Let_def sim_bsz [OF s] by (simp add: padded_def nat_power_eq)
qed

lemma findTarget_sorted:
  assumes g: "good_block k b xs" and s: "sorted_wrt (<) (map snd xs)" and ne: "snd (xs ! 0) \<noteq> target"
  shows "case find (\<lambda>x. snd x = target) xs of
      None \<Rightarrow> sp_findTargetDirent target (padded b (2 ^ k)) (2 ^ k) (int (length xs)) = None
    | Some x \<Rightarrow> \<exists>de. sp_findTargetDirent target (padded b (2 ^ k)) (2 ^ k) (int (length xs)) = Some de \<and>
        sde_Nid de = de_Nid (fst x) \<and> sde_Type de = de_FileType (fst x)"
proof -
  let ?N = "length xs" and ?P = "padded b (2 ^ k)"
  have key: "sp_key ?P (2 ^ k) (int ?N) i = snd (xs ! nat i)" if "0 \<le> i" "i < int ?N" for i
    using key_padded [OF g, of "nat i"] that by simp
  have mono: "snd (xs ! i) < snd (xs ! j)" if "i < j" "j < ?N" for i j
    using s that by (auto simp: sorted_wrt_iff_nth_less)
  have down: "snd (xs ! i) < target" if "i < j" "j < ?N" "snd (xs ! j) < target" for i j
    using mono [OF that(1,2)] that(3) by (rule less_trans)
  obtain c0 where c0: "c0 \<le> ?N" "\<forall>i < c0. snd (xs ! i) < target" "\<forall>i. c0 \<le> i \<longrightarrow> i < ?N \<longrightarrow> \<not> snd (xs ! i) < target"
    using threshold [of ?N "\<lambda>i. snd (xs ! i) < target"] down by auto
  define c where "c = max 1 (int c0)"
  have N: "1 \<le> int ?N" using good_count(2) [OF g] by linarith
  have r: "sp_findTargetDirent target ?P (2 ^ k) (int ?N) =
      (if c \<le> int ?N - 1 \<and> sp_key ?P (2 ^ k) (int ?N) c = target then Some (sp_direntAt ?P (nat c)) else None)"
    unfolding sp_findTargetDirent_def
  proof (rule target_dirent.search_sorted)
    show "sp_key ?P (2 ^ k) (int ?N) i < sp_key ?P (2 ^ k) (int ?N) j" if "1 \<le> i" "i < j" "j \<le> int ?N - 1" for i j
      using mono [of "nat i" "nat j"] that by (simp add: key)
    show "bounded_below (sp_key ?P (2 ^ k) (int ?N)) target 1 (int ?N - 1) 0" by (simp add: bounded_below_def)
    show "bounded_above (sp_key ?P (2 ^ k) (int ?N)) target 1 (int ?N - 1) 0" by (simp add: bounded_above_def)
    show "1 \<le> c" "c \<le> int ?N - 1 + 1" using c0(1) N by (auto simp: c_def)
    show "sp_key ?P (2 ^ k) (int ?N) i < target" if "1 \<le> i" "i < c" for i
      using that c0(1,2) by (subst key) (auto simp: c_def nat_less_iff)
    show "target \<le> sp_key ?P (2 ^ k) (int ?N) i" if "c \<le> i" "i \<le> int ?N - 1" for i
      using that c0(3) by (subst key) (auto simp: c_def not_less le_nat_iff)
  qed simp_all
  show ?thesis
  proof (cases "\<exists>x \<in> set xs. snd x = target")
    case True
    then obtain p where p: "p < ?N" "snd (xs ! p) = target" by (auto simp: in_set_conv_nth)
    have "c0 \<le> p" using c0(2) p by (metis less_irrefl not_less)
    moreover have "\<not> c0 < p" using c0(3) mono [of c0 p] p by auto
    ultimately have "c0 = p" by simp
    moreover have "p \<noteq> 0" using ne p by metis
    ultimately have c: "c = int p" by (simp add: c_def)
    have "sp_findTargetDirent target ?P (2 ^ k) (int ?N) = Some (sp_direntAt ?P p)"
      unfolding r using p key [of "int p"] by (simp add: c)
    with find_sorted [OF s, of "xs ! p"] p direntAt_padded [OF g p(1)] show ?thesis by simp
  next
    case False
    then have "find (\<lambda>x. snd x = target) xs = None" by (auto simp: find_None_iff)
    moreover have "\<not> (c \<le> int ?N - 1 \<and> sp_key ?P (2 ^ k) (int ?N) c = target)"
    proof
      assume a: "c \<le> int ?N - 1 \<and> sp_key ?P (2 ^ k) (int ?N) c = target"
      then have "nat c < ?N" "snd (xs ! nat c) = target" using key [of c] by (auto simp: c_def)
      with False show False by auto
    qed
    ultimately show ?thesis using r by simp
  qed
qed

lemma Lookup_sorted:
  assumes s: "same_dir img im fi n" and g: "good_dir img fi xss" and o: "sorted_wrt (<) (map snd (concat xss))"
  shows "case find (\<lambda>x. snd x = target) (concat xss) of
      None \<Rightarrow> sp_Lookup im n target = Inl SpNotExist
    | Some x \<Rightarrow> \<exists>de. sp_Lookup im n target = Inr de \<and> sde_Nid de = de_Nid (fst x) \<and> sde_Type de = de_FileType (fst x)"
proof (cases "xss = []")
  case True
  have "sn_Size n = 0"
    using s g True calculateBlocks_bounds(1) [of "fsize fi" "blkbits img"] by (simp add: same_dir_def inode_sim_def good_dir_def)
  then have "sp_Lookup im n target = Inl SpNotExist" using s by (simp add: sp_Lookup_def same_dir_def Let_def)
  with True show ?thesis by simp
next
  case False
  let ?k = "blkbits img" and ?M = "length xss"
  obtain B where B: "\<And>j. j < ?M \<Longrightarrow> good_block ?k (B j) (xss ! j)"
    "\<And>j. j < ?M \<Longrightarrow> sp_ReadAt im n (int j * 2 ^ ?k) (min (2 ^ ?k) (sn_Size n - int j * 2 ^ ?k)) = Inr (B j)"
    using dir_blocks [OF s g] by blast
  have o2: "sorted_wrt (\<lambda>x y. snd x < snd y) (concat xss)" using o by (simp add: sorted_wrt_map)
  have inner: "sorted_wrt (<) (map snd (xss ! j))" if "j < ?M" for j
    using o2 that by (auto simp: sorted_concat sorted_wrt_map)
  have across: "snd x < snd y" if "i < j" "j < ?M" "x \<in> set (xss ! i)" "y \<in> set (xss ! j)" for i j x y
    using o2 [unfolded sorted_concat, THEN conjunct2] that by (auto simp: sorted_wrt_iff_nth_less)
  have ne: "0 < length (xss ! j)" if "j < ?M" for j by (rule good_count(2) [OF B(1) [OF that]])
  have db: "sp_dirBlock im n i = Inr (padded (B (nat i)) (2 ^ ?k), int (length (xss ! nat i)))"
    if "0 \<le> i" "i < int ?M" for i
    using dirBlock_padded [OF s B(1) [of "nat i"], of i] B(2) [of "nat i"] that by simp
  define first where "first j = snd (xss ! j ! 0)" for j
  have key: "first_key im n i = first (nat i)" and ready: "block_ready im n i" if i: "0 \<le> i" "i < int ?M" for i
  proof -
    have g': "good_block ?k (B (nat i)) (xss ! nat i)" using B(1) i by simp
    have ni: "nat i < ?M" using i by simp
    note c = good_count [OF g'] and e = good_entry [OF g' ne [OF ni]]
    have lb: "length (B (nat i)) \<le> 2 ^ ?k" using g' by (simp add: good_block_def)
    show "first_key im n i = first (nat i)"
      using key_padded [OF g' c(2)] unfolding first_key_def block_of_def db [OF i] sim_bsz [OF s] by (simp add: first_def)
    show "block_ready im n i"
    proof (cases "1 < length (xss ! nat i)")
      case True
      then show ?thesis
        using e(3) i nameoff_padded [OF g' c(2)] nameoff_padded [OF g' True] lb c(1)
        unfolding block_ready_def db [OF i] sim_bsz [OF s]
        by (auto simp: length_padded name_ok_def name_end_def)
    next
      case False
      then show ?thesis
        using c(3,4) lb nameoff_padded [OF g' c(2)]
        unfolding block_ready_def db [OF i] sim_bsz [OF s]
        by (simp add: length_padded nat_power_eq)
    qed
  qed
  have mono: "first i < first j" if "i < j" "j < ?M" for i j
    using across [OF that] ne [of i] ne [of j] that by (simp add: first_def)
  have down: "first i < target" if "i < j" "j < ?M" "first j < target" for i j
    using mono [OF that(1,2)] that(3) by (rule less_trans)
  obtain c where c: "c \<le> ?M" "\<forall>i < c. first i < target" "\<forall>i. c \<le> i \<longrightarrow> i < ?M \<longrightarrow> \<not> first i < target"
    using threshold [of ?M "\<lambda>i. first i < target"] down by auto
  have M: "go_div (i64 (sn_Size n + 2 ^ ?k - 1)) (2 ^ ?k) = int ?M"
    using g s False blocks_eq(1) [of "fsize fi" ?k] calculateBlocks_bounds(1) [of "fsize fi" ?k]
    by (cases "fsize fi = 0") (auto simp: good_dir_def same_dir_def inode_sim_def calculateBlocks_eq)
  have look: "sp_Lookup im n target = sp_LookupBlocks im n target 0 (int ?M - 1) 0 0 None"
  proof -
    have "sn_Size n \<noteq> 0"
      using good_dir_pos(1) [OF g, of 0] False s by (auto simp: same_dir_def inode_sim_def)
    with s M show ?thesis by (simp add: sp_Lookup_def same_dir_def Let_def sim_bsz [OF s])
  qed
  have r: "sp_Lookup im n target =
      (if int c \<le> int ?M - 1 \<and> first_key im n (int c) = target then Inr (sp_direntAt (fst (block_of im n (int c))) 0)
       else (case (if int c = 0 then None else Some (block_of im n (int c - 1))) of
           None \<Rightarrow> Inl SpNotExist
         | Some (block, nd) \<Rightarrow> (case sp_findTargetDirent target block (su_BlockSize (im_Super im)) nd of
             None \<Rightarrow> Inl SpNotExist | Some de \<Rightarrow> Inr de)))"
    unfolding look
  proof (rule target_block.search_sorted)
    show "first_key im n i < first_key im n j" if "0 \<le> i" "i < j" "j \<le> int ?M - 1" for i j
      using mono [of "nat i" "nat j"] that by (simp add: key)
    show "first_key im n i < target" if "0 \<le> i" "i < int c" for i
      using that c(1,2) by (subst key) (auto simp: nat_less_iff)
    show "target \<le> first_key im n i" if "int c \<le> i" "i \<le> int ?M - 1" for i
      using that c(3) by (subst key) (auto simp: not_less le_nat_iff)
  qed (use c(1) ready in \<open>auto simp: bounded_below_def bounded_above_def\<close>)
  show ?thesis
  proof (cases "c < ?M \<and> first c = target")
    case True
    then have "xss ! c ! 0 \<in> set (concat xss)" using ne [of c] nth_mem by fastforce
    from find_sorted [OF o this] True have "find (\<lambda>x. snd x = target) (concat xss) = Some (xss ! c ! 0)"
      by (simp add: first_def)
    moreover have "sp_Lookup im n target = Inr (sp_direntAt (padded (B c) (2 ^ ?k)) 0)"
      unfolding r using True key [of "int c"] db [of "int c"] by (simp add: block_of_def)
    ultimately show ?thesis using direntAt_padded [OF B(1) ne, of c] True by simp
  next
    case other: False
    have only: "Suc i = c" if i: "i < ?M" and x: "x \<in> set (xss ! i)" "snd x = target" for i x
    proof -
      obtain p where p: "p < length (xss ! i)" "xss ! i ! p = x" using x(1) by (auto simp: in_set_conv_nth)
      have le: "first i \<le> target"
        using inner [OF i] x(2) p by (cases "p = 0") (auto simp: first_def sorted_wrt_iff_nth_less intro: less_imp_le)
      have "first i \<noteq> target"
      proof
        assume f: "first i = target"
        then have "c \<le> i" using c(2) by (metis less_irrefl not_less)
        moreover have "\<not> c < i" using c(3) mono [of c i] i f by auto
        ultimately show False using other f i by auto
      qed
      then have "i < c" using le c(3) i by (metis le_less not_less)
      moreover have "\<not> Suc i < c"
      proof
        assume lt: "Suc i < c"
        then have "snd x < first (Suc i)" using across [of i "Suc i" x] x(1) ne [of "Suc i"] c(1) by (simp add: first_def)
        moreover have "first (Suc i) < target" using c(2) lt by blast
        ultimately show False using x(2) less_asym by blast
      qed
      ultimately show ?thesis by simp
    qed
    have other': "\<not> (int c \<le> int ?M - 1 \<and> first_key im n (int c) = target)" using other key [of "int c"] by auto
    show ?thesis
    proof (cases "c = 0")
      case True
      then have "find (\<lambda>x. snd x = target) (concat xss) = None"
        using only unfolding find_None_iff by (metis UN_E in_set_conv_nth nat.simps(3) set_concat)
      with True r other' show ?thesis by simp
    next
      case c0: False
      then have j: "c - 1 < ?M" using c(1) by simp
      have f: "find (\<lambda>x. snd x = target) (concat xss) = find (\<lambda>x. snd x = target) (xss ! (c - 1))"
        by (rule find_in_block [OF o j]) (use only in \<open>metis diff_Suc_1\<close>)
      have "first (c - 1) < target" using c(2) c0 by simp
      then have nf: "snd (xss ! (c - 1) ! 0) \<noteq> target" by (simp add: first_def less_imp_neq)
      have bo: "block_of im n (int c - 1) = (padded (B (c - 1)) (2 ^ ?k), int (length (xss ! (c - 1))))"
        using db [of "int c - 1"] c0 c(1) by (simp add: block_of_def nat_diff_distrib)
      have "sp_Lookup im n target =
          (case sp_findTargetDirent target (padded (B (c - 1)) (2 ^ ?k)) (2 ^ ?k) (int (length (xss ! (c - 1)))) of
             None \<Rightarrow> Inl SpNotExist | Some de \<Rightarrow> Inr de)"
        unfolding r if_not_P [OF other'] using c0 by (simp add: bo sim_bsz [OF s])
      with findTarget_sorted [OF B(1) [OF j] inner [OF j] nf] show ?thesis
        unfolding f by (auto split: option.splits)
    qed
  qed
qed

subsection \<open>Listing\<close>

definition to_spec :: "Dirent \<times> bytes \<Rightarrow> SpDirent" where
  "to_spec x = \<lparr> sde_Nid = de_Nid (fst x), sde_Name = snd x, sde_Type = de_FileType (fst x) \<rparr>"

lemma direntOfBlock_good:
  assumes g: "good_block k b xs" and i: "i < length xs" and m: "length (snd (xs ! i)) \<le> 255"
  shows "sp_direntOfBlock b (length xs) i = Inr (to_spec (xs ! i))"
proof -
  note e = good_entry [OF g i]
  let ?lo = "unat (le16 b (12 * i + 8))"
  have nb: "name_end b i \<le> length b" using e(3) by (simp add: name_ok_def)
  have ln: "length (name_at b i) = name_end b i - ?lo" using nb e(7) by (simp add: name_at_def Let_def)
  have nl: "(if i + 1 < length xs then Inr (int (unat (le16 b ((i + 1) * 12 + 8))) - int ?lo)
      else if length b \<le> ?lo then Inl SpCorrupt
      else Inr (int (sp_strnlen (drop ?lo b)))) = Inr (int (name_end b i - ?lo))"
  proof (cases "i + 1 < length xs")
    case True
    then show ?thesis using e(1,7) by (simp add: name_end_def mult.commute of_nat_diff)
  next
    case False
    then show ?thesis using e(1,7) nb by (auto simp: name_end_def sp_strnlen_def Let_def split: option.splits)
  qed
  have c: "le16 b (i * 12 + 8) = le16 b (12 * i + 8)" by (simp add: mult.commute)
  define L where "L = name_end b i - ?lo"
  have L: "1 \<le> L" "L \<le> 255" "?lo + L \<le> length b" and nm: "name_at b i = window b ?lo L"
    using e(2,7) m ln nb by (simp_all add: L_def name_at_def Let_def)
  have cond: "\<not> (int L < 1 \<or> int L > 255 \<or> int ?lo + int L > int (length b))" using L by linarith
  have "\<not> (47 \<in> set (window b ?lo L) \<or> 0 \<in> set (window b ?lo L))" using e(5,6) nm by simp
  then show ?thesis
    unfolding sp_direntOfBlock_def Let_def c nl bindE_simps L_def [symmetric] if_not_P [OF cond] nat_int
    using e(2) nm by (simp add: to_spec_def dirent_at_def mult.commute)
qed

lemma direntsFrom_good:
  assumes g: "good_block k b xs" and m: "\<forall>x \<in> set xs. length (snd x) \<le> 255"
  shows "i + j = length xs \<Longrightarrow> sp_direntsFrom b (length xs) i j = Inr (map to_spec (drop i xs))"
proof (induction j arbitrary: i)
  case (Suc j)
  then have i: "i < length xs" by simp
  with Suc direntOfBlock_good [OF g i] m show ?case by (simp add: Cons_nth_drop_Suc [symmetric])
qed simp

lemma direntsOfBlock_good:
  assumes g: "good_block k b xs" and m: "\<forall>x \<in> set xs. length (snd x) \<le> 255"
  shows "sp_direntsOfBlock b (2 ^ k) = Inr (map to_spec xs)"
proof -
  note c = good_count [OF g]
  have lb: "length b \<le> 2 ^ k" using g by (simp add: good_block_def)
  then have "12 * length xs < 2 ^ k" using c(4) by simp
  then have "int (12 * length xs) < 2 ^ k" by (metis of_nat_less_iff of_nat_numeral of_nat_power)
  then have cond: "\<not> (unat (le16 b 8) = 0 \<or> int (unat (le16 b 8)) \<ge> 2 ^ k \<or> unat (le16 b 8) mod 12 \<noteq> 0)"
    using c(2) unfolding c(3) by auto
  have l12: "\<not> length b < 12" "\<not> length b < unat (le16 b 8)" using c(2-4) by linarith+
  show ?thesis
    unfolding sp_direntsOfBlock_def Let_def if_not_P [OF cond] if_not_P [OF l12(1)] if_not_P [OF l12(2)]
    using c(3) direntsFrom_good [OF g m, of 0 "length xs"] by simp
qed

lemma DirentsFrom_good:
  assumes s: "same_dir img im fi n" and g: "good_dir img fi xss" and m: "\<forall>x \<in> set (concat xss). length (snd x) \<le> 255"
  shows "j \<le> length xss \<Longrightarrow> sp_DirentsFrom im n (int j * 2 ^ blkbits img) out = Some (Inr (out @ map to_spec (concat (drop j xss))))"
proof (induction "length xss - j" arbitrary: j out)
  case 0
  then have "\<not> int j * 2 ^ blkbits img < sn_Size n"
    using good_dir_pos(1) [OF g, of j] s by (simp add: same_dir_def inode_sim_def)
  with 0 show ?case by (subst sp_DirentsFrom.simps) (simp add: Let_def)
next
  case (Suc k)
  then have j: "j < length xss" by simp
  obtain b where b: "good_block (blkbits img) b (xss ! j)"
    "sp_ReadAt im n (int j * 2 ^ blkbits img) (min (2 ^ blkbits img) (sn_Size n - int j * 2 ^ blkbits img)) = Inr b"
    using dir_block [OF s g j] by blast
  have lt: "int j * 2 ^ blkbits img < sn_Size n"
    using good_dir_pos(1) [OF g, of j] s j by (simp add: same_dir_def inode_sim_def)
  have "\<forall>x \<in> set (xss ! j). length (snd x) \<le> 255" using m j by auto
  note d = direntsOfBlock_good [OF b(1) this]
  have nx: "i64 (int j * 2 ^ blkbits img + 2 ^ blkbits img) = int (Suc j) * 2 ^ blkbits img"
    using good_dir_shl(2) [OF g, of "Suc j"] j by (simp add: algebra_simps)
  have "sp_DirentsFrom im n (int j * 2 ^ blkbits img) out =
      sp_DirentsFrom im n (int (Suc j) * 2 ^ blkbits img) (out @ map to_spec (xss ! j))"
    by (subst sp_DirentsFrom.simps) (simp only: Let_def sim_bsz [OF s] lt if_True b(2) bindE_simps d sum.case nx)
  also have "\<dots> = Some (Inr ((out @ map to_spec (xss ! j)) @ map to_spec (concat (drop (Suc j) xss))))"
    using Suc j by (intro Suc.hyps) auto
  finally show ?case using j by (simp add: Cons_nth_drop_Suc [symmetric])
qed

lemma Dirents_good:
  assumes "same_dir img im fi n" and "good_dir img fi xss" and "\<forall>x \<in> set (concat xss). length (snd x) \<le> 255"
  shows "sp_Dirents im n = Some (Inr (map to_spec (concat xss)))"
  using DirentsFrom_good [OF assms, of 0 "[]"] assms(1) by (simp add: sp_Dirents_def same_dir_def)

subsection \<open>The checks of a directory and the order of its names\<close>

lemma appendIf_errs: "sp_appendIf (errs @ m) c e = errs @ sp_appendIf m c e"
  by (simp add: sp_appendIf_def)

lemma checkEntry_errs:
  "sp_checkEntry self par prev de ds dds errs =
     (case sp_checkEntry self par prev de ds dds [] of (ds, dds, m) \<Rightarrow> (ds, dds, errs @ m))"
  unfolding sp_checkEntry_def Let_def
  by (simp add: appendIf_errs [of errs "[]", simplified] appendIf_errs)

lemma checkEntries_errs: "\<exists>more. sp_checkEntries self par prev es ds dds errs = errs @ more"
proof (induction es arbitrary: prev ds dds errs)
  case Nil
  then show ?case by (simp add: sp_appendIf_def)
next
  case (Cons de es)
  obtain ds' dds' m where "sp_checkEntry self par prev de ds dds [] = (ds', dds', m)" by (metis prod_cases3)
  then have "sp_checkEntry self par prev de ds dds errs = (ds', dds', errs @ m)" by (subst checkEntry_errs) simp
  with Cons [of "Some de" ds' dds' "errs @ m"] show ?case by auto
qed

lemma checkEntries_sorted:
  assumes "sp_checkEntries self par prev es ds dds [] = []"
  shows "sorted_wrt (<) (map sde_Name es) \<and> (\<forall>p. prev = Some p \<longrightarrow> (\<forall>e \<in> set es. sde_Name p < sde_Name e))"
  using assms
proof (induction es arbitrary: prev ds dds)
  case (Cons de es)
  obtain ds' dds' errs where c: "sp_checkEntry self par prev de ds dds [] = (ds', dds', errs)" by (metis prod_cases3)
  then have r: "sp_checkEntries self par (Some de) es ds' dds' errs = []" using Cons.prems by simp
  then have e: "errs = []" using checkEntries_errs [of self par "Some de" es ds' dds' errs] by auto
  have p: "Compare (sde_Name p) (sde_Name de) < 0" if "prev = Some p" for p
    using c e that by (auto simp: sp_checkEntry_def sp_appendIf_def Let_def split: if_splits)
  from Cons.IH [of "Some de" ds' dds'] r e
  have ih: "sorted_wrt (<) (map sde_Name es)" "\<forall>e \<in> set es. sde_Name de < sde_Name e" by auto
  with p show ?case by (auto simp: Compare_signs intro: less_trans)
qed simp

lemma CheckDir_sorted:
  assumes "sp_CheckDir im n par es = []"
  shows "sorted_wrt (<) (map sde_Name es)"
  using assms checkEntries_sorted unfolding sp_CheckDir_def Let_def by blast

section \<open>Resolving a path ends\<close>

lemma Cut_shorter: "p \<noteq> [] \<Longrightarrow> sp_Cut p = (nm, q) \<Longrightarrow> length q < length p"
  by (auto simp: sp_Cut_def split: option.splits dest: IndexByte_Some)

lemma walk_total:
  "\<exists>links' r. sp_walk im root maxLinks links cur p = Some (links', r) \<and> links \<le> links'"
proof (induction "nat (maxLinks - links)" arbitrary: links cur p rule: less_induct)
  case outer: less
  have "\<exists>links' r. sp_walk im root maxLinks l cur p = Some (links', r) \<and> links \<le> links'" if "links \<le> l" for l cur p
    using that
  proof (induction "length p" arbitrary: l cur p rule: less_induct)
    case inner: less
    show ?case
    proof (cases "p = []")
      case True
      with inner.prems show ?thesis by (subst sp_walk.simps) simp
    next
      case False
      obtain nm q where c: "sp_Cut p = (nm, q)" by fastforce
      have q: "length q < length p" by (rule Cut_shorter [OF False c])
      note go = inner.hyps [OF q]
      show ?thesis
      proof (cases "bindE (sp_Lookup im cur nm) (\<lambda>de. sp_Inode im (sde_Nid de))")
        case (Inl e)
        with False c go [of l cur] inner.prems show ?thesis by (subst sp_walk.simps) auto
      next
        case (Inr link)
        have follow: "\<exists>links' r. sp_walk im root maxLinks (l + 1) base target = Some (links', r) \<and> links \<le> links'"
          if "\<not> l + 1 > maxLinks" for base target
          using outer [of "l + 1" base target] that inner.prems by fastforce
        show ?thesis
        proof (cases "nm = [] \<or> nm = [46] \<or> \<not> sp_IsDir cur \<or> \<not> sp_IsSymlink link \<or> l + 1 > maxLinks")
          case True
          with False c go [of l] inner.prems Inr show ?thesis by (subst sp_walk.simps) auto
        next
          case walk: False
          show ?thesis
          proof (cases "sp_Target im link")
            case (Inl e)
            with False c walk Inr inner.prems \<open>bindE _ _ = _\<close> show ?thesis by (subst sp_walk.simps) auto
          next
            case (Inr target)
            let ?base = "if target \<noteq> [] \<and> hd target = 47 then root else cur"
            obtain l2 r where f: "sp_walk im root maxLinks (l + 1) ?base target = Some (l2, r)" "links \<le> l2"
              using follow [of ?base target] walk by auto
            have "sp_walk im root maxLinks l cur p =
                (case r of Inl e \<Rightarrow> Some (l2, Inl e) | Inr node \<Rightarrow> sp_walk im root maxLinks l2 node q)"
              using False c walk Inr f(1) \<open>bindE _ _ = _\<close> by (subst sp_walk.simps) auto
            with go [of l2] f(2) show ?thesis by (cases r) auto
          qed
        qed
      qed
    qed
  qed
  then show ?case by blast
qed


section \<open>The concrete directory on both sides\<close>

lemma sample_dir_same:
  "\<exists>im n. sp_Parse_head (sample_with sample_dir) [] = Inr im \<and> sp_Inode_core im 4 = Inr n \<and>
    same_dir (sample_img sample_dir) im sample_dir_inode n"
proof -
  have o: "openSuper (bytes_reader (sample_with sample_dir)) [] = Inr (sample_img sample_dir)"
    by (rule sample_open) simp
  obtain im where im: "sp_Parse_head (sample_with sample_dir) [] = Inr im" "image_sim (sample_img sample_dir) im"
    using open_refines [OF bytes_reader_contract _ o, of "[]"] by (auto simp: imageSize_def bytes_reader_def sample_with_def)
  have ok: "image_ok (sample_img sample_dir)" by (rule sample_ok) simp
  obtain c where c: "readInode (sample_img sample_dir) [] 4 ModeDir = (c, Inr sample_dir_inode)"
    using sample_dir_read by (auto simp: readInfo_def new_file_def split: prod.splits)
  have nr: "near (sample_img sample_dir) sample_dir_inode"
    by (rule near_image [OF im(2) ok c])
      (simp_all add: parse_keeps(1) [OF im(1)] sample_with_def sample_dir_inode_def sample_inode_def)
  obtain n where n: "sp_Inode_core im 4 = Inr n" "inode_sim (sample_img sample_dir) sample_dir_inode n" "sn_Mode n = 0x41ED"
    using inode_refines [OF im(2) ok c] by (auto simp: sample_dir_inode_def sample_inode_def)
  have "same_dir (sample_img sample_dir) im sample_dir_inode n"
    unfolding same_dir_def using im ok n nr readInode_ok(1) [OF c] parse_keeps(2) [OF im(1)]
    by (simp add: sp_IsDir_def) (simp add: sample_dir_inode_def sample_inode_def inline_fits_def flatDataOffset_def i64_def calculateBlocks_def)
  with im n show ?thesis by blast
qed

section \<open>Properties\<close>

text \<open>
  C4. The two lookups agree: on a directory both sides hold, whose blocks parse and whose names
  ascend, the package's lookup and the reference's, which follows the kernel and skips the
  prefixes its bounds already match, find the same entries with the same nid and type, and
  report the same names as missing.
\<close>

theorem lookup_agrees_with_reference:
  assumes "readInfo img (dfile d) = (f, Inr fi)" and "same_dir img im fi n" and "good_dir img fi xss"
    and "sorted_wrt (<) (map snd (concat xss))"
  shows "case snd (lookup img d target) of
      Inl e \<Rightarrow> e = ErrNotExist \<and> sp_Lookup im n target = Inl SpNotExist
    | Inr (nid, mode) \<Rightarrow> (\<exists>de. sp_Lookup im n target = Inr de \<and> sde_Nid de = nid \<and>
        EroFSFtypeToFileMode (sde_Type de) = mode)"
proof -
  have "snd (lookup img d target) = found (concat xss) target"
    using lookup_found [OF assms(1,3,4)] by simp
  with Lookup_sorted [OF assms(2-4), of target] show ?thesis
    by (auto simp: found_def split: option.splits)
qed

theorem lookup_agrees_with_reference_witness:
  "\<exists>im n de. sp_Parse_head (sample_with sample_dir) [] = Inr im \<and> sp_Inode_core im 4 = Inr n \<and>
    snd (lookup (sample_img sample_dir) sample_open_dir [97]) = Inr (15, 0) \<and>
    sp_Lookup im n [97] = Inr de \<and> sde_Nid de = 15 \<and> sp_Lookup im n [98] = Inl SpNotExist"
proof -
  obtain im n where s: "sp_Parse_head (sample_with sample_dir) [] = Inr im" "sp_Inode_core im 4 = Inr n"
    "same_dir (sample_img sample_dir) im sample_dir_inode n"
    using sample_dir_same by blast
  have o: "sorted_wrt (<) (map snd (concat [sample_list]))"
    by (simp add: sample_list_def dot_def dotdot_def)
  have l: "snd (lookup (sample_img sample_dir) sample_open_dir t) = found sample_list t" for t
    using lookup_found [OF sample_dir_info sample_dir_good o] by simp
  have "found sample_list [97] = Inr (15, 0)" "found sample_list [98] = Inl ErrNotExist"
    by (simp_all add: found_def sample_list_def dot_def dotdot_def EroFSFtypeToFileMode_def)
  with lookup_agrees_with_reference [OF sample_dir_info s(3) sample_dir_good o, of "[97]"]
    lookup_agrees_with_reference [OF sample_dir_info s(3) sample_dir_good o, of "[98]"] s(1,2) show ?thesis
    by (auto simp: l)
qed

text \<open>
  C15. The two listings agree: \<open>ReadDir\<close> without a count returns the reference's entries, in its
  order, without \<open>.\<close> and \<open>..\<close>, for a directory both sides hold whose names are of at most 255
  bytes, the bound only the reference enforces.
\<close>

theorem listing_agrees_with_reference:
  assumes "readInfo img (dfile d) = (f, Inr fi)" and "same_dir img im fi n" and "good_dir img fi xss"
    and "\<forall>x \<in> set (concat xss). length (snd x) \<le> 255" and "k \<le> 0" and "dbn d = 0" and "dconsumed d = 0"
  shows "\<exists>d' es. sp_Dirents im n = Some (Inr es) \<and>
    ReadDir img d k = Some (d', map (\<lambda>e. new_file (sde_Name e) (sde_Nid e) (EroFSFtypeToFileMode (sde_Type e)))
      (filter (\<lambda>e. sde_Name e \<noteq> dot \<and> sde_Name e \<noteq> dotdot) es), None)"
proof -
  have "remaining xss 0 0 = concat xss" by (cases xss) (simp_all add: remaining_def)
  with readDirLoop_all [OF assms(3), of "d\<lparr>dfile := f\<rparr>" 0 0 k "[]"] assms(5-7)
  obtain d' where d: "ReadDir img d k = Some (d', files (concat xss), None)"
    by (auto simp: ReadDir_info [OF assms(1)] at_entry_def)
  have "files xs = map (\<lambda>e. new_file (sde_Name e) (sde_Nid e) (EroFSFtypeToFileMode (sde_Type e)))
      (filter (\<lambda>e. sde_Name e \<noteq> dot \<and> sde_Name e \<noteq> dotdot) (map to_spec xs))" for xs
    by (induction xs) (simp_all add: to_file_def visible_def to_spec_def)
  with d Dirents_good [OF assms(2-4)] show ?thesis by auto
qed

theorem listing_agrees_with_reference_witness:
  "\<exists>im n d' es. sp_Parse_head (sample_with sample_dir) [] = Inr im \<and> sp_Inode_core im 4 = Inr n \<and>
    sp_Dirents im n = Some (Inr es) \<and>
    ReadDir (sample_img sample_dir) sample_open_dir 0 =
      Some (d', map (\<lambda>e. new_file (sde_Name e) (sde_Nid e) (EroFSFtypeToFileMode (sde_Type e)))
        (filter (\<lambda>e. sde_Name e \<noteq> dot \<and> sde_Name e \<noteq> dotdot) es), None)"
proof -
  obtain im n where s: "sp_Parse_head (sample_with sample_dir) [] = Inr im" "sp_Inode_core im 4 = Inr n"
    "same_dir (sample_img sample_dir) im sample_dir_inode n"
    using sample_dir_same by blast
  from listing_agrees_with_reference [OF sample_dir_info s(3) sample_dir_good, of 0] s(1,2) show ?thesis
    by (auto simp: sample_list_def dot_def dotdot_def new_dir_def)
qed

text \<open>
  C18. The reference's path walk ends on every image, loops of symbolic links included: it returns
  a node or an error, after following at most the links it was allowed.
\<close>

theorem sp_Resolve_returns: "\<exists>r. sp_Resolve im path maxLinks = Some r"
proof (cases "sp_Inode im (su_RootNid (im_Super im))")
  case (Inr root)
  obtain l r where "sp_walk im root maxLinks 0 root path = Some (l, r)" using walk_total by blast
  with Inr show ?thesis by (simp add: sp_Resolve_def)
qed (simp add: sp_Resolve_def)

end
