(* ===== verification/Path.thy ===== *)
theory Path
  imports Dir
begin

text \<open>
  Names to inodes, as \<open>erofs.go\<close> resolves them: \<open>validPath\<close>, the targets of symbolic links and
  \<open>resolve\<close>, which walks a path one component at a time and starts over at the root for every
  symbolic link, and the methods of the image that begin with it. \<open>path.Clean\<close> of the standard
  library is written out by its documented rules.
\<close>

section \<open>Paths\<close>

text \<open>The length of the first element of a path.\<close>

definition elem_len :: "bytes \<Rightarrow> nat" where
  "elem_len name = (case IndexByte name 47 of Some i \<Rightarrow> i | None \<Rightarrow> length name)"

lemma elem_len_le: "elem_len name \<le> length name"
  by (auto simp: elem_len_def split: option.split dest: IndexByte_Some)

function validElems :: "bytes \<Rightarrow> bool" where
  "validElems name =
     (let i = elem_len name; elem = take i name in
      if elem = [] \<or> elem = dot \<or> elem = dotdot then False
      else if i = length name then True
      else validElems (drop (i + 1) name))"
  by auto
termination
  by (relation "measure length") (use elem_len_le in \<open>auto simp: Let_def le_less\<close>)

declare validElems.simps [simp del]

definition validPath :: "bytes \<Rightarrow> bool" where
  "validPath name = (if name = dot then True else validElems name)"

text \<open>\<open>path.Clean\<close>: empty and \<open>.\<close> elements go, a \<open>..\<close> takes the element before it with it, or
  goes itself at the start of a rooted path.\<close>

fun split_slash :: "bytes \<Rightarrow> bytes list" where
  "split_slash [] = [[]]"
| "split_slash (c # cs) =
     (if c = 47 then [] # split_slash cs
      else (case split_slash cs of e # es \<Rightarrow> (c # e) # es | [] \<Rightarrow> [[c]]))"

definition cleanElem :: "bool \<Rightarrow> bytes list \<Rightarrow> bytes \<Rightarrow> bytes list" where
  "cleanElem rooted out elem =
     (if elem = [] \<or> elem = dot then out
      else if elem = dotdot then
        (if out \<noteq> [] \<and> last out \<noteq> dotdot then butlast out
         else if rooted then out
         else out @ [dotdot])
      else out @ [elem])"

fun join_slash :: "bytes list \<Rightarrow> bytes" where
  "join_slash [] = []"
| "join_slash [e] = e"
| "join_slash (e # es) = e @ 47 # join_slash es"

definition path_IsAbs :: "bytes \<Rightarrow> bool" where
  "path_IsAbs p \<longleftrightarrow> p \<noteq> [] \<and> hd p = 47"

definition path_Clean :: "bytes \<Rightarrow> bytes" where
  "path_Clean p =
     (let out = foldl (cleanElem (path_IsAbs p)) [] (split_slash p) in
      if path_IsAbs p then 47 # join_slash out
      else if out = [] then dot
      else join_slash out)"

section \<open>Symbolic links\<close>

abbreviation (input) maxSymlinks :: nat where "maxSymlinks \<equiv> 255"
abbreviation (input) maxSymlinkSize :: int where "maxSymlinkSize \<equiv> 4096"
abbreviation (input) maxPathLen :: nat where "maxPathLen \<equiv> 4096"

definition maxResolveComponents :: nat where
  "maxResolveComponents = maxSymlinks * 2048"

text \<open>The target of a link. Whether the read of its content returns is a property of \<open>readAll\<close>,
  so the result is an option.\<close>

definition linkTarget :: "image \<Rightarrow> u64 \<Rightarrow> bytes \<Rightarrow> bytes result option" where
  "linkTarget img nid name =
     (case readInfo img (new_file name nid ModeSymlink) of
        (f, Inl e) \<Rightarrow> Some (Inl e)
      | (f, Inr fi) \<Rightarrow>
          if fsize fi = 0 then Some (Inl ErrCorrupt)
          else if fsize fi < 0 \<or> fsize fi > maxSymlinkSize then Some (Inl ErrCorrupt)
          else
            map_option (\<lambda>(f, r). bindE r (\<lambda>b. if 0 \<in> set b then Inl ErrCorrupt else Inr b))
              (readAll img f (nat (fsize fi))))"

section \<open>Resolving\<close>

text \<open>The variables of the loop of \<open>resolve\<close>.\<close>

record rstate =
  r_nid :: u64
  r_ftype :: FileMode
  r_links :: nat
  r_comps :: nat
  r_cur :: bytes
  r_name :: bytes
  r_base :: bytes

text \<open>Where a link leads: its target with the rest of the path behind it, from the directory of
  the link unless it is rooted, cleaned and without its leading slash.\<close>

definition linkPath :: "bytes \<Rightarrow> bytes \<Rightarrow> bytes \<Rightarrow> bytes result" where
  "linkPath cur target rest =
     (let target = (if rest \<noteq> [] then target @ 47 # rest else target);
          target = (if \<not> path_IsAbs target then cur @ 47 # target else target);
          target = path_Clean target
      in if length target > maxPathLen then Inl ErrInvalid
         else
           let target = (if target \<noteq> [] \<and> hd target = 47 then tl target else target) in
           if target \<noteq> [] \<and> \<not> validPath target then Inl ErrInvalid
           else Inr (if target = dot then [] else target))"

text \<open>One turn of the loop, for a path that is not used up.\<close>

definition resolveStep :: "image \<Rightarrow> bool \<Rightarrow> rstate \<Rightarrow> rstate result option" where
  "resolveStep img follow s =
     (let comps = r_comps s + 1 in
      if comps > maxResolveComponents then Some (Inl ErrLoop)
      else
        let sep = elem_len (r_name s);
            base = take sep (r_name s);
            rest = drop (sep + 1) (r_name s)
        in if r_ftype s \<noteq> ModeDir then Some (Inl ErrNotDirectory)
           else
             (case snd (lookup img (new_dir (new_file base (r_nid s) (r_ftype s))) base) of
                Inl e \<Rightarrow> Some (Inl e)
              | Inr (nid, entFtype) \<Rightarrow>
                  let ftype = FileMode_Type entFtype in
                  if ftype AND ModeSymlink \<noteq> 0 \<and> (follow \<or> rest \<noteq> []) then
                    (let links = r_links s + 1 in
                     if links > maxSymlinks then Some (Inl ErrLoop)
                     else map_option (\<lambda>t.
                       bindE t (\<lambda>target.
                       bindE (linkPath (r_cur s) target rest) (\<lambda>name.
                       Inr \<lparr> r_nid = ucast (sb_RootNid (sb img)), r_ftype = ModeDir, r_links = links,
                             r_comps = comps, r_cur = [], r_name = name, r_base = name \<rparr>)))
                       (linkTarget img nid base))
                  else
                    Some (Inr \<lparr> r_nid = nid, r_ftype = ftype, r_links = r_links s, r_comps = comps,
                      r_cur = (if r_cur s = [] then base else r_cur s @ 47 # base),
                      r_name = rest, r_base = base \<rparr>)))"

lemma resolveStep_comps:
  "resolveStep img follow s = Some (Inr s') \<Longrightarrow> r_comps s' = r_comps s + 1 \<and> r_comps s' \<le> maxResolveComponents"
  by (auto simp: resolveStep_def Let_def split: if_splits sum.splits prod.splits)

text \<open>The loop: every turn counts a component, and the count is bounded.\<close>

function resolveLoop :: "image \<Rightarrow> bool \<Rightarrow> rstate \<Rightarrow> rstate result option" where
  "resolveLoop img follow s =
     (if r_name s = [] then Some (Inr s)
      else
        (case resolveStep img follow s of
           None \<Rightarrow> None
         | Some (Inl e) \<Rightarrow> Some (Inl e)
         | Some (Inr s') \<Rightarrow> resolveLoop img follow s'))"
  by auto
termination
  by (relation "measure (\<lambda>(img, follow, s). maxResolveComponents - r_comps s)")
    (use resolveStep_comps in fastforce)+

declare resolveLoop.simps [simp del]

definition resolveStart :: "image \<Rightarrow> bytes \<Rightarrow> rstate" where
  "resolveStart img name =
     (let name = (if name = dot then [] else name) in
      \<lparr> r_nid = ucast (sb_RootNid (sb img)), r_ftype = ModeDir, r_links = 0, r_comps = 0, r_cur = [],
        r_name = name, r_base = name \<rparr>)"

text \<open>\<open>resolve\<close>: the inode, its type and its base name.\<close>

definition resolve :: "image \<Rightarrow> bytes \<Rightarrow> bool \<Rightarrow> (u64 \<times> FileMode \<times> bytes) result option" where
  "resolve img name follow =
     (if \<not> validPath name then Some (Inl ErrInvalid)
      else if length name > maxPathLen then Some (Inl ErrInvalid)
      else
        map_option (\<lambda>r. bindE r (\<lambda>s. Inr (r_nid s, r_ftype s, if r_base s = [] then name else r_base s)))
          (resolveLoop img follow (resolveStart img name)))"

section \<open>The methods of the image\<close>

text \<open>\<open>ftype.IsDir()\<close>.\<close>

definition IsDir :: "FileMode \<Rightarrow> bool" where
  "IsDir m \<longleftrightarrow> m AND ModeDir \<noteq> 0"

datatype handle = HDir dir | HFile open_file

definition image_Open :: "image \<Rightarrow> bytes \<Rightarrow> handle result option" where
  "image_Open img name =
     map_option (\<lambda>r. bindE r (\<lambda>(nid, ftype, basename).
       let b = new_file basename nid ftype in
       Inr (if IsDir ftype then HDir (new_dir b) else HFile b)))
     (resolve img name True)"

abbreviation (input) maxReadFileSize :: int where "maxReadFileSize \<equiv> 134217728"

definition image_ReadFile :: "image \<Rightarrow> bytes \<Rightarrow> bytes result option" where
  "image_ReadFile img name =
     (case resolve img name True of
        None \<Rightarrow> None
      | Some (Inl e) \<Rightarrow> Some (Inl e)
      | Some (Inr (nid, ftype, basename)) \<Rightarrow>
          if IsDir ftype then Some (Inl ErrIsDirectory)
          else
            (case readInfo img (new_file basename nid ftype) of
               (f, Inl e) \<Rightarrow> Some (Inl e)
             | (f, Inr fi) \<Rightarrow>
                 if fsize fi < 0 \<or> fsize fi > maxReadFileSize then Some (Inl ErrInvalid)
                 else map_option snd (readAll img f (nat (fsize fi)))))"

text \<open>\<open>ReadDir\<close> sorts its entries unless they are in order already. \<open>slices.SortFunc\<close> leaves the order
  of entries with equal names open; here they keep theirs.\<close>

definition image_ReadDir :: "image \<Rightarrow> bytes \<Rightarrow> open_file list result option" where
  "image_ReadDir img name =
     (case resolve img name True of
        None \<Rightarrow> None
      | Some (Inl e) \<Rightarrow> Some (Inl e)
      | Some (Inr (nid, ftype, basename)) \<Rightarrow>
          if \<not> IsDir ftype then Some (Inl ErrNotDirectory)
          else
            map_option (\<lambda>(d, entries, e).
              case e of
                Some e \<Rightarrow> Inl e
              | None \<Rightarrow> Inr (if sorted (map fname entries) then entries else sort_key fname entries))
            (ReadDir img (new_dir (new_file basename nid ftype)) (- 1)))"

definition image_ReadLink :: "image \<Rightarrow> bytes \<Rightarrow> bytes result option" where
  "image_ReadLink img name =
     (case resolve img name False of
        None \<Rightarrow> None
      | Some (Inl e) \<Rightarrow> Some (Inl e)
      | Some (Inr (nid, ftype, basename)) \<Rightarrow>
          if ftype AND ModeSymlink = 0 then Some (Inl ErrInvalid) else linkTarget img nid basename)"

section \<open>Elements of a path\<close>

lemma split_slash_ne [simp]: "split_slash p \<noteq> []"
  by (induction p) (auto split: list.split)

lemma split_slash_no_slash: "e \<in> set (split_slash p) \<Longrightarrow> 47 \<notin> set e"
proof (induction p arbitrary: e)
  case (Cons c p)
  then show ?case by (cases "split_slash p") (auto split: if_splits)
qed simp

lemma elem_len_Cons: "elem_len (c # p) = (if c = 47 then 0 else Suc (elem_len p))"
  by (auto simp: elem_len_def split: option.split)

lemma split_slash_step:
  "split_slash p = take (elem_len p) p # (if elem_len p = length p then [] else split_slash (drop (elem_len p + 1) p))"
proof (induction p)
  case Nil
  then show ?case by (simp add: elem_len_def)
next
  case (Cons c p)
  show ?case
  proof (cases "c = 47")
    case False
    with Cons show ?thesis by (subst split_slash.simps) (simp add: elem_len_Cons split: list.split)
  qed (simp add: elem_len_Cons)
qed

definition plain_elem :: "bytes \<Rightarrow> bool" where
  "plain_elem e \<longleftrightarrow> e \<noteq> [] \<and> e \<noteq> dot \<and> e \<noteq> dotdot"

lemma validElems_step:
  "validElems p \<longleftrightarrow> plain_elem (take (elem_len p) p) \<and>
     (elem_len p = length p \<or> validElems (drop (elem_len p + 1) p))"
  unfolding validElems.simps [of p] Let_def plain_elem_def by argo

lemma validElems_split: "validElems p \<longleftrightarrow> (\<forall>e \<in> set (split_slash p). plain_elem e)"
proof (induction p rule: validElems.induct)
  case (1 p)
  show ?case
  proof (cases "plain_elem (take (elem_len p) p) \<and> elem_len p \<noteq> length p")
    case True
    then have "validElems (drop (elem_len p + 1) p) \<longleftrightarrow>
        (\<forall>e \<in> set (split_slash (drop (elem_len p + 1) p)). plain_elem e)"
      using "1.IH" [OF refl refl] unfolding plain_elem_def by blast
    with True show ?thesis by (subst validElems_step, subst split_slash_step) simp
  next
    case False
    then consider "\<not> plain_elem (take (elem_len p) p)" | "plain_elem (take (elem_len p) p)" "elem_len p = length p" by blast
    then show ?thesis
      by cases (subst validElems_step, subst split_slash_step, simp)+
  qed
qed

lemma join_split: "join_slash (split_slash p) = p"
proof (induction p)
  case (Cons c p)
  obtain e es where s: "split_slash p = e # es" by (cases "split_slash p") auto
  with Cons show ?case by (cases es) auto
qed simp

lemma split_elem: "47 \<notin> set e \<Longrightarrow> split_slash e = [e]"
  by (induction e) auto

lemma split_append: "47 \<notin> set e \<Longrightarrow> split_slash (e @ 47 # p) = e # split_slash p"
  by (induction e) auto

lemma split_join: "es \<noteq> [] \<Longrightarrow> \<forall>e \<in> set es. 47 \<notin> set e \<Longrightarrow> split_slash (join_slash es) = es"
  by (induction es rule: join_slash.induct) (auto simp: split_elem split_append)

section \<open>Cleaning\<close>

definition clean_elems :: "bytes list \<Rightarrow> bool" where
  "clean_elems es \<longleftrightarrow> (\<forall>e \<in> set es. plain_elem e \<and> 47 \<notin> set e)"

lemma clean_elems_simps [simp]:
  "clean_elems []" "clean_elems (e # es) \<longleftrightarrow> plain_elem e \<and> 47 \<notin> set e \<and> clean_elems es"
  "clean_elems (es @ fs) \<longleftrightarrow> clean_elems es \<and> clean_elems fs"
  by (auto simp: clean_elems_def)

lemma clean_elems_butlast [simp]: "clean_elems es \<Longrightarrow> clean_elems (butlast es)"
  by (auto simp: clean_elems_def dest: in_set_butlastD)

lemma cleanElem_rooted:
  "clean_elems out \<Longrightarrow> 47 \<notin> set e \<Longrightarrow> clean_elems (cleanElem True out e)"
  unfolding cleanElem_def by (simp add: plain_elem_def)

lemma clean_rooted:
  "\<forall>e \<in> set es. 47 \<notin> set e \<Longrightarrow> clean_elems out \<Longrightarrow> clean_elems (foldl (cleanElem True) out es)"
  by (induction es arbitrary: out) (simp_all add: cleanElem_rooted)

lemma Clean_rooted:
  assumes "path_IsAbs p"
  obtains es where "path_Clean p = 47 # join_slash es" and "clean_elems es"
proof
  show "path_Clean p = 47 # join_slash (foldl (cleanElem True) [] (split_slash p))"
    using assms by (simp add: path_Clean_def)
  show "clean_elems (foldl (cleanElem True) [] (split_slash p))"
    by (rule clean_rooted) (use split_slash_no_slash in blast, simp)
qed

lemma linkPath_valid:
  assumes "linkPath cur target q = Inr name"
  shows "name = [] \<or> validElems name" and "length name \<le> 4096"
proof -
  define t where "t = (let t = (if q \<noteq> [] then target @ 47 # q else target) in
      path_Clean (if \<not> path_IsAbs t then cur @ 47 # t else t))"
  define u where "u = (if t \<noteq> [] \<and> hd t = 47 then tl t else t)"
  have l: "linkPath cur target q =
      (if length t > 4096 then Inl ErrInvalid
       else if u \<noteq> [] \<and> \<not> validPath u then Inl ErrInvalid else Inr (if u = dot then [] else u))"
    unfolding linkPath_def Let_def t_def u_def by simp
  then have n: "length t \<le> 4096" "u = [] \<or> validPath u" "name = (if u = dot then [] else u)"
    using assms by (auto split: if_splits)
  then show "name = [] \<or> validElems name" by (auto simp: validPath_def split: if_splits)
  have "length u \<le> length t" by (auto simp: u_def)
  with n(1,3) show "length name \<le> 4096" by auto
qed

section \<open>The walk\<close>

text \<open>What holds of the variables at the head of the loop.\<close>

definition rstate_ok :: "rstate \<Rightarrow> bool" where
  "rstate_ok s \<longleftrightarrow>
     (r_name s = [] \<or> validElems (r_name s)) \<and> length (r_name s) \<le> 4096 \<and>
     r_links s \<le> 255 \<and> r_comps s \<le> maxResolveComponents \<and> (r_cur s = [] \<or> validElems (r_cur s))"

lemma valid_first:
  assumes "validElems p"
  shows "plain_elem (take (elem_len p) p)" and "47 \<notin> set (take (elem_len p) p)"
    and "drop (elem_len p + 1) p = [] \<or> validElems (drop (elem_len p + 1) p)"
proof -
  note s = split_slash_step [of p]
  have "take (elem_len p) p \<in> set (split_slash p)" by (subst s) simp
  with assms show "plain_elem (take (elem_len p) p)" "47 \<notin> set (take (elem_len p) p)"
    by (auto simp: validElems_split dest: split_slash_no_slash)
  show "drop (elem_len p + 1) p = [] \<or> validElems (drop (elem_len p + 1) p)"
  proof (cases "elem_len p = length p")
    case False
    then have "split_slash p = take (elem_len p) p # split_slash (drop (elem_len p + 1) p)" using s by simp
    then have "\<forall>e \<in> set (split_slash (drop (elem_len p + 1) p)). plain_elem e"
      using assms unfolding validElems_split by simp
    then show ?thesis unfolding validElems_split by simp
  qed simp
qed

lemma valid_append:
  assumes "validElems p" and "plain_elem e" and "47 \<notin> set e"
  shows "validElems (p @ 47 # e)"
proof -
  have "split_slash (join_slash (es @ [e])) = es @ [e]" if "\<forall>x \<in> set es. 47 \<notin> set x" for es
    using that assms(3) by (intro split_join) auto
  moreover have "join_slash (es @ [e]) = join_slash es @ 47 # e" if "es \<noteq> []" for es
    using that by (induction es rule: join_slash.induct) auto
  ultimately have "split_slash (p @ 47 # e) = split_slash p @ [e]"
    using split_slash_no_slash [of _ p] join_split [of p] by (metis split_slash_ne)
  with assms show ?thesis by (simp add: validElems_split)
qed

lemma resolveStep_cases:
  assumes "resolveStep img follow s = Some (Inr s')"
  obtains
    (link) nm target cur rest where "linkPath cur target rest = Inr nm" "r_name s' = nm"
      "r_links s' = r_links s + 1" "r_links s' \<le> 255" "r_cur s' = []"
  | (go) "r_name s' = drop (elem_len (r_name s) + 1) (r_name s)" "r_links s' = r_links s"
      "r_cur s' = (if r_cur s = [] then take (elem_len (r_name s)) (r_name s)
        else r_cur s @ 47 # take (elem_len (r_name s)) (r_name s))"
proof -
  have f: "map_option g x = Some (Inr y) \<longleftrightarrow> (\<exists>z. x = Some z \<and> g z = Inr y)" for g x and y :: rstate by auto
  from assms show thesis
    unfolding resolveStep_def Let_def f
    by (auto split: if_splits sum.splits prod.splits intro: link go)
qed

lemma resolveStep_ok:
  assumes "rstate_ok s" and "r_name s \<noteq> []" and "resolveStep img follow s = Some (Inr s')"
  shows "rstate_ok s'"
proof -
  let ?b = "take (elem_len (r_name s)) (r_name s)"
  have v: "validElems (r_name s)" using assms(1,2) by (simp add: rstate_ok_def)
  note f = valid_first [OF v]
  have vb: "validElems ?b" using f(1,2) by (simp add: validElems_split split_elem)
  have c: "r_comps s' \<le> maxResolveComponents" using resolveStep_comps [OF assms(3)] by blast
  from assms(3) show ?thesis
  proof (cases rule: resolveStep_cases)
    case (link nm target cur rest)
    with c linkPath_valid [OF link(1)] show ?thesis by (simp add: rstate_ok_def)
  next
    case go
    have "r_cur s' = [] \<or> validElems (r_cur s')"
      using go(3) assms(1) vb valid_append [OF _ f(1,2)] by (auto simp: rstate_ok_def)
    then show ?thesis using go(1,2) f(3) assms(1) c by (simp add: rstate_ok_def) linarith
  qed
qed

text \<open>The states a walk passes through.\<close>

inductive reaches :: "image \<Rightarrow> bool \<Rightarrow> rstate \<Rightarrow> rstate \<Rightarrow> bool" for img follow where
  here: "reaches img follow s s"
| step: "reaches img follow s t \<Longrightarrow> r_name t \<noteq> [] \<Longrightarrow> resolveStep img follow t = Some (Inr u) \<Longrightarrow> reaches img follow s u"

lemma reaches_ok: "reaches img follow s t \<Longrightarrow> rstate_ok s \<Longrightarrow> rstate_ok t"
  by (induction rule: reaches.induct) (auto intro: resolveStep_ok)

lemma reaches_head:
  assumes "reaches img follow u t" and "r_name s \<noteq> []" and "resolveStep img follow s = Some (Inr u)"
  shows "reaches img follow s t"
  using assms by (induction rule: reaches.induct) (auto intro: reaches.intros)

lemma resolveLoop_reaches: "resolveLoop img follow s = Some (Inr t) \<Longrightarrow> reaches img follow s t \<and> r_name t = []"
proof (induction img follow s rule: resolveLoop.induct)
  case (1 img follow s)
  show ?case
  proof (cases "r_name s = []")
    case True
    with 1(2) show ?thesis by (simp add: resolveLoop.simps [of img follow s] reaches.here)
  next
    case False
    then obtain u where u: "resolveStep img follow s = Some (Inr u)" "resolveLoop img follow u = Some (Inr t)"
      using 1(2) by (auto simp: resolveLoop.simps [of img follow s] split: option.splits sum.splits)
    from 1(1) [OF False u(1) refl u(2)] reaches_head [OF _ False u(1)] show ?thesis by blast
  qed
qed

lemma start_ok: "validPath name \<Longrightarrow> length name \<le> 4096 \<Longrightarrow> rstate_ok (resolveStart img name)"
  by (auto simp: rstate_ok_def resolveStart_def validPath_def maxResolveComponents_def Let_def)

section \<open>The walk returns\<close>

lemma readInfo_new_total:
  assumes "image_ok img" "image_reads img" and "readInfo img (new_file name nid t) = (f, Inr fi)"
  shows "\<exists>f' r. readAll img f n = Some (f', r)"
proof -
  have "direct_ok img (new_file name nid t)" by (simp add: direct_ok_def file_ok_def new_file_def)
  from readInfo_direct(1) [OF this assms(3)] ReadFull_total [OF assms(1,2), of f n "[]"] show ?thesis
    by (auto simp: readAll_def split: prod.split)
qed

lemma linkTarget_total:
  assumes "image_ok img" "image_reads img"
  shows "\<exists>r. linkTarget img nid name = Some r"
  using readInfo_new_total [OF assms, of name nid ModeSymlink]
  by (fastforce simp: linkTarget_def split: prod.split sum.split)

lemma resolveStep_total:
  assumes "image_ok img" "image_reads img"
  shows "\<exists>r. resolveStep img follow s = Some r"
proof -
  have "\<exists>r. map_option g (linkTarget img nid name) = Some r" for g :: "bytes result \<Rightarrow> rstate result" and nid name
    using linkTarget_total [OF assms, of nid name] by auto
  then show ?thesis
    unfolding resolveStep_def Let_def by (auto split: sum.split prod.split)
qed

lemma resolveLoop_total:
  assumes "image_ok img" "image_reads img"
  shows "\<exists>r. resolveLoop img follow s = Some r"
  using assms
proof (induction img follow s rule: resolveLoop.induct)
  case (1 img follow s)
  obtain r where r: "resolveStep img follow s = Some r" using resolveStep_total [OF 1(2,3)] by blast
  show ?case
  proof (cases "r_name s = []")
    case True
    then show ?thesis by (subst resolveLoop.simps) simp
  next
    case False
    show ?thesis
    proof (cases r)
      case (Inl e)
      with False r show ?thesis by (subst resolveLoop.simps) simp
    next
      case (Inr u)
      with 1(1) [OF False r Inr 1(2,3)] False r show ?thesis by (subst resolveLoop.simps) simp
    qed
  qed
qed

section \<open>Paths without links\<close>

text \<open>What a path names when no link is followed: one lookup per element, each in the directory
  the one before has found.\<close>

fun walkNames :: "image \<Rightarrow> u64 \<Rightarrow> FileMode \<Rightarrow> bytes list \<Rightarrow> (u64 \<times> FileMode) result" where
  "walkNames img nid ftype [] = Inr (nid, ftype)"
| "walkNames img nid ftype (e # es) =
     (if ftype \<noteq> ModeDir then Inl ErrNotDirectory
      else bindE (snd (lookup img (new_dir (new_file e nid ftype)) e)) (\<lambda>(nid, m).
        walkNames img nid (FileMode_Type m) es))"

fun meets_link :: "image \<Rightarrow> bool \<Rightarrow> u64 \<Rightarrow> FileMode \<Rightarrow> bytes list \<Rightarrow> bool" where
  "meets_link img follow nid ftype [] = False"
| "meets_link img follow nid ftype (e # es) =
     (ftype = ModeDir \<and>
      (case snd (lookup img (new_dir (new_file e nid ftype)) e) of
         Inl x \<Rightarrow> False
       | Inr (nid, m) \<Rightarrow>
           FileMode_Type m AND ModeSymlink \<noteq> 0 \<and> (follow \<or> es \<noteq> []) \<or>
           meets_link img follow nid (FileMode_Type m) es))"

lemma split_first:
  assumes "p \<noteq> []" and "validElems p" and "e = take (elem_len p) p" and "q = drop (elem_len p + 1) p"
  shows "split_slash p = e # (if q = [] then [] else split_slash q)"
proof (cases "elem_len p = length p")
  case False
  then have s: "split_slash p = e # split_slash q" using split_slash_step [of p] assms(3,4) by simp
  have "q \<noteq> []"
  proof
    assume "q = []"
    then have "[] \<in> set (split_slash p)" using s by simp
    with assms(2) show False unfolding validElems_split by (auto simp: plain_elem_def)
  qed
  with s show ?thesis by simp
qed (use split_slash_step [of p] assms(3,4) in simp)

definition outcome :: "rstate result option \<Rightarrow> (u64 \<times> FileMode \<times> bytes) result option" where
  "outcome = map_option (\<lambda>r. bindE r (\<lambda>t. Inr (r_nid t, r_ftype t, r_base t)))"

lemma outcome_simps [simp]:
  "outcome (Some (Inl e)) = Some (Inl e)"
  "outcome (Some (Inr t)) = Some (Inr (r_nid t, r_ftype t, r_base t))"
  by (simp_all add: outcome_def)

lemma resolveStep_plain:
  assumes "r_comps s < maxResolveComponents" and "r_ftype s = ModeDir"
    and e: "e = take (elem_len (r_name s)) (r_name s)" and q: "q = drop (elem_len (r_name s) + 1) (r_name s)"
    and l: "snd (lookup img (new_dir (new_file e (r_nid s) (r_ftype s))) e) = Inr (nid, m)"
    and "\<not> (FileMode_Type m AND ModeSymlink \<noteq> 0 \<and> (follow \<or> q \<noteq> []))"
  shows "\<exists>c. resolveStep img follow s = Some (Inr \<lparr> r_nid = nid, r_ftype = FileMode_Type m, r_links = r_links s,
      r_comps = r_comps s + 1, r_cur = c, r_name = q, r_base = e \<rparr>)"
proof -
  have c: "\<not> maxResolveComponents < r_comps s + 1" using assms(1) by simp
  show ?thesis
    unfolding resolveStep_def Let_def e [symmetric] q [symmetric] l sum.case prod.case if_not_P [OF c] if_not_P [OF assms(6)]
    using assms(2) by simp
qed

lemma resolveLoop_plain:
  assumes "rstate_ok s" "r_name s \<noteq> []" and "r_comps s + length (split_slash (r_name s)) \<le> maxResolveComponents"
    and "\<not> meets_link img follow (r_nid s) (r_ftype s) (split_slash (r_name s))"
  shows "outcome (resolveLoop img follow s) =
     Some (bindE (walkNames img (r_nid s) (r_ftype s) (split_slash (r_name s)))
       (\<lambda>(nid, t). Inr (nid, t, last (split_slash (r_name s)))))"
  using assms
proof (induction img follow s rule: resolveLoop.induct)
  case (1 img follow s)
  let ?p = "r_name s"
  define e where "e = take (elem_len ?p) ?p"
  define q where "q = drop (elem_len ?p + 1) ?p"
  have v: "validElems ?p" using 1(2,3) by (simp add: rstate_ok_def)
  have sp: "split_slash ?p = e # (if q = [] then [] else split_slash q)"
    by (rule split_first [OF 1(3) v e_def q_def])
  have c: "r_comps s < maxResolveComponents" using 1(4) sp by simp
  have c': "\<not> maxResolveComponents < r_comps s + 1" using c by simp
  let ?l = "snd (lookup img (new_dir (new_file e (r_nid s) (r_ftype s))) e)"
  show ?case
  proof (cases "r_ftype s = ModeDir")
    case False
    then have "resolveStep img follow s = Some (Inl ErrNotDirectory)"
      unfolding resolveStep_def Let_def if_not_P [OF c'] by simp
    then show ?thesis using False 1(3) by (subst resolveLoop.simps) (simp add: sp)
  next
    case True
    show ?thesis
    proof (cases ?l)
      case (Inl x)
      then have "resolveStep img follow s = Some (Inl x)"
        unfolding resolveStep_def Let_def if_not_P [OF c'] e_def [symmetric] using True by simp
      then show ?thesis using True Inl 1(3) by (subst resolveLoop.simps) (simp add: sp)
    next
      case (Inr x)
      obtain nid m where x: "x = (nid, m)" by (cases x)
      have nl: "\<not> (FileMode_Type m AND ModeSymlink \<noteq> 0 \<and> (follow \<or> q \<noteq> []))"
        "q \<noteq> [] \<Longrightarrow> \<not> meets_link img follow nid (FileMode_Type m) (split_slash q)"
        using 1(5) True Inr x by (auto simp: sp split: if_splits)
      obtain cur where st: "resolveStep img follow s = Some (Inr \<lparr> r_nid = nid, r_ftype = FileMode_Type m,
          r_links = r_links s, r_comps = r_comps s + 1, r_cur = cur, r_name = q, r_base = e \<rparr>)"
        (is "_ = Some (Inr ?u)")
        using resolveStep_plain [OF c True e_def q_def Inr [unfolded x] nl(1)] by blast
      have lp: "resolveLoop img follow s = resolveLoop img follow ?u"
        using 1(3) st by (subst resolveLoop.simps) simp
      have w: "walkNames img (r_nid s) (r_ftype s) (split_slash ?p) =
          walkNames img nid (FileMode_Type m) (if q = [] then [] else split_slash q)"
        using True Inr x by (simp add: sp)
      show ?thesis
      proof (cases "q = []")
        case True
        then have "resolveLoop img follow ?u = Some (Inr ?u)" by (subst resolveLoop.simps) simp
        then show ?thesis unfolding lp w using True by (simp add: sp)
      next
        case False
        have "outcome (resolveLoop img follow ?u) =
          Some (bindE (walkNames img (r_nid ?u) (r_ftype ?u) (split_slash (r_name ?u)))
            (\<lambda>(nid, t). Inr (nid, t, last (split_slash (r_name ?u)))))"
        proof (rule 1(1) [OF 1(3) st refl])
          show "rstate_ok ?u" by (rule resolveStep_ok [OF 1(2,3) st])
          show "r_comps ?u + length (split_slash (r_name ?u)) \<le> maxResolveComponents"
            using 1(4) False by (simp add: sp)
        qed (use False nl(2) in simp_all)
        then show ?thesis unfolding lp w using False by (simp add: sp)
      qed
    qed
  qed
qed

lemma length_split_slash: "length (split_slash p) \<le> length p + 1"
  by (induction p) (auto split: list.split)

section \<open>A sample\<close>

text \<open>The name an inode was reached by is not data.\<close>

lemma iname_fields:
  "fsize (fi\<lparr>iname := n\<rparr>) = fsize fi" "inid (fi\<lparr>iname := n\<rparr>) = inid fi"
  "inodeLayout (fi\<lparr>iname := n\<rparr>) = inodeLayout fi"
  "flatDataOffset (fi\<lparr>iname := n\<rparr>) = flatDataOffset fi" "nullAddress (fi\<lparr>iname := n\<rparr>) = nullAddress fi"
  "startBlock (fi\<lparr>iname := n\<rparr>) = startBlock fi" "chunkFormat (fi\<lparr>iname := n\<rparr>) = chunkFormat fi"
  by (simp_all add: flatDataOffset_def nullAddress_def startBlock_def chunkFormat_def)

lemma iname_chunks:
  "chunkUnit (fi\<lparr>iname := n\<rparr>) = chunkUnit fi" "chunkBits img (fi\<lparr>iname := n\<rparr>) = chunkBits img fi"
  "chunkMapBase img (fi\<lparr>iname := n\<rparr>) = chunkMapBase img fi"
  by (simp_all add: chunkUnit_def chunkBits_def chunkMapBase_def iname_fields)

lemma iname_loadChunk:
  "loadChunkEntry img (fi\<lparr>iname := n\<rparr>) = loadChunkEntry img fi"
  "loadChunk_in pool img (fi\<lparr>iname := n\<rparr>) = loadChunk_in pool img fi"
proof -
  show e: "loadChunkEntry img (fi\<lparr>iname := n\<rparr>) = loadChunkEntry img fi"
    by (rule ext) (simp only: loadChunkEntry_def iname_chunks)
  show "loadChunk_in pool img (fi\<lparr>iname := n\<rparr>) = loadChunk_in pool img fi"
    by (intro ext) (simp only: loadChunk_in_def iname_chunks iname_fields e)
qed

lemma loadBlock_iname: "loadBlock img (fi\<lparr>iname := n\<rparr>) pos = loadBlock img fi pos"
  by (simp only: loadBlock_def loadBlock_in_def iname_loadChunk iname_fields)

lemma good_dir_iname: "good_dir img (fi\<lparr>iname := n\<rparr>) xss \<longleftrightarrow> good_dir img fi xss"
  by (simp add: good_dir_def loadBlock_iname)

lemma sample_dir_named:
  "readInfo (sample_img sample_dir) (new_file n 4 ModeDir) =
     ((new_file n 4 ModeDir)\<lparr>finfo := Some (sample_dir_inode\<lparr>iname := n\<rparr>)\<rparr>, Inr (sample_dir_inode\<lparr>iname := n\<rparr>))"
proof -
  have "decodeInfo (sample_img sample_dir) n 4 ModeDir sample_dir =
      (Some (sample_dir_inode\<lparr>iname := n\<rparr>), Inr (sample_dir_inode\<lparr>iname := n\<rparr>))"
    by (simp add: decodeInfo_def sample_dir_def le16_def le32_def le64_def window_def Let_def checkInodeFormat_def
      decodeInode_def InodeCompact_Unmarshal_def FileMode_Type_def EroFSModeToGoFileMode_def finishInfo_def finishTarget_def
      checkChunkFormat_def i64_def sample_inode_def sample_dir_inode_def)
  moreover have "checkNid (sample_img sample_dir) 4 = Inr ()"
    by (simp add: checkNid_def i64_def Let_def)
  ultimately show ?thesis
    by (simp add: readInfo_def readInode_def new_file_def sample_read_inode)
qed

lemma sample_dir_lookup:
  "snd (lookup (sample_img sample_dir) (new_dir (new_file n 4 ModeDir)) t) = found sample_list t"
proof -
  have i: "readInfo (sample_img sample_dir) (dfile (new_dir (new_file n 4 ModeDir))) =
      ((new_file n 4 ModeDir)\<lparr>finfo := Some (sample_dir_inode\<lparr>iname := n\<rparr>)\<rparr>, Inr (sample_dir_inode\<lparr>iname := n\<rparr>))"
    using sample_dir_named [of n] by (simp add: new_dir_def)
  have "sorted_wrt (<) (map snd (concat [sample_list]))" by (simp add: sample_list_def dot_def dotdot_def)
  from lookup_found [OF i _ this, of t] show ?thesis using sample_dir_good by (simp add: good_dir_iname)
qed

lemma sample_root: "ucast (sb_RootNid (sb (sample_img body))) = (4 :: u64)"
  by (simp add: sample_img_def sample_super_decode)

lemma sample_found: "found sample_list [97] = Inr (15, 0)" "found sample_list [98] = Inl ErrNotExist"
  by (simp_all add: found_def sample_list_def dot_def dotdot_def EroFSFtypeToFileMode_def)

section \<open>Properties\<close>

text \<open>
  C8. A walk never leaves the names it was given: at every turn of \<open>resolve\<close>, of the path of the
  caller and of every path a symbolic link has put in its place, the element looked up in a
  directory is a plain name, neither empty nor \<open>.\<close> nor \<open>..\<close> and without a slash, and the counts of
  links and of elements are within their bounds.
\<close>

theorem resolve_looks_up_plain_names:
  assumes "validPath name" and "length name \<le> maxPathLen"
    and "reaches img follow (resolveStart img name) s" and "r_name s \<noteq> []"
  shows "plain_elem (take (elem_len (r_name s)) (r_name s)) \<and> 47 \<notin> set (take (elem_len (r_name s)) (r_name s)) \<and>
    length (r_name s) \<le> maxPathLen \<and> r_links s \<le> maxSymlinks \<and> r_comps s \<le> maxResolveComponents"
proof -
  have ok: "rstate_ok s" by (rule reaches_ok [OF assms(3)]) (use start_ok assms(1,2) in blast)
  with assms(4) have "validElems (r_name s)" by (simp add: rstate_ok_def)
  from valid_first [OF this] ok show ?thesis by (simp add: rstate_ok_def)
qed

theorem resolve_looks_up_plain_names_witness:
  "plain_elem (take (elem_len [97]) [97]) \<and> 47 \<notin> set (take (elem_len [97]) [97 :: byte])"
proof -
  have "validPath [97]" by (simp add: validPath_def dot_def dotdot_def validElems.simps elem_len_def)
  from resolve_looks_up_plain_names [OF this _ reaches.here [of "sample_img sample_dir" True]]
  show ?thesis by (simp add: resolveStart_def dot_def Let_def)
qed

text \<open>
  C9. \<open>resolve\<close> returns, for every name and on every open image, whatever its directories and links
  hold: neither a cycle of links nor one of directories keeps it going.
\<close>

theorem resolve_returns:
  assumes "image_ok img" and "image_reads img"
  shows "\<exists>r. resolve img name follow = Some r"
  using resolveLoop_total [OF assms, of follow "resolveStart img name"] by (auto simp: resolve_def)

theorem resolve_returns_witness: "\<exists>r. resolve (sample_img sample_dir) [97] True = Some r"
  by (rule resolve_returns) (simp_all add: sample_ok)

text \<open>
  C7. Where no link has to be followed, \<open>resolve\<close> is one lookup per element: a valid path names what
  the successive lookups of its elements find, beginning at the root, with the last element as the
  base name, and fails with the error of the first lookup that fails.
\<close>

theorem resolve_is_successive_lookup:
  assumes "validPath name" and "name \<noteq> dot" and "length name \<le> maxPathLen"
    and "\<not> meets_link img follow (ucast (sb_RootNid (sb img))) ModeDir (split_slash name)"
  shows "resolve img name follow =
    Some (bindE (walkNames img (ucast (sb_RootNid (sb img))) ModeDir (split_slash name))
      (\<lambda>(nid, t). Inr (nid, t, last (split_slash name))))"
proof -
  let ?s = "resolveStart img name"
  have ok: "rstate_ok ?s" by (rule start_ok [OF assms(1,3)])
  have f: "r_name ?s = name" "r_comps ?s = 0" "r_nid ?s = ucast (sb_RootNid (sb img))" "r_ftype ?s = ModeDir"
    using assms(2) by (simp_all add: resolveStart_def)
  have ne: "name \<noteq> []" using assms(1) by (auto simp: validPath_def validElems.simps dot_def elem_len_def)
  have "length (split_slash name) \<le> maxResolveComponents"
    using length_split_slash [of name] assms(3) by (simp add: maxResolveComponents_def)
  with resolveLoop_plain [OF ok, of img follow] f ne assms(4)
  have o: "outcome (resolveLoop img follow ?s) =
      Some (bindE (walkNames img (ucast (sb_RootNid (sb img))) ModeDir (split_slash name))
        (\<lambda>(nid, t). Inr (nid, t, last (split_slash name))))" by simp
  have le: "last (split_slash name) \<noteq> []"
    using assms(1,2) last_in_set [OF split_slash_ne] by (auto simp: validPath_def validElems_split plain_elem_def)
  obtain r where r: "resolveLoop img follow ?s = Some r" using o by (cases "resolveLoop img follow ?s") (auto simp: outcome_def)
  have b: "r_base t \<noteq> []" if "r = Inr t" for t
    using o le unfolding r that by (auto split: prod.splits)
  have "resolve img name follow = outcome (Some r)"
    using assms(1,3) r b by (cases r) (simp_all add: resolve_def)
  with o r show ?thesis by simp
qed

theorem resolve_is_successive_lookup_witness:
  "resolve (sample_img sample_dir) [97] True = Some (Inr (15, 0, [97])) \<and>
   resolve (sample_img sample_dir) [98] True = Some (Inl ErrNotExist)"
proof -
  have v: "validPath [97]" "validPath [98]" by (simp_all add: validPath_def dot_def dotdot_def validElems.simps elem_len_def)
  have n: "\<not> meets_link (sample_img sample_dir) True (ucast (sb_RootNid (sb (sample_img sample_dir)))) ModeDir (split_slash [97])"
    "\<not> meets_link (sample_img sample_dir) True (ucast (sb_RootNid (sb (sample_img sample_dir)))) ModeDir (split_slash [98])"
    unfolding sample_root by (simp_all add: sample_dir_lookup sample_found FileMode_Type_def)
  from resolve_is_successive_lookup [OF v(1) _ _ n(1)] resolve_is_successive_lookup [OF v(2) _ _ n(2)]
  show ?thesis unfolding sample_root by (simp add: sample_dir_lookup sample_found FileMode_Type_def dot_def)
qed
end
