(* ===== verification/Layout.thy ===== *)
theory Layout
  imports Image
begin

text \<open>
  The plan of an image: \<open>layout.go\<close> and the sizes of \<open>writer.go\<close> it rests on. The entries of the
  tree that is written are records in a store addressed by natural numbers, since the code shares
  and updates them through pointers: a directory lists its children by address, an alias of a hard
  link names its target by address. \<open>planLayout\<close> walks the tree, gives every entry with an inode its
  place in the metadata area and decides how its data is stored. Lengths and offsets are natural
  numbers; the block size is a power of two, so that the masks of the source round.
\<close>

section \<open>Entries\<close>

record chunk =
  ck_PhysicalBlock :: u64
  ck_Count :: u16
  ck_DeviceID :: u16

definition NullPhysicalBlock :: u64 where
  "NullPhysicalBlock = NOT 0"

text \<open>An \<open>io.Reader\<close> that content is copied from: what it delivers before it ends, and the error
  other than \<open>io.EOF\<close> it ends with.\<close>

record source =
  src_bytes :: bytes
  src_err :: "err option"

type_synonym addr = nat

record erofsEntry =
  e_mode :: u16
  e_uid :: u32
  e_gid :: u32
  e_mtime :: u64
  e_mtimeNs :: u32
  e_nlink :: u32
  e_size :: u64
  e_rdev :: u32
  e_name :: bytes
  e_path :: bytes
  e_children :: "addr list"
  e_symTarget :: bytes
  e_chunks :: "chunk list"
  e_contiguous :: bool
  e_chunkBits :: byte
  e_metadataOnly :: bool
  e_tail :: bytes
  e_tailBlkAddr :: u32
  e_data :: "source option"
  e_xattrs :: xattr_map
  e_aliasOf :: "addr option"
  e_nid :: u64
  e_parentNid :: u64
  e_erofsFileType :: byte
  e_layout :: byte
  e_compact :: bool
  e_xattrSize :: nat
  e_chunkPad :: nat
  e_trailingSize :: nat
  e_direntSize :: nat
  e_dataBlkAddr :: u32

type_synonym store = "addr \<Rightarrow> erofsEntry"

text \<open>The writer: the entries in the order of their inodes, the store they live in, and the
  parameters of the image. The scratch buffers the code keeps for reuse are cleared or overwritten
  before every use and do not show.\<close>

record erofsWriter =
  w_store :: store
  w_entries :: "addr list"
  w_rootNid :: u64
  w_metaBlkAddr :: u32
  w_totalInodes :: u64
  w_buildTime :: u64
  w_buildTimeNs :: u32
  w_devices :: "u64 list"
  w_blockSize :: nat
  w_noInlineData :: bool
  w_chunkBits :: byte

abbreviation e_type :: "erofsEntry \<Rightarrow> u16" where
  "e_type e \<equiv> e_mode e AND StatTypeMask"

abbreviation is_dir :: "erofsEntry \<Rightarrow> bool" where
  "is_dir e \<equiv> e_type e = StatTypeDir"

section \<open>Sizes\<close>

definition inodeCoreSize :: "erofsEntry \<Rightarrow> nat" where
  "inodeCoreSize e = (if e_compact e then SizeInodeCompact else SizeInodeExtended)"

definition inodeSlotAlign :: "nat \<Rightarrow> nat" where
  "inodeSlotAlign sz = (sz + SizeInodeSlot - 1) div SizeInodeSlot * SizeInodeSlot"

definition entryChunkBits :: "erofsWriter \<Rightarrow> erofsEntry \<Rightarrow> byte" where
  "entryChunkBits w e = (if e_chunkBits e > 0 then e_chunkBits e else w_chunkBits w)"

text \<open>\<open>w.blockSize << bits\<close> in an \<open>int\<close>.\<close>

definition entryChunkSize :: "erofsWriter \<Rightarrow> erofsEntry \<Rightarrow> int" where
  "entryChunkSize w e = i64 (int (w_blockSize w) * 2 ^ unat (entryChunkBits w e))"

abbreviation (input) maxChunkIndexEntries :: nat where "maxChunkIndexEntries \<equiv> 134217728"

definition chunkCount :: "erofsWriter \<Rightarrow> erofsEntry \<Rightarrow> nat" where
  "chunkCount w e =
     (let cs = word_of_int (entryChunkSize w e) :: u64 in
      if cs = 0 then 0
      else
        let n = e_size e div cs;
            n = (if e_size e mod cs \<noteq> 0 then n + 1 else n)
        in if unat n > maxChunkIndexEntries then maxChunkIndexEntries + 1 else unat n)"

text \<open>\<open>uint64(w.blockSize)<<bits < size && bits < 31\<close>; the shift of a 64-bit word.\<close>

function minChunkBits_from :: "nat \<Rightarrow> u64 \<Rightarrow> byte \<Rightarrow> byte" where
  "minChunkBits_from bsz sz bits =
     (if push_bit (unat bits) (of_nat bsz :: u64) < sz \<and> bits < 31 then minChunkBits_from bsz sz (bits + 1) else bits)"
  by auto
termination
proof (relation "measure (\<lambda>(bsz, sz, bits). 31 - unat bits)", simp, clarsimp)
  fix bits :: byte
  assume "bits < 31"
  then have "unat bits < 31" by (simp add: word_less_nat_alt)
  then show "31 - unat (bits + 1) < 31 - unat bits"
    by (simp add: unat_word_ariths)
qed

declare minChunkBits_from.simps [simp del]

definition minChunkBits :: "erofsWriter \<Rightarrow> u64 \<Rightarrow> byte" where
  "minChunkBits w sz = minChunkBits_from (w_blockSize w) sz (w_chunkBits w)"

section \<open>Directory data\<close>

definition direntNames :: "store \<Rightarrow> erofsEntry \<Rightarrow> bytes list" where
  "direntNames st e = sort ([46] # [46, 46] # map (\<lambda>c. e_name (st c)) (e_children e))"

text \<open>The inner loop of \<open>calcDirentDataSize\<close> and \<open>writeDirents\<close>: how many of the next names fit into
  a block beside \<open>k\<close> that are in it already with names of \<open>nameSize\<close> bytes, and what is used.\<close>

fun fitDirents :: "nat \<Rightarrow> nat \<Rightarrow> nat \<Rightarrow> nat \<Rightarrow> bytes list \<Rightarrow> nat \<times> nat" where
  "fitDirents bsz k nameSize used [] = (k, used)"
| "fitDirents bsz k nameSize used (n # names) =
     (let nameSize = nameSize + length n;
          needed = (k + 1) * SizeDirent + nameSize
      in if needed > bsz then (k, used) else fitDirents bsz (k + 1) nameSize needed names)"

text \<open>One block: a single entry is taken when none fits. \<open>writeDirents\<close> (\<open>writer.go\<close>, 836 to 859) repeats this
  loop to choose the entries of a block, so it is one definition for both.\<close>

definition direntBlock :: "nat \<Rightarrow> bytes list \<Rightarrow> nat \<times> nat" where
  "direntBlock bsz names =
     (case fitDirents bsz 0 0 0 names of
        (k, used) \<Rightarrow> if k = 0 then (1, SizeDirent + length (hd names)) else (k, used))"

function calcDirentBlocks :: "nat \<Rightarrow> bytes list \<Rightarrow> nat" where
  "calcDirentBlocks bsz names =
     (if names = [] then 0
      else
        let (k, used) = direntBlock bsz names;
            used = (if k < length names \<and> used mod bsz \<noteq> 0 then (used + bsz - 1) div bsz * bsz else used)
        in used + calcDirentBlocks bsz (drop k names))"
  by auto
termination
  by (relation "measure (\<lambda>(bsz, names). length names)")
    (auto simp: direntBlock_def split: prod.splits if_splits)

declare calcDirentBlocks.simps [simp del]

definition calcDirentDataSize :: "erofsWriter \<Rightarrow> erofsEntry \<Rightarrow> nat" where
  "calcDirentDataSize w e =
     (if e_children e = [] then 2 * SizeDirent + 1 + 2
      else calcDirentBlocks (w_blockSize w) (direntNames (w_store w) e))"

text \<open>The memoized size: what a call returns. The callers that go on with the entry keep the value
  in it.\<close>

definition direntDataSize :: "erofsWriter \<Rightarrow> erofsEntry \<Rightarrow> nat" where
  "direntDataSize w e = (if e_direntSize e = 0 then calcDirentDataSize w e else e_direntSize e)"

definition inodeFileSize :: "erofsWriter \<Rightarrow> erofsEntry \<Rightarrow> u64" where
  "inodeFileSize w e =
     (if is_dir e then of_nat (direntDataSize w e)
      else if e_type e = StatTypeSymlink then of_nat (length (e_symTarget e))
      else e_size e)"

section \<open>Placing an entry\<close>

definition calcTrailingSize :: "erofsWriter \<Rightarrow> erofsEntry \<Rightarrow> nat" where
  "calcTrailingSize w e =
     (if e_type e = StatTypeReg then
        (if e_layout e = LayoutChunkBased then
           (if e_size e = 0 \<and> e_chunks e = [] then 0 else chunkCount w e * SizeChunkIndex)
         else if e_layout e = LayoutFlatInline then unat (e_size e)
         else 0)
      else if is_dir e then (if e_layout e = LayoutFlatInline then direntDataSize w e else 0)
      else if e_type e = StatTypeSymlink then (if e_layout e = LayoutFlatInline then length (e_symTarget e) else 0)
      else 0)"

definition chunkIndexPad :: "erofsEntry \<Rightarrow> nat" where
  "chunkIndexPad e =
     (if e_layout e \<noteq> LayoutChunkBased \<or> e_trailingSize e = 0 then 0
      else
        let r = (inodeCoreSize e + e_xattrSize e) mod SizeChunkIndex in
        if r \<noteq> 0 then SizeChunkIndex - r else 0)"

text \<open>\<open>e.compact\<close>: whether the 32-byte inode can hold the entry.\<close>

definition fitsCompact :: "erofsWriter \<Rightarrow> erofsEntry \<Rightarrow> bool" where
  "fitsCompact w e \<longleftrightarrow>
     e_uid e \<le> 0xFFFF \<and> e_gid e \<le> 0xFFFF \<and> e_nlink e \<le> 0xFFFF \<and> inodeFileSize w e \<le> 0xFFFFFFFF \<and>
     e_mtime e = w_buildTime w \<and> e_mtimeNs e = w_buildTimeNs w"

text \<open>The switch that decides the layout, for an entry whose inode and attributes take \<open>headerSize\<close>
  bytes from offset \<open>off\<close> of the metadata area.\<close>

definition chooseLayout :: "erofsWriter \<Rightarrow> nat \<Rightarrow> nat \<Rightarrow> erofsEntry \<Rightarrow> erofsEntry" where
  "chooseLayout w off headerSize e =
     (let bsz = w_blockSize w; inBlockOff = (off + headerSize) mod bsz in
      if e_type e = StatTypeReg then
        (if e_size e = 0 \<and> e_chunks e = [] \<and> e_data e = None \<and> \<not> e_metadataOnly e
         then e\<lparr>e_layout := LayoutFlatPlain\<rparr>
         else if e_chunks e \<noteq> [] \<or> e_metadataOnly e then
           (let e = e\<lparr>e_layout := LayoutChunkBased\<rparr> in
            if e_contiguous e then e\<lparr>e_chunkBits := minChunkBits w (e_size e)\<rparr> else e)
         else
           (let avail = int bsz - int headerSize in
            if \<not> w_noInlineData w \<and> avail \<ge> 0 \<and> uint (e_size e) \<le> avail then
              e\<lparr>e_layout := (if inBlockOff + unat (e_size e) \<le> bsz then LayoutFlatInline else LayoutFlatPlain)\<rparr>
            else e\<lparr>e_layout := LayoutFlatPlain\<rparr>))
      else if is_dir e then
        (let n = direntDataSize w e; e = e\<lparr>e_direntSize := n\<rparr> in
         e\<lparr>e_layout := (if n > 0 \<and> inBlockOff + n \<le> bsz then LayoutFlatInline else LayoutFlatPlain)\<rparr>)
      else if e_type e = StatTypeSymlink then
        e\<lparr>e_layout := (if e_symTarget e \<noteq> [] \<and> inBlockOff + length (e_symTarget e) \<le> bsz
                       then LayoutFlatInline else LayoutFlatPlain)\<rparr>
      else e\<lparr>e_layout := LayoutFlatPlain\<rparr>)"

text \<open>The sizes behind the inode, once the layout is decided.\<close>

definition setTrailing :: "erofsWriter \<Rightarrow> erofsEntry \<Rightarrow> erofsEntry" where
  "setTrailing w e =
     (let e = e\<lparr>e_trailingSize := calcTrailingSize w e\<rparr> in e\<lparr>e_chunkPad := chunkIndexPad e\<rparr>)"

text \<open>The length of an entry in the metadata area.\<close>

definition inodeSlotSize :: "erofsEntry \<Rightarrow> nat" where
  "inodeSlotSize e = inodeSlotAlign (inodeCoreSize e + e_xattrSize e + e_chunkPad e + e_trailingSize e)"

text \<open>The body of the loop: the entry at offset \<open>off\<close>, and the offset of the next one.\<close>

definition planEntry :: "erofsWriter \<Rightarrow> nat \<Rightarrow> erofsEntry \<Rightarrow> nat \<times> erofsEntry" where
  "planEntry w off e =
     (let bsz = w_blockSize w;
          e = e\<lparr>e_nid := of_nat (off div 32), e_xattrSize := calcXattrSize (e_xattrs e)\<rparr>;
          e = e\<lparr>e_compact := fitsCompact w e\<rparr>;
          inodeSize = inodeCoreSize e;
          headerSize = inodeSize + e_xattrSize e;
          e = setTrailing w (chooseLayout w off headerSize e);
          (off, e) =
            (if off mod bsz + inodeSize > bsz
             then let off = (off + bsz - 1) div bsz * bsz in (off, e\<lparr>e_nid := of_nat (off div 32)\<rparr>)
             else (off, e));
          e = (if e_layout e = LayoutFlatInline \<and> off mod bsz + headerSize + e_trailingSize e > bsz
               then setTrailing w (e\<lparr>e_layout := LayoutFlatPlain\<rparr>)
               else e)
      in (off + inodeSlotSize e, e))"

fun planEntries :: "erofsWriter \<Rightarrow> nat \<Rightarrow> addr list \<Rightarrow> erofsWriter" where
  "planEntries w off [] = w"
| "planEntries w off (a # as) =
     (case planEntry w off (w_store w a) of
        (off', e) \<Rightarrow> planEntries (w\<lparr>w_store := (w_store w)(a := e)\<rparr>) off' as)"

section \<open>The walk\<close>

text \<open>\<open>walk\<close> over a list of siblings: the store with the children of every directory sorted, the
  entries in pre-order and the aliases apart. The names of a directory differ, so that every
  sorting gives the same list.\<close>

partial_function (option) walkEntries :: "store \<Rightarrow> addr list \<Rightarrow> (store \<times> addr list \<times> addr list) option" where
  "walkEntries st as =
     (case as of
        [] \<Rightarrow> Some (st, [], [])
      | a # as' \<Rightarrow>
          if e_aliasOf (st a) \<noteq> None then
            Option.bind (walkEntries st as') (\<lambda>(st, ents, als). Some (st, ents, a # als))
          else if is_dir (st a) then
            (let cs = sort_key (\<lambda>c. e_name (st c)) (e_children (st a)) in
             Option.bind (walkEntries (st(a := (st a)\<lparr>e_children := cs\<rparr>)) cs) (\<lambda>(st, ents, als).
             Option.bind (walkEntries st as') (\<lambda>(st, ents', als').
             Some (st, a # ents @ ents', als @ als'))))
          else
            Option.bind (walkEntries st as') (\<lambda>(st, ents, als). Some (st, a # ents, als)))"

definition fixAlias :: "store \<Rightarrow> addr \<Rightarrow> store" where
  "fixAlias st a =
     (let t = st (the (e_aliasOf (st a))) in
      st(a := (st a)\<lparr>e_nid := e_nid t, e_erofsFileType := e_erofsFileType t\<rparr>))"

definition planLayout :: "erofsWriter \<Rightarrow> addr \<Rightarrow> erofsWriter option" where
  "planLayout w root =
     map_option (\<lambda>(st, ents, als).
       let w = planEntries (w\<lparr>w_store := st, w_entries := ents, w_totalInodes := of_nat (length ents)\<rparr>) 0 ents;
           w = w\<lparr>w_store := foldl fixAlias (w_store w) als\<rparr>
       in w\<lparr>w_rootNid := e_nid (w_store w root)\<rparr>)
     (walkEntries (w_store w) [root])"

end
