(* ===== verification/Writer.thy ===== *)
theory Writer
  imports Layout Data_Map
begin

text \<open>
  Serialization, \<open>writer.go\<close>: the limits checked before anything is written, the addresses of data
  blocks, and the bytes of every part of the image, put together by \<open>writeSeekable\<close> in the order
  it writes them. The output is the file as it stands: a write to it succeeds, and the errors are
  those the writer itself raises and those of the sources content is copied from. The metadata
  buffer holds what is written to it; its capacity is a hint and is not modelled. \<open>Panic\<close> is a slice
  out of range of the block of zeros the padding is taken from.
\<close>

section \<open>Sizes of the parts\<close>

definition sbAreaSize :: "erofsWriter \<Rightarrow> nat" where
  "sbAreaSize w =
     (let n = SuperBlockOffset + SizeSuperBlock;
          n = (if w_devices w \<noteq> [] then n + length (w_devices w) * SizeDeviceSlot else n)
      in (n + w_blockSize w - 1) div w_blockSize w * w_blockSize w)"

definition sbAreaBlocks :: "erofsWriter \<Rightarrow> nat" where
  "sbAreaBlocks w = sbAreaSize w div w_blockSize w"

text \<open>\<open>int(e.nid) * 32\<close>: the nid was made from an offset, an \<open>int\<close>, divided by 32, so the product does not
  wrap.\<close>

definition expectedOff :: "erofsEntry \<Rightarrow> nat" where
  "expectedOff e = unat (e_nid e) * 32"

fun metadataBytes_from :: "store \<Rightarrow> nat \<Rightarrow> addr list \<Rightarrow> nat" where
  "metadataBytes_from st curOff [] = curOff"
| "metadataBytes_from st curOff (a # as) =
     (let e = st a;
          curOff = (if curOff < expectedOff e then expectedOff e else curOff);
          sz = inodeCoreSize e + e_xattrSize e + e_chunkPad e + e_trailingSize e;
          sz = (if sz mod 32 \<noteq> 0 then sz + (32 - sz mod 32) else sz)
      in metadataBytes_from st (curOff + sz) as)"

definition metadataBytes :: "erofsWriter \<Rightarrow> nat" where
  "metadataBytes w = metadataBytes_from (w_store w) 0 (w_entries w)"

definition flatPlainDataSize :: "erofsWriter \<Rightarrow> erofsEntry \<Rightarrow> int" where
  "flatPlainDataSize w e =
     (if e_layout e \<noteq> LayoutFlatPlain then 0
      else if e_type e = StatTypeReg then
        (if e_size e > 0 \<and> e_data e \<noteq> None then i64 (uint (e_size e)) else 0)
      else if is_dir e then int (direntDataSize w e)
      else if e_type e = StatTypeSymlink then int (length (e_symTarget e))
      else 0)"

section \<open>Limits\<close>

fun checkChunks :: "chunk list \<Rightarrow> unit result" where
  "checkChunks [] = Inr ()"
| "checkChunks (c # cs) =
     (if ck_PhysicalBlock c = NullPhysicalBlock then checkChunks cs
      else if ck_PhysicalBlock c + ucast (ck_Count c) > 0xFFFFFFFF then Inl ErrNotImplemented
      else checkChunks cs)"

fun checkXattrs :: "xattr_map \<Rightarrow> unit result" where
  "checkXattrs [] = Inr ()"
| "checkXattrs ((name, value) # m) = bindE (validateXattr name value) (\<lambda>_. checkXattrs m)"

definition checkEntry :: "erofsWriter \<Rightarrow> erofsEntry \<Rightarrow> unit result" where
  "checkEntry w e =
     (if e_type e = StatTypeSymlink \<and> e_symTarget e = [] then Inl ErrInvalid
      else if e_layout e = LayoutChunkBased \<and> chunkCount w e > maxChunkIndexEntries then Inl ErrInvalid
      else
        bindE (checkChunks (e_chunks e)) (\<lambda>_.
        bindE (checkXattrs (e_xattrs e)) (\<lambda>_.
        if e_xattrSize e > 0 \<and> xattrICount (e_xattrSize e) > maxXattrICount then Inl ErrInvalid
        else Inr ())))"

fun checkEntries :: "erofsWriter \<Rightarrow> addr list \<Rightarrow> unit result" where
  "checkEntries w [] = Inr ()"
| "checkEntries w (a # as) = bindE (checkEntry w (w_store w a)) (\<lambda>_. checkEntries w as)"

text \<open>The blocks an entry's data takes, counted in \<open>int64\<close>.\<close>

definition dataBlocksOf :: "erofsWriter \<Rightarrow> erofsEntry \<Rightarrow> int" where
  "dataBlocksOf w e =
     (let ds = flatPlainDataSize w e; bsz = int (w_blockSize w);
          n = go_div ds bsz;
          n = (if go_rem ds bsz \<noteq> 0 then n + 1 else n)
      in if e_tail e \<noteq> [] then n + 1 else n)"

fun checkBlocks :: "erofsWriter \<Rightarrow> int \<Rightarrow> addr list \<Rightarrow> unit result" where
  "checkBlocks w blocks [] = Inr ()"
| "checkBlocks w blocks (a # as) =
     (let blocks = blocks + dataBlocksOf w (w_store w a) in
      if blocks > 0xFFFFFFFF then Inl ErrInvalid else checkBlocks w blocks as)"

definition checkLimits :: "erofsWriter \<Rightarrow> unit result" where
  "checkLimits w =
     bindE (checkEntries w (w_entries w)) (\<lambda>_.
       checkBlocks w (int (sbAreaBlocks w + (metadataBytes w + w_blockSize w - 1) div w_blockSize w)) (w_entries w))"

section \<open>Block addresses\<close>

text \<open>\<open>(ds + w.blockSize - 1) / w.blockSize\<close> of a positive size.\<close>

definition blocksFor :: "erofsWriter \<Rightarrow> int \<Rightarrow> int" where
  "blocksFor w ds = (ds + int (w_blockSize w) - 1) div int (w_blockSize w)"

definition assignFlatPlain :: "erofsWriter \<Rightarrow> u32 \<Rightarrow> erofsEntry \<Rightarrow> u32 \<times> erofsEntry" where
  "assignFlatPlain w addr e =
     (let ds = flatPlainDataSize w e;
          (addr, e) = (if ds > 0 then (addr + word_of_int (blocksFor w ds), e\<lparr>e_dataBlkAddr := addr\<rparr>) else (addr, e))
      in if e_tail e \<noteq> [] then
           (addr + 1, e\<lparr>e_tailBlkAddr := addr,
              e_chunks := e_chunks e @ [\<lparr> ck_PhysicalBlock = ucast addr, ck_Count = 1, ck_DeviceID = 0 \<rparr>]\<rparr>)
         else (addr, e))"

fun assignFlatPlainAddrs :: "erofsWriter \<Rightarrow> u32 \<Rightarrow> addr list \<Rightarrow> erofsWriter \<times> u32" where
  "assignFlatPlainAddrs w addr [] = (w, addr)"
| "assignFlatPlainAddrs w addr (a # as) =
     (case assignFlatPlain w addr (w_store w a) of
        (addr, e) \<Rightarrow> assignFlatPlainAddrs (w\<lparr>w_store := (w_store w)(a := e)\<rparr>) addr as)"

fun metaEnd :: "store \<Rightarrow> nat \<Rightarrow> addr list \<Rightarrow> nat" where
  "metaEnd st acc [] = acc"
| "metaEnd st acc (a # as) =
     (let e = expectedOff (st a) + inodeSlotSize (st a) in metaEnd st (if e > acc then e else acc) as)"

definition assignDataBlocks :: "erofsWriter \<Rightarrow> erofsWriter" where
  "assignDataBlocks w =
     (let sbBlks = sbAreaBlocks w in
      if w_metaBlkAddr w = of_nat sbBlks then
        (let metaBlocks = (metaEnd (w_store w) 0 (w_entries w) + w_blockSize w - 1) div w_blockSize w in
         fst (assignFlatPlainAddrs w (of_nat (sbBlks + metaBlocks)) (w_entries w)))
      else
        (case assignFlatPlainAddrs w (of_nat sbBlks) (w_entries w) of
           (w, addr) \<Rightarrow> w\<lparr>w_metaBlkAddr := addr\<rparr>))"

section \<open>Parts of the image\<close>

text \<open>A prefix of the block of zeros.\<close>

definition zeros :: "erofsWriter \<Rightarrow> nat \<Rightarrow> bytes result" where
  "zeros w n = slice (replicate (w_blockSize w) 0) 0 n"

text \<open>\<open>io.Copy\<close> from an \<open>io.LimitReader\<close> of \<open>n\<close> bytes.\<close>

definition copyLimited :: "source \<Rightarrow> int \<Rightarrow> bytes \<times> err option" where
  "copyLimited s n =
     (take (nat n) (src_bytes s), if length (src_bytes s) < nat n then src_err s else None)"

subsection \<open>Inodes\<close>

definition inodeDataOf :: "erofsWriter \<Rightarrow> erofsEntry \<Rightarrow> u32" where
  "inodeDataOf w e =
     (let t = e_type e in
      if t = StatTypeReg then
        (if e_layout e = LayoutChunkBased then LayoutChunkFormatIndexes OR ucast (entryChunkBits w e)
         else if e_layout e = LayoutFlatPlain \<and> e_size e > 0 then e_dataBlkAddr e
         else 0)
      else if t = StatTypeDir \<or> t = StatTypeSymlink then
        (if e_layout e = LayoutFlatPlain then e_dataBlkAddr e else 0)
      else if t = StatTypeChrdev \<or> t = StatTypeBlkdev \<or> t = StatTypeFifo \<or> t = StatTypeSock then e_rdev e
      else 0)"

definition writeInode :: "erofsWriter \<Rightarrow> erofsEntry \<Rightarrow> bytes" where
  "writeInode w e =
     (let inodeData = inodeDataOf w e; fileSize = inodeFileSize w e in
      if e_compact e then
        put_all
          [(0, put16 (inodeFormat (e_layout e) True)),
           (2, put16 (xattrCount (e_xattrSize e))),
           (4, put16 (e_mode e)),
           (6, put16 (ucast (e_nlink e))),
           (8, put32 (ucast fileSize)),
           (16, put32 inodeData),
           (24, put16 (ucast (e_uid e))),
           (26, put16 (ucast (e_gid e)))]
          (replicate SizeInodeCompact 0)
      else
        put_all
          [(0, put16 (inodeFormat (e_layout e) False)),
           (2, put16 (xattrCount (e_xattrSize e))),
           (4, put16 (e_mode e)),
           (8, put64 fileSize),
           (16, put32 inodeData),
           (24, put32 (e_uid e)),
           (28, put32 (e_gid e)),
           (32, put64 (e_mtime e)),
           (40, put32 (e_mtimeNs e)),
           (44, put32 (e_nlink e))]
          (replicate SizeInodeExtended 0))"

subsection \<open>Extended attributes\<close>

definition writeXattr :: "bytes \<Rightarrow> bytes \<Rightarrow> bytes" where
  "writeXattr name value =
     (let (nameIndex, sfx) = xattrSplit name;
          entryLen = SizeXattrEntry + length sfx + length value
      in [of_nat (length sfx), nameIndex] @ put16 (of_nat (length value)) @ sfx @ value @
         (if entryLen mod 4 \<noteq> 0 then replicate (4 - entryLen mod 4) 0 else []))"

definition writeXattrs :: "erofsEntry \<Rightarrow> bytes" where
  "writeXattrs e =
     put32 0xFFFFFFFF @ replicate 8 0 @
     concat (map (\<lambda>name. writeXattr name (the (map_of (e_xattrs e) name))) (sortedXattrKeys (e_xattrs e)))"

subsection \<open>Chunk indexes\<close>

definition nullIdx :: bytes where
  "nullIdx = put16 0xFFFF @ put16 0 @ put32 0xFFFFFFFF"

text \<open>\<open>for ci < len(e.chunks) && coff >= int(e.chunks[ci].Count)\<close>, over the chunks that are left.\<close>

fun skipChunks :: "int \<Rightarrow> chunk list \<Rightarrow> int \<times> chunk list" where
  "skipChunks coff [] = (coff, [])"
| "skipChunks coff (c # cs) =
     (if coff \<ge> int (unat (ck_Count c)) then skipChunks (coff - int (unat (ck_Count c))) cs else (coff, c # cs))"

fun chunkIndexes :: "int \<Rightarrow> nat \<Rightarrow> int \<Rightarrow> chunk list \<Rightarrow> bytes" where
  "chunkIndexes blocksPerChunk 0 coff cs = []"
| "chunkIndexes blocksPerChunk (Suc n) coff cs =
     (case cs of
        [] \<Rightarrow> nullIdx @ chunkIndexes blocksPerChunk n coff []
      | c # _ \<Rightarrow>
          (if ck_PhysicalBlock c = NullPhysicalBlock then nullIdx
           else put16 0 @ put16 (ck_DeviceID c) @ put32 (ucast (ck_PhysicalBlock c + word_of_int coff))) @
          (case skipChunks (coff + blocksPerChunk) cs of
             (coff', cs') \<Rightarrow> chunkIndexes blocksPerChunk n coff' cs'))"

definition writeChunkIndexes :: "erofsWriter \<Rightarrow> erofsEntry \<Rightarrow> bytes" where
  "writeChunkIndexes w e =
     (let blocksPerChunk = go_div (entryChunkSize w e) (int (w_blockSize w)); nchunks = chunkCount w e in
      if e_chunks e \<noteq> [] then chunkIndexes blocksPerChunk nchunks 0 (e_chunks e)
      else concat (replicate nchunks nullIdx))"

subsection \<open>Directory entries\<close>

record direntInfo =
  di_name :: bytes
  di_nid :: u64
  di_fileType :: byte

definition direntInfos :: "store \<Rightarrow> erofsEntry \<Rightarrow> direntInfo list" where
  "direntInfos st e =
     sort_key di_name
       (\<lparr> di_name = [46], di_nid = e_nid e, di_fileType = FileTypeDir \<rparr> #
        \<lparr> di_name = [46, 46], di_nid = e_parentNid e, di_fileType = FileTypeDir \<rparr> #
        map (\<lambda>c. \<lparr> di_name = e_name (st c), di_nid = e_nid (st c), di_fileType = e_erofsFileType (st c) \<rparr>)
          (e_children e))"

text \<open>The entries of a block written into its zeroed buffer: the \<open>j\<close>-th header and its name.\<close>

fun putDirents :: "nat \<Rightarrow> nat \<Rightarrow> direntInfo list \<Rightarrow> bytes \<Rightarrow> bytes" where
  "putDirents j nameOff [] blk = blk"
| "putDirents j nameOff (d # ds) blk =
     (let off = j * SizeDirent;
          blk = put_at off (put64 (di_nid d) @ put16 (of_nat nameOff) @ [di_fileType d, 0]) blk;
          name = take (length blk - nameOff) (di_name d)
      in putDirents (j + 1) (nameOff + length name) ds (put_at nameOff name blk))"

function writeDirentBlocks :: "erofsWriter \<Rightarrow> direntInfo list \<Rightarrow> bytes result" where
  "writeDirentBlocks w ents =
     (if ents = [] then Inr []
      else
        let (k, used) = direntBlock (w_blockSize w) (map di_name ents);
            blk = putDirents 0 (length (take k ents) * SizeDirent) (take k ents) (replicate used 0)
        in bindE (if k < length ents \<and> used mod w_blockSize w \<noteq> 0
                  then zeros w (w_blockSize w - used mod w_blockSize w) else Inr []) (\<lambda>pad.
           bindE (writeDirentBlocks w (drop k ents)) (\<lambda>more. Inr (blk @ pad @ more))))"
  by auto
termination
  by (relation "measure (\<lambda>(w, ents). length ents)")
    (auto simp: direntBlock_def split: prod.splits if_splits)

declare writeDirentBlocks.simps [simp del]

definition writeDirents :: "erofsWriter \<Rightarrow> erofsEntry \<Rightarrow> bytes result" where
  "writeDirents w e = writeDirentBlocks w (direntInfos (w_store w) e)"

subsection \<open>Data blocks\<close>

definition writeTailBlock :: "erofsWriter \<Rightarrow> erofsEntry \<Rightarrow> bytes result" where
  "writeTailBlock w e =
     (if e_tail e = [] then Inr []
      else
        let pad = w_blockSize w - length (e_tail e) mod w_blockSize w in
        if pad < w_blockSize w then bindE (zeros w pad) (\<lambda>z. Inr (e_tail e @ z)) else Inr (e_tail e))"

text \<open>The content of a flat-plain entry: what reached the output, and the error if it stopped.\<close>

definition plainContent :: "erofsWriter \<Rightarrow> erofsEntry \<Rightarrow> bytes \<times> err option" where
  "plainContent w e =
     (if e_type e = StatTypeReg then
        (case copyLimited (the (e_data e)) (flatPlainDataSize w e) of
           (b, Some err) \<Rightarrow> (b, Some err)
         | (b, None) \<Rightarrow>
             (b, if int (length b) \<noteq> flatPlainDataSize w e then Some ErrUnexpectedEOF else None))
      else if is_dir e then
        (case writeDirents w e of Inl err \<Rightarrow> ([], Some err) | Inr b \<Rightarrow> (b, None))
      else if e_type e = StatTypeSymlink then (e_symTarget e, None)
      else ([], None))"

definition writeEntryData :: "erofsWriter \<Rightarrow> erofsEntry \<Rightarrow> bytes \<times> err option" where
  "writeEntryData w e =
     (if flatPlainDataSize w e = 0 then
        (case writeTailBlock w e of Inl err \<Rightarrow> ([], Some err) | Inr t \<Rightarrow> (t, None))
      else
        (case plainContent w e of
           (b, Some err) \<Rightarrow> (b, Some err)
         | (b, None) \<Rightarrow>
             (case bindE (if length b mod w_blockSize w \<noteq> 0
                          then zeros w (w_blockSize w - length b mod w_blockSize w) else Inr []) (\<lambda>pad.
                   bindE (writeTailBlock w e) (\<lambda>t. Inr (b @ pad @ t))) of
                Inl err \<Rightarrow> (b, Some err)
              | Inr c \<Rightarrow> (c, None))))"

fun writeDataBlocks :: "erofsWriter \<Rightarrow> addr list \<Rightarrow> bytes \<times> err option" where
  "writeDataBlocks w [] = ([], None)"
| "writeDataBlocks w (a # as) =
     (case writeEntryData w (w_store w a) of
        (b, Some err) \<Rightarrow> (b, Some err)
      | (b, None) \<Rightarrow> (case writeDataBlocks w as of (c, err) \<Rightarrow> (b @ c, err)))"

subsection \<open>The metadata area\<close>

text \<open>The switch over the trailing data: the bytes written and what \<open>metaStart\<close> grows by.\<close>

definition trailingData :: "erofsWriter \<Rightarrow> erofsEntry \<Rightarrow> (bytes \<times> nat) result" where
  "trailingData w e =
     (if e_type e = StatTypeReg then
        (if e_layout e = LayoutChunkBased \<and> (e_size e > 0 \<or> e_chunks e \<noteq> []) then
           bindE (if e_chunkPad e > 0 then zeros w (e_chunkPad e) else Inr []) (\<lambda>pad.
           Inr (pad @ writeChunkIndexes w e, length pad + e_trailingSize e))
         else if e_layout e = LayoutFlatInline \<and> e_size e > 0 \<and> e_data e \<noteq> None then
           (case copyLimited (the (e_data e)) (i64 (uint (e_size e))) of
              (b, Some err) \<Rightarrow> Inl err
            | (b, None) \<Rightarrow>
                if int (length b) \<noteq> i64 (uint (e_size e)) then Inl ErrUnexpectedEOF else Inr (b, length b))
         else Inr ([], 0))
      else if is_dir e then
        (if e_layout e = LayoutFlatInline
         then bindE (writeDirents w e) (\<lambda>b. Inr (b, length b)) else Inr ([], 0))
      else if e_type e = StatTypeSymlink then
        (if e_layout e = LayoutFlatInline then Inr (e_symTarget e, length (e_symTarget e)) else Inr ([], 0))
      else Inr ([], 0))"

definition writeMetadataInode :: "erofsWriter \<Rightarrow> nat \<Rightarrow> erofsEntry \<Rightarrow> (bytes \<times> nat) result" where
  "writeMetadataInode w metaStart e =
     (if expectedOff e < metaStart then Inl ErrMetaOverrun
      else
        bindE (if expectedOff e > metaStart then zeros w (expectedOff e - metaStart) else Inr []) (\<lambda>gap.
        let x = (if e_xattrSize e > 0 then writeXattrs e else []);
            metaStart = expectedOff e + inodeCoreSize e + (if e_xattrSize e > 0 then e_xattrSize e else 0)
        in bindE (trailingData w e) (\<lambda>(t, n).
           let metaStart = metaStart + n;
               totalWritten = inodeCoreSize e + e_xattrSize e + e_chunkPad e + e_trailingSize e
           in if totalWritten mod 32 \<noteq> 0 then
                bindE (zeros w (32 - totalWritten mod 32)) (\<lambda>pad.
                Inr (gap @ writeInode w e @ x @ t @ pad, metaStart + (32 - totalWritten mod 32)))
              else Inr (gap @ writeInode w e @ x @ t, metaStart))))"

fun writeMetadataInodes_from :: "erofsWriter \<Rightarrow> nat \<Rightarrow> addr list \<Rightarrow> (bytes \<times> nat) result" where
  "writeMetadataInodes_from w metaStart [] = Inr ([], metaStart)"
| "writeMetadataInodes_from w metaStart (a # as) =
     bindE (writeMetadataInode w metaStart (w_store w a)) (\<lambda>(b, metaStart).
     bindE (writeMetadataInodes_from w metaStart as) (\<lambda>(c, metaStart).
     Inr (b @ c, metaStart)))"

definition writeMetadataInodes :: "erofsWriter \<Rightarrow> bytes result" where
  "writeMetadataInodes w =
     bindE (writeMetadataInodes_from w 0 (w_entries w)) (\<lambda>(b, metaStart).
       if metaStart mod w_blockSize w \<noteq> 0 then
         bindE (zeros w (w_blockSize w - metaStart mod w_blockSize w)) (\<lambda>pad. Inr (b @ pad))
       else Inr b)"

subsection \<open>The superblock area\<close>

text \<open>\<open>bits.TrailingZeros\<close> of the block size.\<close>

function blkBits :: "nat \<Rightarrow> nat" where
  "blkBits n = (if n = 0 then 64 else if odd n then 0 else 1 + blkBits (n div 2))"
  by auto
termination by (relation "measure id") auto

declare blkBits.simps [simp del]

definition dataBlocks :: "erofsWriter \<Rightarrow> int" where
  "dataBlocks w =
     sum_list (map (\<lambda>a. let ds = flatPlainDataSize w (w_store w a) in
       (if ds > 0 then blocksFor w ds else 0) + (if e_tail (w_store w a) \<noteq> [] then 1 else 0)) (w_entries w))"

definition superBlockOf :: "erofsWriter \<Rightarrow> SuperBlock" where
  "superBlockOf w =
     (let metaBlocks = (metadataBytes w + w_blockSize w - 1) div w_blockSize w;
          totalBlocks = int (sbAreaBlocks w + metaBlocks) + dataBlocks w;
          hasDevices = w_devices w \<noteq> [];
          incompat = (if hasDevices then FeatureIncompatDeviceTable else 0);
          incompat = (if \<exists>a \<in> set (w_entries w). e_layout (w_store w a) = LayoutChunkBased
                      then incompat OR FeatureIncompatChunkedFile else incompat)
      in \<lparr> sb_MagicNumber = MagicNumber, sb_Checksum = 0, sb_FeatureCompat = FeatureCompatSBChksum,
           sb_BlkSizeBits = of_nat (blkBits (w_blockSize w)), sb_ExtSlots = 0,
           sb_RootNid = ucast (w_rootNid w), sb_Inos = w_totalInodes w,
           sb_BuildTime = w_buildTime w, sb_BuildTimeNs = w_buildTimeNs w,
           sb_Blocks = word_of_int totalBlocks, sb_MetaBlkAddr = w_metaBlkAddr w, sb_XattrBlkAddr = 0,
           sb_UUID = replicate 16 0, sb_VolumeName = replicate 16 0, sb_FeatureIncompat = incompat,
           sb_ComprAlgs = 0, sb_ExtraDevices = (if hasDevices then of_nat (length (w_devices w)) else 0),
           sb_DevtSlotOff = (if hasDevices then of_nat ((SuperBlockOffset + SizeSuperBlock) div SizeDeviceSlot) else 0),
           sb_DirBlkBits = 0, sb_XattrPrefixCount = 0, sb_XattrPrefixStart = 0, sb_PackedNid = 0,
           sb_XattrFilterRes = 0, sb_IshareXattrPrefixID = 0, sb_Reserved = replicate 22 0 \<rparr>)"

text \<open>\<open>Marshal\<close> into the tail of a buffer.\<close>

definition marshalAt :: "(bytes \<Rightarrow> bytes result) \<Rightarrow> nat \<Rightarrow> bytes \<Rightarrow> bytes result" where
  "marshalAt m off b = bindE (m (drop off b)) (\<lambda>t. Inr (take off b @ t))"

fun writeDeviceSlots :: "nat \<Rightarrow> u64 list \<Rightarrow> bytes \<Rightarrow> bytes result" where
  "writeDeviceSlots i [] b = Inr b"
| "writeDeviceSlots i (blocks # ds) b =
     (if blocks > 0xFFFFFFFF then Inl ErrInvalid
      else
        bindE (marshalAt
            (DeviceSlot_Marshal \<lparr> ds_Tag = replicate 64 0, ds_Blocks = ucast blocks, ds_MappedBlkAddr = 0,
               ds_Reserved = replicate 56 0 \<rparr>)
            (SuperBlockOffset + SizeSuperBlock + i * SizeDeviceSlot) b)
          (\<lambda>b. writeDeviceSlots (i + 1) ds b))"

definition writeBlock0 :: "erofsWriter \<Rightarrow> bytes result" where
  "writeBlock0 w =
     (let s = superBlockOf w; start = SuperBlockOffset + checksumEnd in
      bindE (marshalAt (SuperBlock_Marshal s) SuperBlockOffset (replicate (sbAreaSize w) 0)) (\<lambda>area.
      bindE (writeDeviceSlots 0 (w_devices w) area) (\<lambda>area.
      bindE (slice area start (start + checksumSpan (unat (sb_BlkSizeBits s)))) (\<lambda>span.
      Inr (put_at (SuperBlockOffset + 4) (put32 (superblockChecksum span)) area)))))"

section \<open>Writing\<close>

text \<open>The writer afterwards, the output and the error.\<close>

definition writeSeekable :: "erofsWriter \<Rightarrow> erofsWriter \<times> bytes \<times> err option" where
  "writeSeekable w =
     (let w = assignDataBlocks (w\<lparr>w_metaBlkAddr := 0xFFFFFFFF\<rparr>);
          out = replicate (sbAreaSize w) 0
      in case writeDataBlocks w (w_entries w) of
           (data, Some e) \<Rightarrow> (w, out @ data, Some e)
         | (data, None) \<Rightarrow>
             (case writeMetadataInodes w of
                Inl e \<Rightarrow> (w, out @ data, Some e)
              | Inr md \<Rightarrow>
                  (case writeBlock0 w of
                     Inl e \<Rightarrow> (w, out @ data @ md, Some e)
                   | Inr area \<Rightarrow> (w, put_at 0 area (out @ data @ md), None))))"

definition writeImage :: "erofsWriter \<Rightarrow> erofsWriter \<times> bytes \<times> err option" where
  "writeImage w =
     (case checkLimits w of Inl e \<Rightarrow> (w, [], Some e) | Inr _ \<Rightarrow> writeSeekable w)"

end
