(* ===== verification/Write_Dir.thy ===== *)
theory Write_Dir
  imports Writer Dir "HOL-Library.Multiset"
begin

text \<open>
  Directories as they are written: \<open>writeDirents\<close> packs the sorted entries block by block, and
  \<open>calcDirentDataSize\<close> plans the same bytes. The blocks it writes are blocks the reader of \<open>Dir\<close>
  parses, with the entries that went in, so that a lookup in a written directory finds exactly its
  children.
\<close>

section \<open>How many entries go into a block\<close>

abbreviation name_bytes :: "bytes list \<Rightarrow> nat" where
  "name_bytes names \<equiv> sum_list (map length names)"

lemma fitDirents_spec:
  assumes "fitDirents bsz k ns used names = (k', used')" and "used = k * 12 + ns \<or> k' = k"
  shows "k \<le> k' \<and> k' \<le> k + length names \<and>
    (k' = k \<and> used' = used \<or> used' = k' * 12 + (ns + name_bytes (take (k' - k) names)) \<and> used' \<le> bsz)"
  using assms
proof (induction bsz k ns used names rule: fitDirents.induct)
  case (2 bsz k ns used n names)
  show ?case
  proof (cases "(k + 1) * 12 + (ns + length n) > bsz")
    case False
    then have f: "fitDirents bsz (k + 1) (ns + length n) ((k + 1) * 12 + (ns + length n)) names = (k', used')"
      using 2(2) by (simp add: Let_def)
    have i: "k + 1 \<le> k' \<and> k' \<le> k + 1 + length names \<and>
      (k' = k + 1 \<and> used' = (k + 1) * 12 + (ns + length n) \<or>
       used' = k' * 12 + (ns + length n + name_bytes (take (k' - (k + 1)) names)) \<and> used' \<le> bsz)"
      using 2(1) [OF refl refl False f] by simp
    then have "Suc k \<le> k'" by simp
    then have "k' - k = Suc (k' - (k + 1))" by arith
    with i False show ?thesis by auto
  qed (use 2(2) in \<open>simp add: Let_def\<close>)
qed simp

text \<open>With names that fit, a block takes at least one entry and is not overfull.\<close>

definition names_fit :: "nat \<Rightarrow> bytes list \<Rightarrow> bool" where
  "names_fit bsz names \<longleftrightarrow> (\<forall>n \<in> set names. 12 + length n \<le> bsz)"

lemma direntBlock_spec:
  assumes "direntBlock bsz names = (k, used)" and "names \<noteq> []" and "names_fit bsz names"
  shows "0 < k" and "k \<le> length names" and "used = k * 12 + name_bytes (take k names)" and "used \<le> bsz"
proof -
  obtain n ns where n: "names = n # ns" using assms(2) by (cases names) auto
  obtain k' u where f: "fitDirents bsz 0 0 0 names = (k', u)" by fastforce
  have c: "0 \<le> k' \<and> k' \<le> length names \<and> (k' = 0 \<and> u = 0 \<or> u = k' * 12 + name_bytes (take k' names) \<and> u \<le> bsz)"
    using fitDirents_spec [OF f] by simp
  have "0 < k' \<and> k = k' \<and> used = u \<or> k' = 0 \<and> k = 1 \<and> used = 12 + length n"
    using assms(1) f by (auto simp: direntBlock_def n split: if_splits)
  then have "0 < k \<and> k \<le> length names \<and> used = k * 12 + name_bytes (take k names) \<and> used \<le> bsz"
    using c assms(3) by (auto simp: n names_fit_def)
  then show "0 < k" "k \<le> length names" "used = k * 12 + name_bytes (take k names)" "used \<le> bsz" by auto
qed

lemma names_fit_drop: "names_fit bsz names \<Longrightarrow> names_fit bsz (drop k names)"
  by (auto simp: names_fit_def dest: in_set_dropD)

section \<open>A packed block\<close>

fun headers :: "nat \<Rightarrow> direntInfo list \<Rightarrow> bytes" where
  "headers off [] = []"
| "headers off (d # ds) =
     put64 (di_nid d) @ put16 (of_nat off) @ [di_fileType d, 0] @ headers (off + length (di_name d)) ds"

definition packed :: "direntInfo list \<Rightarrow> bytes" where
  "packed g = headers (length g * 12) g @ concat (map di_name g)"

lemma length_headers [simp]: "length (headers off g) = length g * 12"
  by (induction off g rule: headers.induct) auto

lemma length_packed: "length (packed g) = length g * 12 + name_bytes (map di_name g)"
  by (simp add: packed_def length_concat comp_def)

text \<open>The loop fills the headers from the front and the names from behind them.\<close>

lemma putDirents_eq:
  assumes "length hs = j * 12" and "length zs = length ds * 12" and "off = length hs + length zs + length ns"
    and "length rs = name_bytes (map di_name ds)"
  shows "putDirents j off ds (hs @ zs @ ns @ rs) = hs @ headers off ds @ ns @ concat (map di_name ds)"
  using assms
proof (induction ds arbitrary: j off hs zs ns rs)
  case (Cons d ds)
  let ?h = "put64 (di_nid d) @ put16 (of_nat off) @ [di_fileType d, 0]"
  let ?b = "hs @ zs @ ns @ rs"
  have lh: "length ?h = 12" by simp
  have z: "put_at (j * 12) ?h ?b = (hs @ ?h) @ drop 12 zs @ ns @ rs"
    using Cons.prems by (subst put_at_eq) simp_all
  let ?b' = "(hs @ ?h) @ drop 12 zs @ ns @ rs"
  have t: "take (length ?b' - off) (di_name d) = di_name d" using Cons.prems by simp
  have n: "put_at off (di_name d) ?b' = (hs @ ?h) @ drop 12 zs @ (ns @ di_name d) @ drop (length (di_name d)) rs"
    using Cons.prems by (subst put_at_eq) simp_all
  have "putDirents j off (d # ds) ?b = putDirents (j + 1) (off + length (di_name d)) ds
      ((hs @ ?h) @ drop 12 zs @ (ns @ di_name d) @ drop (length (di_name d)) rs)"
    unfolding putDirents.simps Let_def z t n ..
  also have "\<dots> = (hs @ ?h) @ headers (off + length (di_name d)) ds @ (ns @ di_name d) @ concat (map di_name ds)"
    using Cons.prems by (intro Cons.IH) simp_all
  finally show ?case by simp
qed simp

lemma putDirents_packed:
  assumes "used = length g * 12 + name_bytes (map di_name g)"
  shows "putDirents 0 (length g * 12) g (replicate used 0) = packed g"
  using putDirents_eq [of "[]" 0 "replicate (length g * 12) 0" g "length g * 12" "[]"
      "replicate (name_bytes (map di_name g)) 0"] assms
  by (simp add: packed_def replicate_add)

section \<open>The blocks of a directory\<close>

text \<open>The entries block by block, and the blocks one after another, all but the last padded.\<close>

function groups :: "nat \<Rightarrow> direntInfo list \<Rightarrow> direntInfo list list" where
  "groups bsz ents =
     (if ents = [] then []
      else let k = fst (direntBlock bsz (map di_name ents)) in take k ents # groups bsz (drop k ents))"
  by auto
termination
  by (relation "measure (\<lambda>(bsz, ents). length ents)")
    (auto simp: direntBlock_def split: prod.splits if_splits)

declare groups.simps [simp del]

fun laid :: "nat \<Rightarrow> direntInfo list list \<Rightarrow> bytes" where
  "laid bsz [] = []"
| "laid bsz (g # gs) =
     packed g @ (if gs = [] then [] else replicate (bsz - length (packed g)) 0) @ laid bsz gs"

lemma groups_concat: "concat (groups bsz ents) = ents"
proof (induction bsz ents rule: groups.induct)
  case (1 bsz ents)
  then show ?case by (subst groups.simps) (simp add: Let_def)
qed

definition group_ok :: "nat \<Rightarrow> direntInfo list \<Rightarrow> bool" where
  "group_ok bsz g \<longleftrightarrow> g \<noteq> [] \<and> length (packed g) \<le> bsz"

lemma groups_ok:
  assumes "names_fit bsz (map di_name ents)" and "g \<in> set (groups bsz ents)"
  shows "group_ok bsz g"
  using assms
proof (induction bsz ents rule: groups.induct)
  case (1 bsz ents)
  show ?case
  proof (cases "ents = []")
    case False
    obtain k used where b: "direntBlock bsz (map di_name ents) = (k, used)" by fastforce
    note s = direntBlock_spec [OF b _ 1(2)]
    have "g = take k ents \<or> g \<in> set (groups bsz (drop k ents))"
      using 1(3) False b by (subst (asm) groups.simps) (simp add: Let_def)
    moreover have "group_ok bsz (take k ents)"
      using s False by (simp add: group_ok_def length_packed take_map)
    moreover have "names_fit bsz (map di_name (drop k ents))"
      using names_fit_drop [OF 1(2), of k] by (simp add: drop_map)
    ultimately show ?thesis using 1(1) [OF False] b by (auto simp: Let_def)
  qed (use 1(3) in \<open>simp add: groups.simps\<close>)
qed

lemma writeDirentBlocks_laid:
  assumes "names_fit (w_blockSize w) (map di_name ents)" and "0 < w_blockSize w"
  shows "writeDirentBlocks w ents = Inr (laid (w_blockSize w) (groups (w_blockSize w) ents))"
  using assms
proof (induction w ents rule: writeDirentBlocks.induct)
  case (1 w ents)
  let ?bsz = "w_blockSize w"
  show ?case
  proof (cases "ents = []")
    case True
    then show ?thesis by (simp add: writeDirentBlocks.simps groups.simps)
  next
    case False
    obtain k used where b: "direntBlock ?bsz (map di_name ents) = (k, used)" by fastforce
    have nn: "map di_name ents \<noteq> []" using False by simp
    note s = direntBlock_spec [OF b nn 1(2)]
    have fit: "names_fit ?bsz (map di_name (drop k ents))"
      using names_fit_drop [OF 1(2), of k] by (simp add: drop_map)
    have used: "used = length (take k ents) * 12 + name_bytes (map di_name (take k ents))"
      using s False by (simp add: take_map)
    have l: "length (packed (take k ents)) = used" using used by (simp add: length_packed)
    have blk: "putDirents 0 (length (take k ents) * 12) (take k ents) (replicate used 0) = packed (take k ents)"
      by (rule putDirents_packed [OF used])
    have g: "groups ?bsz ents = take k ents # groups ?bsz (drop k ents)"
      using False b by (subst groups.simps) (simp add: Let_def)
    have gn: "groups ?bsz (drop k ents) = [] \<longleftrightarrow> \<not> k < length ents"
      by (subst groups.simps) (auto simp: Let_def)
    have pad: "(if k < length ents \<and> used mod ?bsz \<noteq> 0 then zeros w (?bsz - used mod ?bsz) else Inr []) =
        Inr (if k < length ents then replicate (?bsz - used) 0 else [])"
    proof (cases "k < length ents \<and> used < ?bsz")
      case True
      then show ?thesis using s(1,3) by (simp add: zeros_def window_def)
    next
      case False
      then have "\<not> k < length ents \<or> used = ?bsz" using s(4) by linarith
      then show ?thesis by auto
    qed
    have r: "writeDirentBlocks w (drop k ents) = Inr (laid ?bsz (groups ?bsz (drop k ents)))"
      using 1(1) [OF False b [symmetric] refl refl _ fit 1(3)] pad by simp
    have "writeDirentBlocks w ents =
        Inr (packed (take k ents) @ (if k < length ents then replicate (?bsz - used) 0 else []) @
          laid ?bsz (groups ?bsz (drop k ents)))"
      unfolding writeDirentBlocks.simps [of w ents] if_not_P [OF False] b Let_def prod.case blk pad bindE_simps r ..
    then show ?thesis by (simp add: g gn l)
  qed
qed

section \<open>The size planned is the size written\<close>

lemma round_block:
  fixes used bsz :: nat
  assumes "0 < used" "used \<le> bsz"
  shows "(if used mod bsz \<noteq> 0 then (used + bsz - 1) div bsz * bsz else used) = bsz"
proof (cases "used = bsz")
  case False
  with assms have "used < bsz" by simp
  moreover have "(used + bsz - 1) div bsz = 1"
    using assms \<open>used < bsz\<close> by (intro div_nat_eqI) auto
  ultimately show ?thesis using assms by simp
qed simp

lemma calcDirentBlocks_laid:
  assumes "names_fit bsz (map di_name ents)" and "0 < bsz"
  shows "calcDirentBlocks bsz (map di_name ents) = length (laid bsz (groups bsz ents))"
  using assms
proof (induction bsz ents rule: groups.induct)
  case (1 bsz ents)
  show ?case
  proof (cases "ents = []")
    case True
    then show ?thesis by (simp add: calcDirentBlocks.simps groups.simps)
  next
    case False
    obtain k used where b: "direntBlock bsz (map di_name ents) = (k, used)" by fastforce
    have nn: "map di_name ents \<noteq> []" using False by simp
    note s = direntBlock_spec [OF b nn 1(2)]
    have fit: "names_fit bsz (map di_name (drop k ents))"
      using names_fit_drop [OF 1(2), of k] by (simp add: drop_map)
    have i: "calcDirentBlocks bsz (drop k (map di_name ents)) = length (laid bsz (groups bsz (drop k ents)))"
      using 1(1) [OF False refl] b fit 1(3) by (simp add: drop_map)
    have l: "length (packed (take k ents)) = used" using s by (simp add: length_packed take_map)
    have g: "groups bsz ents = take k ents # groups bsz (drop k ents)"
      using False b by (subst groups.simps) (simp add: Let_def)
    have gn: "groups bsz (drop k ents) = [] \<longleftrightarrow> \<not> k < length ents"
      by (subst groups.simps) (auto simp: Let_def)
    have "0 < used" using s(1,3) by simp
    note r = round_block [OF this s(4)]
    have "calcDirentBlocks bsz (map di_name ents) =
      (if k < length ents \<and> used mod bsz \<noteq> 0 then (used + bsz - 1) div bsz * bsz else used) +
        length (laid bsz (groups bsz (drop k ents)))"
      unfolding calcDirentBlocks.simps [of bsz "map di_name ents"] if_not_P [OF nn] b Let_def prod.case i length_map ..
    also have "(if k < length ents \<and> used mod bsz \<noteq> 0 then (used + bsz - 1) div bsz * bsz else used) =
        (if k < length ents then bsz else used)"
      using r by (cases "k < length ents") auto
    finally show ?thesis using s(4) by (simp add: g gn l)
  qed
qed

lemma map_sort_key: "map f (sort_key f xs) = sort (map f xs)"
proof (rule properties_for_sort [symmetric])
  show "mset (map f (sort_key f xs)) = mset (map f xs)" by simp
  show "sorted (map f (sort_key f xs))" by simp
qed

lemma direntInfos_names: "map di_name (direntInfos st e) = direntNames st e"
  unfolding direntInfos_def direntNames_def map_sort_key by (simp add: comp_def)

definition child_names :: "store \<Rightarrow> erofsEntry \<Rightarrow> bytes list" where
  "child_names st e = map (\<lambda>c. e_name (st c)) (e_children e)"

text \<open>What the writer relies on: names short enough for a block.\<close>

definition dir_fits :: "erofsWriter \<Rightarrow> erofsEntry \<Rightarrow> bool" where
  "dir_fits w e \<longleftrightarrow> 512 \<le> w_blockSize w \<and> names_fit (w_blockSize w) (child_names (w_store w) e)"

lemma dir_fits_names:
  "dir_fits w e \<Longrightarrow> names_fit (w_blockSize w) (map di_name (direntInfos (w_store w) e))"
  unfolding direntInfos_names direntNames_def names_fit_def set_sort dir_fits_def child_names_def by auto

lemma writeDirents_laid:
  assumes "dir_fits w e"
  shows "writeDirents w e = Inr (laid (w_blockSize w) (groups (w_blockSize w) (direntInfos (w_store w) e)))"
  unfolding writeDirents_def
  by (rule writeDirentBlocks_laid [OF dir_fits_names [OF assms]]) (use assms in \<open>simp add: dir_fits_def\<close>)

lemma empty_dir_size:
  assumes "512 \<le> bsz"
  shows "calcDirentBlocks bsz [[46], [46, 46]] = 27"
proof -
  have "direntBlock bsz [[46], [46, 46]] = (2, 27)" using assms by (simp add: direntBlock_def Let_def)
  then show ?thesis by (subst calcDirentBlocks.simps) (simp add: calcDirentBlocks.simps)
qed

lemma calcDirentDataSize_length:
  assumes "dir_fits w e"
  shows "calcDirentDataSize w e = length (laid (w_blockSize w) (groups (w_blockSize w) (direntInfos (w_store w) e)))"
proof -
  have "calcDirentDataSize w e = calcDirentBlocks (w_blockSize w) (direntNames (w_store w) e)"
  proof (cases "e_children e = []")
    case True
    then have "direntNames (w_store w) e = [[46], [46, 46]]" by (simp add: direntNames_def)
    with True empty_dir_size [of "w_blockSize w"] assms show ?thesis
      by (simp add: calcDirentDataSize_def dir_fits_def)
  qed (simp add: calcDirentDataSize_def)
  also have "\<dots> = length (laid (w_blockSize w) (groups (w_blockSize w) (direntInfos (w_store w) e)))"
    unfolding direntInfos_names [symmetric]
    by (rule calcDirentBlocks_laid [OF dir_fits_names [OF assms]]) (use assms in \<open>simp add: dir_fits_def\<close>)
  finally show ?thesis .
qed

lemma writeDirents_length:
  assumes "dir_fits w e" and "e_direntSize e = 0 \<or> e_direntSize e = calcDirentDataSize w e"
  shows "\<exists>b. writeDirents w e = Inr b \<and> length b = direntDataSize w e"
  using writeDirents_laid [OF assms(1)] calcDirentDataSize_length [OF assms(1)] assms(2)
  by (auto simp: direntDataSize_def)

section \<open>A packed block reads back\<close>

text \<open>The dirent a reader finds for an entry whose name begins at \<open>off\<close>.\<close>

definition dirent_of :: "nat \<Rightarrow> direntInfo \<Rightarrow> Dirent" where
  "dirent_of off d = \<lparr> de_Nid = di_nid d, de_NameOff = of_nat off, de_FileType = di_fileType d, de_Reserved = 0 \<rparr>"

fun dirents_from :: "nat \<Rightarrow> direntInfo list \<Rightarrow> (Dirent \<times> bytes) list" where
  "dirents_from off [] = []"
| "dirents_from off (d # ds) = (dirent_of off d, di_name d) # dirents_from (off + length (di_name d)) ds"

definition group_dirents :: "direntInfo list \<Rightarrow> (Dirent \<times> bytes) list" where
  "group_dirents g = dirents_from (length g * 12) g"

lemma length_dirents_from [simp]: "length (dirents_from off g) = length g"
  by (induction off g rule: dirents_from.induct) auto

lemma headers_window:
  "i < length g \<Longrightarrow>
   window (headers off g @ t) (12 * i) 12 =
     put64 (di_nid (g ! i)) @ put16 (of_nat (off + name_bytes (map di_name (take i g)))) @ [di_fileType (g ! i), 0]"
proof (induction off g arbitrary: i rule: headers.induct)
  case (2 off d ds)
  show ?case
  proof (cases i)
    case 0
    then show ?thesis by (simp add: window_def)
  next
    case (Suc j)
    have "window (headers off (d # ds) @ t) (12 * i) 12 =
        window (headers (off + length (di_name d)) ds @ t) (12 * i - 12) 12"
      using Suc window_append_right [of "put64 (di_nid d) @ put16 (of_nat off) @ [di_fileType d, 0]" "12 * i"
        "headers (off + length (di_name d)) ds @ t" 12] by simp
    with 2 Suc show ?thesis by (simp add: add.assoc)
  qed
qed simp

lemma dirents_from_nth:
  "i < length g \<Longrightarrow>
   dirents_from off g ! i = (dirent_of (off + name_bytes (map di_name (take i g))) (g ! i), di_name (g ! i))"
  by (induction off g arbitrary: i rule: dirents_from.induct) (auto simp: nth_Cons' gr0_conv_Suc take_Cons' add.assoc)

lemma names_window:
  "i < length g \<Longrightarrow>
   window (concat (map di_name g) @ t) (name_bytes (map di_name (take i g))) (length (di_name (g ! i))) = di_name (g ! i)"
proof (induction g arbitrary: i)
  case (Cons d ds)
  then show ?case by (cases i) (auto simp: window_def)
qed simp

lemma group_read:
  assumes "i < length g" and "length (packed g) \<le> 65536" and "b = packed g @ z"
  shows "Dirent_Unmarshal (drop (12 * i) b) = Inr (dirent_of (length g * 12 + name_bytes (map di_name (take i g))) (g ! i))"
proof -
  let ?n = "of_nat (length g * 12 + name_bytes (map di_name (take i g))) :: u16"
  let ?h = "put64 (di_nid (g ! i)) @ put16 ?n @ [di_fileType (g ! i), 0]"
  have w: "window b (12 * i) 12 = ?h"
    using headers_window [OF assms(1), of "length g * 12"] assms(3) by (simp add: packed_def)
  have l: "12 \<le> length (drop (12 * i) b)" using assms by (simp add: length_packed)
  have p: "drop (12 * i) b = ?h @ drop 12 (drop (12 * i) b)"
    using w append_take_drop_id [of 12 "drop (12 * i) b"] by (simp add: window_def)
  have f: "le64 (drop (12 * i) b) 0 = di_nid (g ! i)" "le16 (drop (12 * i) b) 8 = ?n"
    by (subst p, rule le_of_window, simp add: window_def)+
  have "drop (12 * i) b ! 10 = di_fileType (g ! i)" "drop (12 * i) b ! 11 = 0"
    by (subst p, simp add: nth_append)+
  with f l show ?thesis by (simp add: Dirent_Unmarshal_def dirent_of_def)
qed

definition names_ok :: "direntInfo list \<Rightarrow> bool" where
  "names_ok g \<longleftrightarrow> (\<forall>d \<in> set g. di_name d \<noteq> [] \<and> 47 \<notin> set (di_name d) \<and> 0 \<notin> set (di_name d))"

lemma names_ok_check: "names_ok g \<Longrightarrow> d \<in> set g \<Longrightarrow> checkDirentName (di_name d) = Inr ()"
  by (auto simp: names_ok_def checkDirentName_def)

text \<open>Where the \<open>i\<close>-th name of a block begins.\<close>

definition name_off :: "direntInfo list \<Rightarrow> nat \<Rightarrow> nat" where
  "name_off g i = length g * 12 + name_bytes (map di_name (take i g))"

lemma name_off_Suc: "i < length g \<Longrightarrow> name_off g (Suc i) = name_off g i + length (di_name (g ! i))"
  by (simp add: name_off_def take_Suc_conv_app_nth)

lemma name_off_all: "name_off g (length g) = length (packed g)"
  by (simp add: name_off_def length_packed)

lemma name_off_mono: "i \<le> j \<Longrightarrow> name_off g i \<le> name_off g j"
proof -
  assume "i \<le> j"
  then have "take j g = take i g @ take (j - i) (drop i g)" by (metis le_add_diff_inverse take_add)
  then show ?thesis by (simp add: name_off_def)
qed

lemma name_off_bound:
  assumes "i < length g" "names_ok g" "length (packed g) \<le> 65536"
  shows "name_off g i < 65536" and "unat (of_nat (name_off g i) :: u16) = name_off g i"
    and "name_off g (Suc i) \<le> length (packed g)"
proof -
  show e: "name_off g (Suc i) \<le> length (packed g)"
    using name_off_mono [of "Suc i" "length g" g] assms(1) by (simp add: name_off_all)
  have "di_name (g ! i) \<noteq> []" using assms(1,2) by (simp add: names_ok_def)
  then show l: "name_off g i < 65536" using e name_off_Suc [OF assms(1)] assms(3) by (cases "di_name (g ! i)") auto
  show "unat (of_nat (name_off g i) :: u16) = name_off g i"
    using l by (simp add: unat_of_nat take_bit_eq_mod)
qed

lemma name_slice:
  assumes "i < length g"
  shows "window (packed g @ z) (name_off g i) (length (di_name (g ! i))) = di_name (g ! i)"
proof -
  have "window (packed g @ z) (name_off g i) (length (di_name (g ! i))) =
      window (concat (map di_name g) @ z) (name_bytes (map di_name (take i g))) (length (di_name (g ! i)))"
    unfolding packed_def append_assoc name_off_def
    by (subst window_append_right) simp_all
  with names_window [OF assms] show ?thesis by simp
qed

lemma trim_zeros:
  assumes "0 \<notin> set n"
  shows "(case IndexByte (n @ replicate m 0) 0 of Some j \<Rightarrow> take j (n @ replicate m 0) | None \<Rightarrow> n @ replicate m 0) = n"
proof -
  have "IndexByte (n @ replicate m 0) 0 = (if m = 0 then None else Some (length n))"
    using assms by (induction n) (cases m, auto)
  then show ?thesis by simp
qed

lemma group_entry:
  assumes i: "i < length g" and ok: "names_ok g" and l: "length (packed g) \<le> 65536"
    and b: "b = packed g @ replicate m 0"
  shows "blockDirent b i (length g) = Inr (group_dirents g ! i)"
proof -
  let ?d = "g ! i"
  note u = name_off_bound [OF i ok l]
  have de: "Dirent_Unmarshal (drop (12 * i) b) = Inr (dirent_of (name_off g i) ?d)"
    using group_read [OF i l b] by (simp add: name_off_def)
  have no: "unat (de_NameOff (dirent_of (name_off g i) ?d)) = name_off g i"
    using u(2) by (simp add: dirent_of_def)
  have gd: "group_dirents g ! i = (dirent_of (name_off g i) ?d, di_name ?d)"
    using dirents_from_nth [OF i] by (simp add: group_dirents_def name_off_def)
  have ck: "checkDirentName (di_name ?d) = Inr ()" using names_ok_check [OF ok] i by simp
  have nz: "0 \<notin> set (di_name ?d)" using ok i by (simp add: names_ok_def)
  have lb: "length b = length (packed g) + m" using b by simp
  have hb: "12 * i + 12 \<le> length b" using i lb by (simp add: length_packed)
  show ?thesis
  proof (cases "i < length g - 1")
    case True
    then have j: "Suc i < length g" by simp
    note v = name_off_bound [OF j ok l]
    have hb': "12 * Suc i + 12 \<le> length b" using j lb by (simp add: length_packed)
    have "le16 b (12 * Suc i + 8) = le16 (drop (12 * Suc i) b) 8"
      by (simp add: le16_def window_drop)
    moreover have "le16 (drop (12 * Suc i) b) 8 = of_nat (name_off g (Suc i))"
      using group_read [OF j l b] hb' by (simp add: Dirent_Unmarshal_def dirent_of_def name_off_def split: if_splits)
    ultimately have nx: "unat (le16 b (12 * (i + 1) + 8)) = name_off g (Suc i)" using v(2) by simp
    have "slice b (name_off g i) (name_off g (Suc i)) = Inr (di_name ?d)"
      using u(3) lb name_slice [OF i, of "replicate m 0"] name_off_Suc [OF i] b by (simp add: slice_def)
    moreover have "\<not> (name_off g i > name_off g (Suc i) \<or> name_off g (Suc i) > length b)"
      using u(3) lb name_off_Suc [OF i] by simp
    ultimately show ?thesis
      using True hb hb' i de no nx ck gd unfolding blockDirent_def Let_def by simp
  next
    case False
    then have li: "i = length g - 1" "Suc i = length g" using i by simp_all
    have ends: "name_off g i + length (di_name ?d) = length (packed g)"
      using name_off_Suc [OF i] name_off_all [of g] li by simp
    have "window b (name_off g i) (length b - name_off g i) = di_name ?d @ replicate m 0"
    proof -
      have "window b (name_off g i) (length b - name_off g i) =
          window b (name_off g i) (length (di_name ?d)) @ window b (length (packed g)) m"
      proof -
        have "length b - name_off g i = length (di_name ?d) + m" using ends lb by simp
        then show ?thesis using ends window_concat [of b "name_off g i" "length (di_name ?d)" m] by simp
      qed
      also have "window b (length (packed g)) m = replicate m 0" using b by (simp add: window_def)
      also have "window b (name_off g i) (length (di_name ?d)) = di_name ?d"
        using name_slice [OF i] b by simp
      finally show ?thesis .
    qed
    then have sl: "slice b (name_off g i) (length b) = Inr (di_name ?d @ replicate m 0)"
      using ends lb by (simp add: slice_def)
    have c: "(length b < 12 * i + 12) = False" "(i < length g - 1) = False" "(i = length g - 1) = True"
      "(length b < name_off g i \<or> length b < length b) = False"
      using hb False li ends lb by simp_all
    show ?thesis
      unfolding blockDirent_def Let_def c if_True if_False de bindE_simps no sl trim_zeros [OF nz] ck gd ..
  qed
qed

lemma group_block:
  assumes ok: "names_ok g" "g \<noteq> []" and l: "length (packed g) \<le> 65536" and b: "b = packed g @ replicate m 0"
  shows "block_ok b" and "entry_count b = length g"
    and "map (entry b) [0..<entry_count b] = map Inr (group_dirents g)"
proof -
  have z: "0 < length g" using ok(2) by simp
  have lb: "length b = length (packed g) + m" using b by simp
  have "le16 (drop (12 * 0) b) 8 = of_nat (name_off g 0)"
    using group_read [OF z l b] lb z by (simp add: Dirent_Unmarshal_def dirent_of_def name_off_def length_packed split: if_splits)
  then have f: "unat (le16 b 8) = length g * 12"
    using name_off_bound(2) [OF z ok(1) l] by (simp add: name_off_def)
  then show c: "entry_count b = length g" by (simp add: entry_count_def)
  have "name_off g 0 < length b"
  proof -
    have "di_name (g ! 0) \<noteq> []" using ok z unfolding names_ok_def by (simp add: nth_mem)
    then show ?thesis using name_off_Suc [OF z] name_off_bound(3) [OF z ok(1) l] lb by (cases "di_name (g ! 0)") auto
  qed
  moreover have "12 \<le> length g * 12" using ok(2) by (cases g) auto
  ultimately show "block_ok b" using f c ok(2) lb by (simp add: block_ok_def name_off_def length_packed)
  show "map (entry b) [0..<entry_count b] = map Inr (group_dirents g)"
    unfolding c using group_entry [OF _ ok(1) l b]
    by (intro nth_equalityI) (simp_all add: group_dirents_def)
qed

section \<open>Blocks of the directory data\<close>

lemma length_laid:
  assumes "\<forall>g \<in> set gs. length (packed g) \<le> bsz" and "gs \<noteq> []"
  shows "length (laid bsz gs) = (length gs - 1) * bsz + length (packed (last gs))"
  using assms
proof (induction gs)
  case (Cons g gs)
  then show ?case by (cases gs) auto
qed simp

lemma laid_window:
  assumes "\<forall>g \<in> set gs. length (packed g) \<le> bsz" and "j < length gs"
  shows "window (laid bsz gs) (j * bsz) (min bsz (length (laid bsz gs) - j * bsz)) =
    packed (gs ! j) @ (if j = length gs - 1 then [] else replicate (bsz - length (packed (gs ! j))) 0)"
  using assms
proof (induction gs arbitrary: j)
  case (Cons g gs)
  show ?case
  proof (cases j)
    case 0
    show ?thesis
    proof (cases "gs = []")
      case True
      with 0 Cons.prems show ?thesis by (simp add: window_def)
    next
      case False
      with Cons.prems have "length (laid bsz (g # gs)) = bsz + length (laid bsz gs)" by simp
      with 0 False Cons.prems show ?thesis by (simp add: window_def)
    qed
  next
    case (Suc i)
    then have ne: "gs \<noteq> []" using Cons.prems by auto
    let ?p = "packed g @ replicate (bsz - length (packed g)) 0"
    have lp: "length ?p = bsz" using Cons.prems by simp
    have e: "laid bsz (g # gs) = ?p @ laid bsz gs" using ne by simp
    have "window (laid bsz (g # gs)) (j * bsz) (min bsz (length (laid bsz (g # gs)) - j * bsz)) =
        window (laid bsz gs) (i * bsz) (min bsz (length (laid bsz gs) - i * bsz))"
      unfolding e using Suc lp by (subst window_append_right) (simp_all add: diff_mult_distrib)
    with Cons Suc ne show ?thesis by (cases gs) auto
  qed
qed simp

section \<open>A written directory reads back\<close>

text \<open>Some data is what the blocks of an inode hold.\<close>

definition stores :: "image \<Rightarrow> inode \<Rightarrow> bytes \<Rightarrow> bool" where
  "stores img fi data \<longleftrightarrow>
     fsize fi = int (length data) \<and>
     (\<forall>j. j * 2 ^ blkbits img < length data \<longrightarrow>
        (\<exists>blk. loadBlock img fi (int j * 2 ^ blkbits img) = Inr blk \<and>
           block_bytes blk = window data (j * 2 ^ blkbits img) (min (2 ^ blkbits img) (length data - j * 2 ^ blkbits img))))"

text \<open>The data of a directory, and its entries as a reader sees them.\<close>

definition dirData :: "erofsWriter \<Rightarrow> erofsEntry \<Rightarrow> bytes" where
  "dirData w e = laid (w_blockSize w) (groups (w_blockSize w) (direntInfos (w_store w) e))"

definition dirBlocks :: "erofsWriter \<Rightarrow> erofsEntry \<Rightarrow> (Dirent \<times> bytes) list list" where
  "dirBlocks w e = map group_dirents (groups (w_blockSize w) (direntInfos (w_store w) e))"

text \<open>Names that can be written and read: short, not empty, without a slash or a NUL, no two alike.\<close>

definition dir_names_ok :: "erofsWriter \<Rightarrow> erofsEntry \<Rightarrow> bool" where
  "dir_names_ok w e \<longleftrightarrow>
     dir_fits w e \<and> w_blockSize w \<le> 65536 \<and>
     (\<forall>n \<in> set (child_names (w_store w) e). n \<noteq> [] \<and> 47 \<notin> set n \<and> 0 \<notin> set n \<and> n \<noteq> dot \<and> n \<noteq> dotdot) \<and>
     distinct (child_names (w_store w) e)"

lemma dirents_from_map: "map snd (dirents_from off g) = map di_name g"
  by (induction off g rule: dirents_from.induct) auto

lemma dirBlocks_names: "map snd (concat (dirBlocks w e)) = direntNames (w_store w) e"
proof -
  have "map snd (concat (map group_dirents gs)) = map di_name (concat gs)" for gs
    by (induction gs) (simp_all add: group_dirents_def dirents_from_map)
  then show ?thesis by (simp add: dirBlocks_def groups_concat direntInfos_names)
qed

lemma dirBlocks_sorted:
  assumes "dir_names_ok w e"
  shows "sorted_wrt (<) (map snd (concat (dirBlocks w e)))"
proof -
  have "distinct ([46] # [46, 46] # child_names (w_store w) e)"
    using assms by (auto simp: dir_names_ok_def dot_def dotdot_def)
  then have "distinct (direntNames (w_store w) e)"
    unfolding direntNames_def distinct_sort child_names_def .
  moreover have "sorted (direntNames (w_store w) e)" unfolding direntNames_def by (rule sorted_sort)
  ultimately show ?thesis by (simp add: dirBlocks_names strict_sorted_iff)
qed

lemma infos_ok:
  assumes "dir_names_ok w e"
  shows "names_ok (direntInfos (w_store w) e)"
proof -
  have "n \<noteq> [] \<and> 47 \<notin> set n \<and> 0 \<notin> set n" if "n \<in> set (map di_name (direntInfos (w_store w) e))" for n
    using that assms unfolding direntInfos_names direntNames_def set_sort
    by (auto simp: dir_names_ok_def child_names_def)
  then show ?thesis by (simp add: names_ok_def)
qed

lemma groups_props:
  assumes "dir_names_ok w e" and "g \<in> set (groups (w_blockSize w) (direntInfos (w_store w) e))"
  shows "g \<noteq> []" and "length (packed g) \<le> w_blockSize w" and "names_ok g" and "length (packed g) \<le> 65536"
proof -
  have "group_ok (w_blockSize w) g"
    using groups_ok [OF dir_fits_names assms(2)] assms(1) by (simp add: dir_names_ok_def)
  then show "g \<noteq> []" "length (packed g) \<le> w_blockSize w" by (simp_all add: group_ok_def)
  then show "length (packed g) \<le> 65536" using assms(1) by (simp add: dir_names_ok_def)
  have "set g \<subseteq> set (direntInfos (w_store w) e)"
    using assms(2) groups_concat [of "w_blockSize w" "direntInfos (w_store w) e"] by (metis UN_upper set_concat)
  with infos_ok [OF assms(1)] show "names_ok g" by (auto simp: names_ok_def)
qed

lemma infos_nonempty [simp]: "direntInfos st e \<noteq> []"
proof -
  have "length (direntInfos st e) = length (e_children e) + 2" by (simp add: direntInfos_def)
  then show ?thesis by auto
qed

lemma dirData_blocks:
  assumes "dir_names_ok w e"
  defines "gs \<equiv> groups (w_blockSize w) (direntInfos (w_store w) e)"
  shows "(length gs - 1) * w_blockSize w < length (dirData w e)" and "length (dirData w e) \<le> length gs * w_blockSize w"
    and "gs \<noteq> []"
proof -
  show ne: "gs \<noteq> []"
    using groups_concat [of "w_blockSize w" "direntInfos (w_store w) e"] infos_nonempty [of "w_store w" e]
    unfolding gs_def by (metis concat.simps(1))
  note p = groups_props [OF assms(1), folded gs_def]
  have l: "length (dirData w e) = (length gs - 1) * w_blockSize w + length (packed (last gs))"
    unfolding dirData_def gs_def [symmetric] by (rule length_laid) (use p(2) ne in auto)
  have "0 < length (packed (last gs))" using p(1) [of "last gs"] ne by (simp add: length_packed)
  with l show "(length gs - 1) * w_blockSize w < length (dirData w e)" by simp
  have "length (packed (last gs)) \<le> w_blockSize w" using p(2) ne by simp
  moreover have "length gs * w_blockSize w = (length gs - 1) * w_blockSize w + w_blockSize w"
    using ne by (cases gs) auto
  ultimately show "length (dirData w e) \<le> length gs * w_blockSize w" using l by simp
qed

lemma calculateBlocks_count:
  assumes "(n - 1) * 2 ^ k < len" and "len \<le> n * 2 ^ k"
  shows "calculateBlocks k (int len) = int n"
proof -
  have n: "1 \<le> n" using assms by (cases n) auto
  have "- int len div 2 ^ k = - int n"
  proof (rule int_div_pos_eq [where r = "int n * 2 ^ k - int len"])
    show "- int len = 2 ^ k * (- int n) + (int n * 2 ^ k - int len)" by simp
    have "int len \<le> int (n * 2 ^ k)" using assms(2) by (simp only: of_nat_le_iff)
    then show "0 \<le> int n * 2 ^ k - int len" by simp
    have "int ((n - 1) * 2 ^ k) < int len" using assms(1) by (simp only: of_nat_less_iff)
    then have "(int n - 1) * 2 ^ k < int len" using n by (simp add: of_nat_diff)
    then show "int n * 2 ^ k - int len < 2 ^ k" by (simp add: algebra_simps)
  qed
  then show ?thesis by (simp add: calculateBlocks_eq)
qed

lemma written_dir_good:
  assumes ok: "dir_names_ok w e" and s: "stores img fi (dirData w e)" and k: "2 ^ blkbits img = w_blockSize w"
    "blkbits img \<le> 16" and len: "length (dirData w e) \<le> 2 ^ 62"
  shows "good_dir img fi (dirBlocks w e)"
proof -
  let ?bsz = "w_blockSize w"
  define gs where "gs = groups ?bsz (direntInfos (w_store w) e)"
  note b = dirData_blocks [OF ok, folded gs_def] and p = groups_props [OF ok, folded gs_def]
  have c: "calculateBlocks (blkbits img) (fsize fi) = int (length gs)"
    using s b k(1) calculateBlocks_count [of "length gs" "blkbits img" "length (dirData w e)"] by (simp add: stores_def)
  have "\<exists>blk. loadBlock img fi (int j * 2 ^ blkbits img) = Inr blk \<and> block_ok (block_bytes blk) \<and>
      map (entry (block_bytes blk)) [0..<entry_count (block_bytes blk)] = map Inr (group_dirents (gs ! j))"
    if j: "j < length gs" for j
  proof -
    have "j * ?bsz \<le> (length gs - 1) * ?bsz" using j by (intro mult_right_mono) auto
    then have "j * ?bsz < length (dirData w e)" using b(1) by (rule le_less_trans)
    then obtain blk where blk: "loadBlock img fi (int j * 2 ^ blkbits img) = Inr blk"
      "block_bytes blk = window (dirData w e) (j * ?bsz) (min ?bsz (length (dirData w e) - j * ?bsz))"
      using s unfolding stores_def k(1) by blast
    have "block_bytes blk = packed (gs ! j) @ replicate (if j = length gs - 1 then 0 else ?bsz - length (packed (gs ! j))) 0"
      unfolding blk(2) dirData_def gs_def [symmetric] using laid_window [of gs ?bsz j] p(2) j by auto
    from group_block [OF p(3) p(1) p(4) this] blk(1) j show ?thesis by auto
  qed
  then show ?thesis
    unfolding good_dir_def using s k(2) c len by (simp add: dirBlocks_def gs_def [symmetric] stores_def)
qed

text \<open>What a lookup in it finds.\<close>

lemma dirents_from_fields:
  "map (\<lambda>x. (snd x, de_Nid (fst x), de_FileType (fst x))) (dirents_from off g) =
   map (\<lambda>d. (di_name d, di_nid d, di_fileType d)) g"
  by (induction off g rule: dirents_from.induct) (auto simp: dirent_of_def)

lemma dirBlocks_fields:
  "map (\<lambda>x. (snd x, de_Nid (fst x), de_FileType (fst x))) (concat (dirBlocks w e)) =
   map (\<lambda>d. (di_name d, di_nid d, di_fileType d)) (direntInfos (w_store w) e)"
proof -
  have "map (\<lambda>x. (snd x, de_Nid (fst x), de_FileType (fst x))) (concat (map group_dirents gs)) =
      map (\<lambda>d. (di_name d, di_nid d, di_fileType d)) (concat gs)" for gs
    by (induction gs) (simp_all add: group_dirents_def dirents_from_fields)
  then show ?thesis by (simp add: dirBlocks_def groups_concat)
qed

lemma found_fields:
  "found xs t =
    (case map_of (map (\<lambda>x. (snd x, de_Nid (fst x), de_FileType (fst x))) xs) t of
       Some (nid, ft) \<Rightarrow> Inr (nid, EroFSFtypeToFileMode ft) | None \<Rightarrow> Inl ErrNotExist)"
  by (induction xs) (auto simp: found_def)

lemma found_written:
  "found (concat (dirBlocks w e)) t =
    (case map_of (map (\<lambda>d. (di_name d, di_nid d, di_fileType d)) (direntInfos (w_store w) e)) t of
       Some (nid, ft) \<Rightarrow> Inr (nid, EroFSFtypeToFileMode ft) | None \<Rightarrow> Inl ErrNotExist)"
  unfolding found_fields dirBlocks_fields ..

lemma infos_distinct:
  assumes "dir_names_ok w e"
  shows "distinct (map di_name (direntInfos (w_store w) e))"
  using dirBlocks_sorted [OF assms] unfolding dirBlocks_names direntInfos_names by (simp add: strict_sorted_iff)

lemma found_info:
  assumes "dir_names_ok w e" and "d \<in> set (direntInfos (w_store w) e)"
  shows "found (concat (dirBlocks w e)) (di_name d) = Inr (di_nid d, EroFSFtypeToFileMode (di_fileType d))"
proof -
  have "map_of (map (\<lambda>d. (di_name d, di_nid d, di_fileType d)) (direntInfos (w_store w) e)) (di_name d) =
      Some (di_nid d, di_fileType d)"
    using infos_distinct [OF assms(1)] assms(2) by (intro map_of_is_SomeI) (auto simp: comp_def)
  then show ?thesis by (simp add: found_written)
qed

lemma found_child:
  assumes "dir_names_ok w e" and "c \<in> set (e_children e)"
  shows "found (concat (dirBlocks w e)) (e_name (w_store w c)) =
    Inr (e_nid (w_store w c), EroFSFtypeToFileMode (e_erofsFileType (w_store w c)))"
proof -
  let ?d = "\<lparr> di_name = e_name (w_store w c), di_nid = e_nid (w_store w c),
      di_fileType = e_erofsFileType (w_store w c) \<rparr>"
  have "?d \<in> set (direntInfos (w_store w) e)" unfolding direntInfos_def set_sort using assms(2) by simp
  from found_info [OF assms(1) this] show ?thesis by simp
qed

lemma found_missing:
  assumes "t \<notin> set (child_names (w_store w) e)" "t \<noteq> dot" "t \<noteq> dotdot"
  shows "found (concat (dirBlocks w e)) t = Inl ErrNotExist"
proof -
  have "t \<notin> set (map di_name (direntInfos (w_store w) e))"
    using assms unfolding direntInfos_names direntNames_def set_sort by (auto simp: child_names_def dot_def dotdot_def)
  then have "map_of (map (\<lambda>d. (di_name d, di_nid d, di_fileType d)) (direntInfos (w_store w) e)) t = None"
    by (auto simp: map_of_eq_None_iff)
  then show ?thesis by (simp add: found_written)
qed

section \<open>A sample\<close>

text \<open>The directory of the reader's sample, as a writer would have it.\<close>

definition plain_entry :: "u16 \<Rightarrow> bytes \<Rightarrow> u64 \<Rightarrow> addr list \<Rightarrow> erofsEntry" where
  "plain_entry mode name nid cs =
     \<lparr> e_mode = mode, e_uid = 0, e_gid = 0, e_mtime = 0, e_mtimeNs = 0, e_nlink = 1, e_size = 0, e_rdev = 0,
       e_name = name, e_path = name, e_children = cs, e_symTarget = [], e_chunks = [], e_contiguous = False,
       e_chunkBits = 0, e_metadataOnly = False, e_tail = [], e_tailBlkAddr = 0, e_data = None, e_xattrs = [],
       e_aliasOf = None, e_nid = nid, e_parentNid = nid, e_erofsFileType = modeToFileType mode, e_layout = 0,
       e_compact = False, e_xattrSize = 0, e_chunkPad = 0, e_trailingSize = 0, e_direntSize = 0, e_dataBlkAddr = 0 \<rparr>"

definition dir_writer :: erofsWriter where
  "dir_writer =
     \<lparr> w_store = (\<lambda>a. if a = 0 then plain_entry 0x41ED [] 4 [1] else plain_entry 0x81A4 [97] 15 []),
       w_entries = [0, 1], w_rootNid = 0, w_metaBlkAddr = 0, w_totalInodes = 2, w_buildTime = 0,
       w_buildTimeNs = 0, w_devices = [], w_blockSize = 512, w_noInlineData = False, w_chunkBits = 0 \<rparr>"

lemma dir_writer_infos:
  "direntInfos (w_store dir_writer) (w_store dir_writer 0) =
     [\<lparr> di_name = [46], di_nid = 4, di_fileType = 2 \<rparr>, \<lparr> di_name = [46, 46], di_nid = 4, di_fileType = 2 \<rparr>,
      \<lparr> di_name = [97], di_nid = 15, di_fileType = 1 \<rparr>]"
  by (simp add: direntInfos_def dir_writer_def plain_entry_def modeToFileType_def)

lemma dir_writer_ok: "dir_names_ok dir_writer (w_store dir_writer 0)"
  by (simp add: dir_names_ok_def dir_fits_def names_fit_def child_names_def dir_writer_def plain_entry_def dot_def dotdot_def)

lemma le_put_2: "le_put 2 k = [of_nat k, of_nat (k div 256)]"
  unfolding numeral_2_eq_2 by simp

lemma le_put_small: "k < 256 \<Longrightarrow> le_put (Suc n) k = of_nat k # replicate n 0"
proof -
  have "le_put n 0 = replicate n 0" for n by (induction n) simp_all
  then show "k < 256 \<Longrightarrow> ?thesis" by simp
qed

lemma le_put_8_small: "k < 256 \<Longrightarrow> le_put 8 k = [of_nat k, 0, 0, 0, 0, 0, 0, 0]"
proof -
  have "replicate 7 (0 :: byte) = [0, 0, 0, 0, 0, 0, 0]" by (simp add: numeral_eq_Suc)
  then show "k < 256 \<Longrightarrow> ?thesis" using le_put_small [of k 7] by simp
qed

lemma dir_writer_data: "writeDirents dir_writer (w_store dir_writer 0) = Inr sample_dirents"
proof -
  have b: "w_blockSize dir_writer = 512" by (simp add: dir_writer_def)
  have "direntBlock 512 [[46], [46, 46], [97]] = (3, 40)" by (simp add: direntBlock_def Let_def)
  then have "groups 512 (direntInfos (w_store dir_writer) (w_store dir_writer 0)) =
      [direntInfos (w_store dir_writer) (w_store dir_writer 0)]"
    unfolding dir_writer_infos by (subst groups.simps) (simp add: groups.simps Let_def)
  moreover have "packed (direntInfos (w_store dir_writer) (w_store dir_writer 0)) = sample_dirents"
    unfolding dir_writer_infos by (simp add: packed_def sample_dirents_def put64_def put16_def le_put_2 le_put_8_small)
  ultimately show ?thesis
    using writeDirents_laid [of dir_writer "w_store dir_writer 0"] dir_writer_ok b by (simp add: dir_names_ok_def)
qed

lemma sample_dir_stores: "stores (sample_img sample_dir) sample_dir_inode sample_dirents"
proof -
  have b: "blkbits (sample_img sample_dir) = 9" by (simp add: sample_img_def sample_super_decode)
  have "fsize sample_dir_inode = 40" by (simp add: sample_dir_inode_def sample_inode_def)
  moreover have "\<exists>blk. loadBlock (sample_img sample_dir) sample_dir_inode (int j * 2 ^ 9) = Inr blk \<and>
      block_bytes blk = window sample_dirents (j * 2 ^ 9) (min (2 ^ 9) (length sample_dirents - j * 2 ^ 9))"
    if "j * 2 ^ 9 < length sample_dirents" for j
  proof -
    have "j = 0" using that by simp
    then show ?thesis using sample_dir_block by (auto simp: window_all)
  qed
  ultimately show ?thesis unfolding stores_def b by simp
qed

section \<open>Properties\<close>

text \<open>
  C5. A directory that was written reads back: where the blocks of an inode hold the bytes
  \<open>writeDirents\<close> put out for a directory with writable names, the reader's \<open>lookup\<close> finds
  every child by its name, with its nid and the type of its mode, finds the directory itself and its parent
  under the dots, and reports every other name as missing.
\<close>

theorem written_directory_looks_up:
  assumes "dir_names_ok w e" and "writeDirents w e = Inr data" and "stores img fi data"
    and "2 ^ blkbits img = w_blockSize w" and "length data \<le> 2 ^ 62"
    and "readInfo img (dfile d) = (f, Inr fi)"
  shows "(\<forall>c \<in> set (e_children e). snd (lookup img d (e_name (w_store w c))) =
       Inr (e_nid (w_store w c), EroFSFtypeToFileMode (e_erofsFileType (w_store w c)))) \<and>
     snd (lookup img d dot) = Inr (e_nid e, ModeDir) \<and> snd (lookup img d dotdot) = Inr (e_parentNid e, ModeDir) \<and>
     (\<forall>t. t \<notin> set (child_names (w_store w) e) \<and> t \<noteq> dot \<and> t \<noteq> dotdot \<longrightarrow>
       snd (lookup img d t) = Inl ErrNotExist)"
proof -
  have d: "data = dirData w e"
    using assms(1,2) writeDirents_laid by (simp add: dir_names_ok_def dirData_def)
  have "w_blockSize w \<le> 2 ^ 16" using assms(1) by (simp add: dir_names_ok_def)
  then have k: "blkbits img \<le> 16"
    unfolding assms(4) [symmetric] by (rule power_le_imp_le_exp [rotated]) simp
  have g: "good_dir img fi (dirBlocks w e)"
    by (rule written_dir_good [OF assms(1) assms(3,4) [unfolded d] k assms(5) [unfolded d]])
  have l: "snd (lookup img d t) = found (concat (dirBlocks w e)) t" for t
    using lookup_found [OF assms(6) g dirBlocks_sorted [OF assms(1)], of t] by simp
  have "\<lparr> di_name = [46], di_nid = e_nid e, di_fileType = FileTypeDir \<rparr> \<in> set (direntInfos (w_store w) e)"
    "\<lparr> di_name = [46, 46], di_nid = e_parentNid e, di_fileType = FileTypeDir \<rparr> \<in> set (direntInfos (w_store w) e)"
    unfolding direntInfos_def set_sort by simp_all
  from found_info [OF assms(1) this(1)] found_info [OF assms(1) this(2)]
  have dots: "found (concat (dirBlocks w e)) dot = Inr (e_nid e, ModeDir)"
    "found (concat (dirBlocks w e)) dotdot = Inr (e_parentNid e, ModeDir)"
    by (simp_all add: dot_def dotdot_def EroFSFtypeToFileMode_def)
  show ?thesis
    unfolding l dots using found_child [OF assms(1)] found_missing by blast
qed

theorem written_directory_looks_up_witness:
  "snd (lookup (sample_img sample_dir) sample_open_dir [97]) = Inr (15, 0) \<and>
   snd (lookup (sample_img sample_dir) sample_open_dir dotdot) = Inr (4, ModeDir)"
proof -
  have c: "1 \<in> set (e_children (w_store dir_writer 0))" "e_name (w_store dir_writer 1) = [97]" "e_nid (w_store dir_writer 1) = 15"
    "e_erofsFileType (w_store dir_writer 1) = 1" "e_parentNid (w_store dir_writer 0) = 4"
    by (simp_all add: dir_writer_def plain_entry_def modeToFileType_def)
  have b: "2 ^ blkbits (sample_img sample_dir) = w_blockSize dir_writer"
    by (simp add: sample_img_def sample_super_decode dir_writer_def)
  note t = written_directory_looks_up [OF dir_writer_ok dir_writer_data sample_dir_stores b _ sample_dir_info]
  have "length sample_dirents \<le> 2 ^ 62" by simp
  note t = t [OF this]
  have "snd (lookup (sample_img sample_dir) sample_open_dir [97]) = Inr (15, EroFSFtypeToFileMode 1)"
    using bspec [OF conjunct1 [OF t] c(1)] unfolding c .
  moreover have "snd (lookup (sample_img sample_dir) sample_open_dir dotdot) = Inr (4, ModeDir)"
    using t unfolding c by blast
  ultimately show ?thesis by (simp add: EroFSFtypeToFileMode_def)
qed

text \<open>
  C10. What is planned is what is written: \<open>calcDirentDataSize\<close>, which decides where a directory's
  data goes before a byte of it exists, is the length of what \<open>writeDirents\<close> writes, padding
  between blocks included.
\<close>

theorem dirent_size_is_exact:
  assumes "512 \<le> w_blockSize w" and "\<forall>c \<in> set (e_children e). 12 + length (e_name (w_store w c)) \<le> w_blockSize w"
  shows "\<exists>data. writeDirents w e = Inr data \<and> length data = calcDirentDataSize w e"
proof -
  have "dir_fits w e" using assms by (auto simp: dir_fits_def names_fit_def child_names_def)
  from writeDirents_laid [OF this] calcDirentDataSize_length [OF this] show ?thesis by simp
qed

theorem dirent_size_is_exact_witness: "calcDirentDataSize dir_writer (w_store dir_writer 0) = 40"
proof -
  have "\<exists>data. writeDirents dir_writer (w_store dir_writer 0) = Inr data \<and>
      length data = calcDirentDataSize dir_writer (w_store dir_writer 0)"
    by (rule dirent_size_is_exact) (simp_all add: dir_writer_def plain_entry_def)
  then show ?thesis unfolding dir_writer_data by auto
qed

end
