(* ===== verification/Write_Layout.thy ===== *)
theory Write_Layout
  imports Write_Dir
begin

text \<open>
  What \<open>planLayout\<close> promises: every entry gets a slot of its own, in the order of the walk, its inode
  does not cross a block and neither does inline data, and the sizes it leaves in the entries are
  those the serialization works with.
\<close>

section \<open>Rounding\<close>

lemma inodeSlotAlign_props:
  "n \<le> inodeSlotAlign n" "inodeSlotAlign n < n + 32" "inodeSlotAlign n mod 32 = 0"
  by (simp_all add: inodeSlotAlign_def)

lemma round_pad:
  fixes n b :: nat
  assumes "0 < b"
  shows "n + (if n mod b \<noteq> 0 then b - n mod b else 0) = (n + b - 1) div b * b"
proof -
  define q r where "q = n div b" and "r = n mod b"
  have n: "n = q * b + r" and r: "r < b" using assms by (simp_all add: q_def r_def)
  have "(n + b - 1) div b = (if r = 0 then q else Suc q)"
  proof (rule div_nat_eqI)
    show "b * (if r = 0 then q else Suc q) \<le> n + b - 1" using n r assms by (auto simp: algebra_simps)
    show "n + b - 1 < b * Suc (if r = 0 then q else Suc q)" using n r assms by (auto simp: algebra_simps)
  qed
  then show ?thesis using n r unfolding r_def [symmetric] by simp
qed

lemma inodeSlotAlign_pad:
  "inodeSlotAlign n = n + (if n mod 32 \<noteq> 0 then 32 - n mod 32 else 0)"
  using round_pad [of 32 n] unfolding inodeSlotAlign_def by simp

lemma round_block_up:
  fixes off bsz :: nat
  assumes "0 < bsz"
  shows "off \<le> (off + bsz - 1) div bsz * bsz" and "(off + bsz - 1) div bsz * bsz < off + bsz"
    and "(off + bsz - 1) div bsz * bsz mod bsz = 0"
proof -
  let ?x = "off + bsz - 1"
  have "?x div bsz * bsz = ?x - ?x mod bsz" by (simp add: minus_mod_eq_div_mult)
  moreover have "?x mod bsz < bsz" using assms by simp
  moreover have "?x mod bsz \<le> ?x" by simp
  ultimately show "off \<le> ?x div bsz * bsz" "?x div bsz * bsz < off + bsz" using assms by linarith+
qed simp

section \<open>A placed entry\<close>

text \<open>The block sizes the writer accepts.\<close>

definition block_size :: "nat \<Rightarrow> bool" where
  "block_size n \<longleftrightarrow> (\<exists>k. n = 2 ^ k \<and> 9 \<le> k \<and> k \<le> 16)"

lemma block_size_props:
  assumes "block_size n"
  shows "512 \<le> n" "n \<le> 65536" "n mod 32 = 0"
proof -
  obtain k where k: "n = 2 ^ k" "9 \<le> k" "k \<le> 16" using assms by (auto simp: block_size_def)
  have "(2::nat) ^ 9 \<le> 2 ^ k" "(2::nat) ^ k \<le> 2 ^ 16" using k by (intro power_increasing; simp)+
  then show "512 \<le> n" "n \<le> 65536" using k by simp_all
  have "(2::nat) ^ 5 dvd 2 ^ k" using k by (intro le_imp_power_dvd) simp
  then show "n mod 32 = 0" using k by auto
qed

text \<open>What \<open>planLayout\<close> promises of an entry: its inode in one block, at a multiple of 32, its inline
  data in the same block, and the sizes the serialization goes by.\<close>

definition placed :: "erofsWriter \<Rightarrow> erofsEntry \<Rightarrow> bool" where
  "placed w e \<longleftrightarrow>
     expectedOff e mod w_blockSize w + inodeCoreSize e \<le> w_blockSize w \<and>
     e_xattrSize e = calcXattrSize (e_xattrs e) \<and>
     e_trailingSize e = calcTrailingSize w e \<and> e_chunkPad e = chunkIndexPad e \<and>
     e_compact e = fitsCompact w e \<and>
     e_layout e \<in> {LayoutFlatPlain, LayoutFlatInline, LayoutChunkBased} \<and>
     (e_layout e = LayoutChunkBased \<longleftrightarrow> e_type e = StatTypeReg \<and> (e_chunks e \<noteq> [] \<or> e_metadataOnly e)) \<and>
     (e_layout e = LayoutFlatInline \<longrightarrow>
        expectedOff e mod w_blockSize w + inodeCoreSize e + e_xattrSize e + e_trailingSize e \<le> w_blockSize w)"

text \<open>Placing changes the fields of the plan and nothing else.\<close>

definition same_entry :: "erofsEntry \<Rightarrow> erofsEntry \<Rightarrow> bool" where
  "same_entry e e' \<longleftrightarrow>
     e_mode e' = e_mode e \<and> e_uid e' = e_uid e \<and> e_gid e' = e_gid e \<and>
     e_mtime e' = e_mtime e \<and> e_mtimeNs e' = e_mtimeNs e \<and> e_nlink e' = e_nlink e \<and>
     e_size e' = e_size e \<and> e_rdev e' = e_rdev e \<and> e_name e' = e_name e \<and>
     e_path e' = e_path e \<and> e_children e' = e_children e \<and> e_symTarget e' = e_symTarget e \<and>
     e_chunks e' = e_chunks e \<and> e_contiguous e' = e_contiguous e \<and> e_metadataOnly e' = e_metadataOnly e \<and>
     e_tail e' = e_tail e \<and> e_data e' = e_data e \<and> e_xattrs e' = e_xattrs e \<and>
     e_aliasOf e' = e_aliasOf e \<and> e_parentNid e' = e_parentNid e \<and> e_erofsFileType e' = e_erofsFileType e"

lemma chooseLayout_fields:
  "e_nid (chooseLayout w off h e) = e_nid e" "e_compact (chooseLayout w off h e) = e_compact e"
  "e_xattrSize (chooseLayout w off h e) = e_xattrSize e" "same_entry e (chooseLayout w off h e)"
  by (simp_all add: chooseLayout_def Let_def same_entry_def)

text \<open>The sizes do not look at the fields that are set after them.\<close>

lemma direntDataSize_memo [simp]:
  "direntDataSize w (e\<lparr>e_direntSize := direntDataSize w e\<rparr>) = direntDataSize w e"
  by (simp add: direntDataSize_def calcDirentDataSize_def direntNames_def)

lemma size_irrelevant [simp]:
  "direntDataSize w (e\<lparr>e_nid := n\<rparr>) = direntDataSize w e"
  "direntDataSize w (e\<lparr>e_layout := l\<rparr>) = direntDataSize w e"
  "direntDataSize w (e\<lparr>e_compact := c\<rparr>) = direntDataSize w e"
  "direntDataSize w (e\<lparr>e_trailingSize := t\<rparr>) = direntDataSize w e"
  "direntDataSize w (e\<lparr>e_chunkPad := p\<rparr>) = direntDataSize w e"
  "direntDataSize w (e\<lparr>e_xattrSize := x\<rparr>) = direntDataSize w e"
  "direntDataSize w (e\<lparr>e_chunkBits := b\<rparr>) = direntDataSize w e"
  by (simp_all add: direntDataSize_def calcDirentDataSize_def direntNames_def)

lemma chunkCount_irrelevant [simp]:
  "chunkCount w (e\<lparr>e_nid := n\<rparr>) = chunkCount w e"
  "chunkCount w (e\<lparr>e_layout := l\<rparr>) = chunkCount w e"
  "chunkCount w (e\<lparr>e_compact := c\<rparr>) = chunkCount w e"
  "chunkCount w (e\<lparr>e_trailingSize := t\<rparr>) = chunkCount w e"
  "chunkCount w (e\<lparr>e_chunkPad := p\<rparr>) = chunkCount w e"
  "chunkCount w (e\<lparr>e_xattrSize := x\<rparr>) = chunkCount w e"
  by (simp_all add: chunkCount_def entryChunkSize_def entryChunkBits_def Let_def)

lemma trailing_irrelevant [simp]:
  "calcTrailingSize w (e\<lparr>e_nid := n\<rparr>) = calcTrailingSize w e"
  "calcTrailingSize w (e\<lparr>e_trailingSize := t\<rparr>) = calcTrailingSize w e"
  "calcTrailingSize w (e\<lparr>e_chunkPad := p\<rparr>) = calcTrailingSize w e"
  "chunkIndexPad (e\<lparr>e_nid := n\<rparr>) = chunkIndexPad e"
  "chunkIndexPad (e\<lparr>e_chunkPad := p\<rparr>) = chunkIndexPad e"
  "fitsCompact w (e\<lparr>e_nid := n\<rparr>) = fitsCompact w e"
  "fitsCompact w (e\<lparr>e_compact := c\<rparr>) = fitsCompact w e"
  "fitsCompact w (e\<lparr>e_layout := l\<rparr>) = fitsCompact w e"
  "fitsCompact w (e\<lparr>e_trailingSize := t\<rparr>) = fitsCompact w e"
  "fitsCompact w (e\<lparr>e_chunkPad := p\<rparr>) = fitsCompact w e"
  "fitsCompact w (e\<lparr>e_chunkBits := b\<rparr>) = fitsCompact w e"
  "fitsCompact w (e\<lparr>e_direntSize := direntDataSize w e\<rparr>) = fitsCompact w e"
  by (simp_all add: calcTrailingSize_def chunkIndexPad_def inodeCoreSize_def fitsCompact_def inodeFileSize_def)

lemma setTrailing_fields [simp]:
  "e_nid (setTrailing w e) = e_nid e" "e_compact (setTrailing w e) = e_compact e"
  "e_xattrSize (setTrailing w e) = e_xattrSize e" "e_layout (setTrailing w e) = e_layout e"
  "e_trailingSize (setTrailing w e) = calcTrailingSize w e" "e_type (setTrailing w e) = e_type e"
  "fitsCompact w (setTrailing w e) = fitsCompact w e" "inodeCoreSize (setTrailing w e) = inodeCoreSize e"
  "calcTrailingSize w (setTrailing w e) = calcTrailingSize w e"
  "e_chunkPad (setTrailing w e) = chunkIndexPad (setTrailing w e)"
  "e_xattrs (setTrailing w e) = e_xattrs e" "e_chunks (setTrailing w e) = e_chunks e"
  "e_metadataOnly (setTrailing w e) = e_metadataOnly e"
  by (simp_all add: setTrailing_def Let_def inodeCoreSize_def)

lemma chooseLayout_compact: "fitsCompact w (chooseLayout w off h e) = fitsCompact w e"
  by (simp add: chooseLayout_def Let_def)

lemma chooseLayout_layout:
  "e_layout (chooseLayout w off h e) \<in> {LayoutFlatPlain, LayoutFlatInline, LayoutChunkBased}"
  "e_layout (chooseLayout w off h e) = LayoutChunkBased \<longleftrightarrow>
     e_type e = StatTypeReg \<and> (e_chunks e \<noteq> [] \<or> e_metadataOnly e)"
  by (auto simp: chooseLayout_def Let_def)

lemma same_entry_refl [simp]: "same_entry e e"
  by (simp add: same_entry_def)

lemma same_entry_trans: "same_entry a b \<Longrightarrow> same_entry b c \<Longrightarrow> same_entry a c"
  by (simp add: same_entry_def)

lemma nid_of_off:
  assumes "p mod 32 = 0" "p < 2 ^ 64"
  shows "unat (of_nat (p div 32) :: u64) * 32 = p"
proof -
  have "p div 32 < 2 ^ 64" using assms(2) by (meson div_le_dividend le_less_trans)
  then have "unat (of_nat (p div 32) :: u64) = p div 32" by (simp add: unat_of_nat take_bit_eq_mod)
  then show ?thesis using assms(1) by auto
qed

definition memo_ok :: "erofsWriter \<Rightarrow> erofsEntry \<Rightarrow> bool" where
  "memo_ok w e \<longleftrightarrow> e_direntSize e = 0 \<or> e_direntSize e = calcDirentDataSize w e"

lemma memo_ok_size: "memo_ok w e \<Longrightarrow> direntDataSize w e = calcDirentDataSize w e"
  by (auto simp: memo_ok_def direntDataSize_def)

lemma memo_ok_cong:
  "e_children e' = e_children e \<Longrightarrow> e_direntSize e' \<in> {e_direntSize e, direntDataSize w e} \<Longrightarrow> memo_ok w e \<Longrightarrow> memo_ok w e'"
proof -
  assume a: "e_children e' = e_children e" "e_direntSize e' \<in> {e_direntSize e, direntDataSize w e}" "memo_ok w e"
  have "calcDirentDataSize w e' = calcDirentDataSize w e"
    using a(1) by (simp add: calcDirentDataSize_def direntNames_def)
  with a(2,3) show ?thesis by (auto simp: memo_ok_def direntDataSize_def split: if_splits)
qed

lemma chooseLayout_memo: "e_direntSize (chooseLayout w off h e) \<in> {e_direntSize e, direntDataSize w e}"
  by (auto simp: chooseLayout_def Let_def)

text \<open>The offset an entry gets: the next one, or the next block when the inode would cross into it.\<close>

definition place_off :: "nat \<Rightarrow> nat \<Rightarrow> nat \<Rightarrow> nat" where
  "place_off bsz off n = (if off mod bsz + n > bsz then (off + bsz - 1) div bsz * bsz else off)"

lemma place_off_props:
  assumes "block_size bsz" and "off mod 32 = 0" and "n \<le> 64"
  shows "off \<le> place_off bsz off n" and "place_off bsz off n < off + 64" and "place_off bsz off n mod 32 = 0"
    and "place_off bsz off n mod bsz + n \<le> bsz"
proof -
  note b = block_size_props [OF assms(1)]
  have bp: "0 < bsz" using b(1) by simp
  note r = round_block_up [OF bp, of off]
  show "off \<le> place_off bsz off n" using r by (simp add: place_off_def)
  show "place_off bsz off n mod bsz + n \<le> bsz" using r(3) b(1) assms(3) by (simp add: place_off_def)
  show "place_off bsz off n mod 32 = 0"
    using assms(2) b(3) by (auto simp: place_off_def mod_mult_left_eq)
  show "place_off bsz off n < off + 64"
  proof (cases "off mod bsz + n > bsz")
    case True
    let ?q = "off div bsz"
    define r where "r = off mod bsz"
    have o: "off = ?q * bsz + r" by (simp add: r_def)
    have m1: "r < bsz" using bp by (simp add: r_def)
    have m: "r < bsz" "0 < r" "bsz - r < n" using m1 True [folded r_def] assms(3) b(1) by linarith+
    have "(off + bsz - 1) div bsz = Suc ?q"
    proof (rule div_nat_eqI)
      define z where "z = ?q * bsz"
      have e: "bsz * Suc ?q = z + bsz" "bsz * Suc (Suc ?q) = z + bsz + bsz" "off = z + r"
        using o by (simp_all add: z_def algebra_simps)
      show "bsz * Suc ?q \<le> off + bsz - 1" unfolding e(1,2) using e(3) m(2) by linarith
      show "off + bsz - 1 < bsz * Suc (Suc ?q)" unfolding e(1,2) using e(3) m(1) by linarith
    qed
    then have "place_off bsz off n = ?q * bsz + bsz" using True by (simp add: place_off_def)
    then show ?thesis using o m assms(3) by linarith
  qed (simp add: place_off_def)
qed

text \<open>The body of the loop as a composition: layout, place, fallback.\<close>

definition planned :: "erofsWriter \<Rightarrow> nat \<Rightarrow> erofsEntry \<Rightarrow> erofsEntry" where
  "planned w off e =
     (let e = e\<lparr>e_nid := of_nat (off div 32), e_xattrSize := calcXattrSize (e_xattrs e)\<rparr>;
          e = e\<lparr>e_compact := fitsCompact w e\<rparr>
      in setTrailing w (chooseLayout w off (inodeCoreSize e + e_xattrSize e) e))"

lemma planEntry_eq:
  "planEntry w off e =
    (let d = planned w off e; p = place_off (w_blockSize w) off (inodeCoreSize d); d = d\<lparr>e_nid := of_nat (p div 32)\<rparr>;
         e' = (if e_layout d = LayoutFlatInline \<and>
                  p mod w_blockSize w + inodeCoreSize d + e_xattrSize d + e_trailingSize d > w_blockSize w
               then setTrailing w (d\<lparr>e_layout := LayoutFlatPlain\<rparr>) else d)
     in (p + inodeSlotSize e', e'))"
proof -
  define a where "a = e\<lparr>e_nid := of_nat (off div 32), e_xattrSize := calcXattrSize (e_xattrs e)\<rparr>"
  define b where "b = a\<lparr>e_compact := fitsCompact w a\<rparr>"
  define d where "d = planned w off e"
  have d: "d = setTrailing w (chooseLayout w off (inodeCoreSize b + e_xattrSize b) b)"
    by (simp add: d_def planned_def Let_def a_def b_def)
  have f: "inodeCoreSize d = inodeCoreSize b" "e_xattrSize d = e_xattrSize b" "e_nid d = of_nat (off div 32)"
    by (simp_all add: d chooseLayout_fields inodeCoreSize_def) (simp add: b_def a_def)
  have n: "d\<lparr>e_nid := of_nat (off div 32)\<rparr> = d" using f(3) by (cases d) simp
  have u: "inodeCoreSize (d\<lparr>e_nid := q\<rparr>) = inodeCoreSize d" "e_xattrSize (d\<lparr>e_nid := q\<rparr>) = e_xattrSize d"
    "e_trailingSize (d\<lparr>e_nid := q\<rparr>) = e_trailingSize d" "e_layout (d\<lparr>e_nid := q\<rparr>) = e_layout d" for q
    by (simp_all add: inodeCoreSize_def)
  show ?thesis
    unfolding planEntry_def Let_def a_def [symmetric] b_def [symmetric] d [symmetric]
    unfolding f(1,2) [symmetric] d_def [symmetric] place_off_def
    by (simp add: n u split: prod.split)
qed

lemma planned_props:
  fixes w off e
  defines "d \<equiv> planned w off e"
  shows "e_xattrSize d = calcXattrSize (e_xattrs d)"
    and "e_trailingSize d = calcTrailingSize w d" and "e_chunkPad d = chunkIndexPad d" and "e_compact d = fitsCompact w d"
    and "e_layout d \<in> {LayoutFlatPlain, LayoutFlatInline, LayoutChunkBased}"
    and "e_layout d = LayoutChunkBased \<longleftrightarrow> e_type d = StatTypeReg \<and> (e_chunks d \<noteq> [] \<or> e_metadataOnly d)"
    and "same_entry e d" and "memo_ok w e \<Longrightarrow> memo_ok w d"
proof -
  define a where "a = e\<lparr>e_nid := of_nat (off div 32), e_xattrSize := calcXattrSize (e_xattrs e)\<rparr>"
  define b where "b = a\<lparr>e_compact := fitsCompact w a\<rparr>"
  define c where "c = chooseLayout w off (inodeCoreSize b + e_xattrSize b) b"
  have d: "d = setTrailing w c" by (simp add: d_def planned_def Let_def a_def b_def c_def)
  have eb: "same_entry e b" by (simp add: same_entry_def a_def b_def)
  have bc: "same_entry b c" by (simp add: c_def chooseLayout_fields)
  have cd: "same_entry c d" by (simp add: d setTrailing_def same_entry_def Let_def)
  note ec = same_entry_trans [OF eb bc]
  show "same_entry e d" by (rule same_entry_trans [OF ec cd])
  show "e_xattrSize d = calcXattrSize (e_xattrs d)"
    using ec by (simp add: d c_def chooseLayout_fields) (simp add: b_def a_def same_entry_def)
  show "e_trailingSize d = calcTrailingSize w d" "e_chunkPad d = chunkIndexPad d" by (simp_all add: d)
  show "e_compact d = fitsCompact w d"
    by (simp add: d c_def chooseLayout_fields chooseLayout_compact) (simp add: b_def)
  show "e_layout d \<in> {LayoutFlatPlain, LayoutFlatInline, LayoutChunkBased}"
    using chooseLayout_layout(1) by (simp add: d c_def)
  have "e_layout d = LayoutChunkBased \<longleftrightarrow> e_type b = StatTypeReg \<and> (e_chunks b \<noteq> [] \<or> e_metadataOnly b)"
    unfolding d setTrailing_fields c_def by (rule chooseLayout_layout(2))
  then show "e_layout d = LayoutChunkBased \<longleftrightarrow> e_type d = StatTypeReg \<and> (e_chunks d \<noteq> [] \<or> e_metadataOnly d)"
    using same_entry_trans [OF bc cd] by (simp add: same_entry_def)
  show "memo_ok w d" if m: "memo_ok w e"
  proof -
    have mb: "memo_ok w b" by (rule memo_ok_cong [OF _ _ m]) (simp_all add: b_def a_def)
    have mc: "memo_ok w c"
      by (rule memo_ok_cong [OF _ _ mb]) (use bc chooseLayout_memo in \<open>auto simp: same_entry_def c_def\<close>)
    show ?thesis
      by (rule memo_ok_cong [OF _ _ mc]) (use cd in \<open>auto simp: same_entry_def d setTrailing_def Let_def\<close>)
  qed
qed

lemma planEntry_spec:
  assumes bsz: "block_size (w_blockSize w)" and p: "planEntry w off e = (off', e')" and m: "off mod 32 = 0"
    and lim: "off < 2 ^ 63"
  shows "off \<le> expectedOff e'" and "expectedOff e' < off + 64" and "expectedOff e' mod 32 = 0"
    and "off' = expectedOff e' + inodeSlotSize e'" and "placed w e'" and "same_entry e e'"
    and "memo_ok w e \<Longrightarrow> memo_ok w e'"
proof -
  let ?bsz = "w_blockSize w"
  define d where "d = planned w off e"
  define q where "q = place_off ?bsz off (inodeCoreSize d)"
  define d' where "d' = d\<lparr>e_nid := of_nat (q div 32)\<rparr>"
  have c64: "inodeCoreSize d \<le> 64" by (simp add: inodeCoreSize_def)
  note pq = place_off_props [OF bsz m c64, folded q_def]
  note pd = planned_props [where w = w and off = off and e = e, folded d_def]
  have n: "unat (of_nat (q div 32) :: u64) * 32 = q" by (rule nid_of_off [OF pq(3)]) (use pq(2) lim in simp)
  have pd': "e_xattrSize d' = calcXattrSize (e_xattrs d')" "e_trailingSize d' = calcTrailingSize w d'"
    "e_chunkPad d' = chunkIndexPad d'" "e_compact d' = fitsCompact w d'" "same_entry e d'" "expectedOff d' = q"
    "inodeCoreSize d' = inodeCoreSize d"
    using pd n by (simp_all add: d'_def same_entry_def expectedOff_def inodeCoreSize_def)
  have e': "e' = (if e_layout d' = LayoutFlatInline \<and>
      q mod ?bsz + inodeCoreSize d' + e_xattrSize d' + e_trailingSize d' > ?bsz
      then setTrailing w (d'\<lparr>e_layout := LayoutFlatPlain\<rparr>) else d')" (is "_ = (if ?c then ?f else _)")
    and off': "off' = q + inodeSlotSize e'"
    using p unfolding planEntry_eq d_def [symmetric] Let_def q_def [symmetric] d'_def [symmetric]
    by (simp_all add: d'_def inodeCoreSize_def split: if_splits)
  have eo: "expectedOff e' = q" "inodeCoreSize e' = inodeCoreSize d'"
    using pd'(6) by (auto simp: e' expectedOff_def inodeCoreSize_def)
  show "off \<le> expectedOff e'" "expectedOff e' < off + 64" "expectedOff e' mod 32 = 0" "off' = expectedOff e' + inodeSlotSize e'"
    using pq off' by (simp_all add: eo)
  have se: "same_entry d' e'" by (simp add: e' same_entry_def setTrailing_def Let_def)
  show "same_entry e e'" by (rule same_entry_trans [OF pd'(5) se])
  show "memo_ok w e'" if me: "memo_ok w e"
    by (rule memo_ok_cong [OF _ _ pd(8) [OF me]])
      (use se in \<open>auto simp: e' d'_def same_entry_def setTrailing_def Let_def\<close>)
  show "placed w e'"
  proof (cases ?c)
    case True
    have f: "e' = ?f" unfolding e' if_P [OF True] ..
    have "\<not> (e_type d' = StatTypeReg \<and> (e_chunks d' \<noteq> [] \<or> e_metadataOnly d'))"
      using True pd(6) by (auto simp: d'_def)
    then show ?thesis using pq(4) pd' eo f by (simp add: placed_def)
  next
    case False
    then have f: "e' = d'" using e' by (simp only: if_False)
    show ?thesis using pq(4) pd' pd(5,6) eo False unfolding f placed_def by (auto simp: d'_def)
  qed
qed

section \<open>All entries\<close>

text \<open>The sizes of an entry depend on the other entries through their names alone.\<close>

definition same_names :: "erofsWriter \<Rightarrow> erofsWriter \<Rightarrow> bool" where
  "same_names w w' \<longleftrightarrow>
     w_blockSize w' = w_blockSize w \<and> w_buildTime w' = w_buildTime w \<and> w_buildTimeNs w' = w_buildTimeNs w \<and>
     w_chunkBits w' = w_chunkBits w \<and> (\<forall>a. e_name (w_store w' a) = e_name (w_store w a))"

lemma same_names_refl [simp]: "same_names w w"
  by (simp add: same_names_def)

lemma same_names_sym: "same_names w w' \<Longrightarrow> same_names w' w"
  by (simp add: same_names_def)

lemma same_names_trans: "same_names w w' \<Longrightarrow> same_names w' w'' \<Longrightarrow> same_names w w''"
  by (simp add: same_names_def)

lemma same_names_sizes:
  assumes "same_names w w'"
  shows "calcDirentDataSize w' e = calcDirentDataSize w e" and "direntDataSize w' e = direntDataSize w e"
    and "inodeFileSize w' e = inodeFileSize w e" and "fitsCompact w' e = fitsCompact w e"
    and "chunkCount w' e = chunkCount w e" and "calcTrailingSize w' e = calcTrailingSize w e"
proof -
  have n: "direntNames (w_store w') e = direntNames (w_store w) e"
    using assms by (simp add: same_names_def direntNames_def)
  show c: "calcDirentDataSize w' e = calcDirentDataSize w e"
    unfolding calcDirentDataSize_def n using assms by (simp add: same_names_def)
  show d: "direntDataSize w' e = direntDataSize w e" by (simp add: direntDataSize_def c)
  show s: "inodeFileSize w' e = inodeFileSize w e" by (simp add: inodeFileSize_def d)
  show "fitsCompact w' e = fitsCompact w e" using assms by (simp add: fitsCompact_def s same_names_def)
  have "entryChunkSize w' e = entryChunkSize w e"
    using assms by (simp add: entryChunkSize_def entryChunkBits_def same_names_def)
  then show k: "chunkCount w' e = chunkCount w e" by (simp add: chunkCount_def)
  show "calcTrailingSize w' e = calcTrailingSize w e" by (simp add: calcTrailingSize_def k d)
qed

lemma same_names_placed:
  assumes "same_names w w'"
  shows "placed w' e = placed w e" and "memo_ok w' e = memo_ok w e"
  using assms unfolding placed_def memo_ok_def same_names_sizes [OF assms] by (simp_all add: same_names_def)

text \<open>The entries one behind another: each at or shortly behind the end of the one before.\<close>

fun slots :: "erofsWriter \<Rightarrow> store \<Rightarrow> nat \<Rightarrow> addr list \<Rightarrow> bool" where
  "slots w st off [] = True"
| "slots w st off (a # as) \<longleftrightarrow>
     off \<le> expectedOff (st a) \<and> expectedOff (st a) < off + 64 \<and> expectedOff (st a) mod 32 = 0 \<and> placed w (st a) \<and>
     slots w st (expectedOff (st a) + inodeSlotSize (st a)) as"

lemma slots_cong: "\<forall>a \<in> set as. st' a = st a \<Longrightarrow> slots w st' off as = slots w st off as"
  by (induction as arbitrary: off) auto

lemma slots_names: "same_names w w' \<Longrightarrow> slots w' st off as = slots w st off as"
  by (induction as arbitrary: off) (simp_all add: same_names_placed)

text \<open>The offset behind the last entry.\<close>

fun planOff :: "erofsWriter \<Rightarrow> nat \<Rightarrow> addr list \<Rightarrow> nat" where
  "planOff w off [] = off"
| "planOff w off (a # as) =
     (case planEntry w off (w_store w a) of
        (off', e) \<Rightarrow> planOff (w\<lparr>w_store := (w_store w)(a := e)\<rparr>) off' as)"

lemma planEntry_mono: "0 < w_blockSize w \<Longrightarrow> planEntry w off e = (off', e') \<Longrightarrow> off \<le> off'"
  using round_block_up(1) [of "w_blockSize w" off]
  by (auto simp: planEntry_eq Let_def place_off_def split: if_splits)

lemma planOff_mono: "0 < w_blockSize w \<Longrightarrow> off \<le> planOff w off as"
proof (induction as arbitrary: w off)
  case (Cons a as)
  obtain off' e where p: "planEntry w off (w_store w a) = (off', e)" by fastforce
  have "off' \<le> planOff (w\<lparr>w_store := (w_store w)(a := e)\<rparr>) off' as" by (rule Cons.IH) (use Cons.prems in simp)
  with planEntry_mono [OF Cons.prems p] p show ?case by simp
qed simp

lemma planEntries_spec:
  assumes "block_size (w_blockSize w)" "distinct as" "off mod 32 = 0" "planOff w off as < 2 ^ 63"
  defines "w' \<equiv> planEntries w off as"
  shows "w' = w\<lparr>w_store := w_store w'\<rparr> \<and> same_names w w' \<and> slots w (w_store w') off as \<and>
    (\<forall>a. a \<notin> set as \<longrightarrow> w_store w' a = w_store w a) \<and>
    (\<forall>a. same_entry (w_store w a) (w_store w' a)) \<and>
    (\<forall>a. memo_ok w (w_store w a) \<longrightarrow> memo_ok w (w_store w' a))"
  using assms(1-4) unfolding w'_def
proof (induction as arbitrary: w off)
  case Nil
  then show ?case by (simp add: same_names_def)
next
  case (Cons a as)
  obtain off' e where p: "planEntry w off (w_store w a) = (off', e)" by fastforce
  define v where "v = w\<lparr>w_store := (w_store w)(a := e)\<rparr>"
  define u where "u = planEntries v off' as"
  have pu: "planEntries w off (a # as) = u" "planOff w off (a # as) = planOff v off' as"
    using p by (simp_all add: u_def v_def)
  have bv: "block_size (w_blockSize v)" "0 < w_blockSize v" "0 < w_blockSize w"
    using Cons.prems(1) block_size_props(1) [OF Cons.prems(1)] by (simp_all add: v_def)
  have "off \<le> planOff w off (a # as)" by (rule planOff_mono [OF bv(3)])
  then have lim: "off < 2 ^ 63" using Cons.prems(4) by simp
  note s = planEntry_spec [OF Cons.prems(1) p Cons.prems(3) lim]
  have wv: "same_names w v" using s(6) by (simp add: same_names_def v_def same_entry_def)
  have "off' mod 32 = 0"
    using s(3) inodeSlotAlign_props(3) unfolding s(4) inodeSlotSize_def by (auto simp: mod_add_eq [symmetric])
  then have i: "u = v\<lparr>w_store := w_store u\<rparr>" "same_names v u" "slots v (w_store u) off' as"
    "\<forall>a. a \<notin> set as \<longrightarrow> w_store u a = w_store v a" "\<forall>a. same_entry (w_store v a) (w_store u a)"
    "\<forall>a. memo_ok v (w_store v a) \<longrightarrow> memo_ok v (w_store u a)"
    using Cons.IH [of v off'] Cons.prems(2,4) bv(1) unfolding pu(2) u_def by auto
  have ua: "w_store u a = e" using i(4) Cons.prems(2) by (simp add: v_def)
  have sl: "slots w (w_store u) off (a # as)"
    using s ua slots_names [OF wv] i(3) by simp
  have o: "\<forall>b. b \<notin> set (a # as) \<longrightarrow> w_store u b = w_store w b" using i(4) by (simp add: v_def)
  have se: "same_entry (w_store w b) (w_store v b)" for b using s(6) by (simp add: v_def)
  have mm: "memo_ok w (w_store u b)" if "memo_ok w (w_store w b)" for b
    using that s(7) i(6) same_names_placed(2) [OF wv] by (cases "b = a") (auto simp: v_def)
  have eq: "u = w\<lparr>w_store := w_store u\<rparr>" using i(1) by (simp add: v_def)
  show ?case
    unfolding pu(1) using eq same_names_trans [OF wv i(2)] sl o same_entry_trans [OF se] i(5) mm by blast
qed

section \<open>Slots apart\<close>

lemma slots_later:
  "slots w st off as \<Longrightarrow> a \<in> set as \<Longrightarrow>
   off \<le> expectedOff (st a) \<and> expectedOff (st a) mod 32 = 0 \<and> placed w (st a)"
proof (induction as arbitrary: off)
  case (Cons b as)
  then have "a = b \<or> expectedOff (st b) + inodeSlotSize (st b) \<le> expectedOff (st a) \<and> expectedOff (st a) mod 32 = 0 \<and> placed w (st a)"
    by auto
  with Cons.prems show ?case by auto
qed simp

lemma slots_apart:
  assumes "slots w st off as" and "i < j" and "j < length as"
  shows "expectedOff (st (as ! i)) + inodeSlotSize (st (as ! i)) \<le> expectedOff (st (as ! j))"
  using assms
proof (induction as arbitrary: off i j)
  case (Cons b as)
  then obtain k where k: "j = Suc k" by (cases j) auto
  show ?case
  proof (cases i)
    case 0
    with Cons.prems k slots_later [of w st "expectedOff (st b) + inodeSlotSize (st b)" as "as ! k"] show ?thesis by simp
  next
    case (Suc l)
    with Cons k show ?thesis by auto
  qed
qed simp

section \<open>Properties\<close>

text \<open>
  C6. The plan of an image has no two inodes in each other's way: for any list of entries, the slot of
  an earlier entry, its inode with its attributes and the data stored behind it, ends before the nid
  of every later one; every nid is a multiple of the slot size; no inode crosses a block, and
  neither does the inline data behind it; and planning changes nothing of an entry but its plan.
\<close>

theorem planEntries_keeps_slots_apart:
  assumes "block_size (w_blockSize w)" and "distinct as" and "planOff w 0 as < 2 ^ 63"
  defines "st \<equiv> w_store (planEntries w 0 as)"
  shows "(\<forall>i j. i < j \<and> j < length as \<longrightarrow>
      expectedOff (st (as ! i)) + inodeSlotSize (st (as ! i)) \<le> expectedOff (st (as ! j))) \<and>
    (\<forall>a \<in> set as. let e = st a; b = w_blockSize w in
      expectedOff e mod 32 = 0 \<and> expectedOff e mod b + inodeCoreSize e \<le> b \<and>
      (e_layout e = LayoutFlatInline \<longrightarrow>
        expectedOff e mod b + inodeCoreSize e + e_xattrSize e + e_trailingSize e \<le> b) \<and>
      same_entry (w_store w a) e)"
proof -
  note s = planEntries_spec [OF assms(1,2) _ assms(3), folded st_def]
  have sl: "slots w st 0 as" using s by simp
  have same: "\<forall>a. same_entry (w_store w a) (st a)" using s by simp
  have "let e = st a; b = w_blockSize w in
      expectedOff e mod 32 = 0 \<and> expectedOff e mod b + inodeCoreSize e \<le> b \<and>
      (e_layout e = LayoutFlatInline \<longrightarrow>
        expectedOff e mod b + inodeCoreSize e + e_xattrSize e + e_trailingSize e \<le> b) \<and>
      same_entry (w_store w a) e" if "a \<in> set as" for a
    using slots_later [OF sl that] same unfolding placed_def Let_def by blast
  with slots_apart [OF sl] show ?thesis by blast
qed

text \<open>Two files in one directory, for which the plan is worked out.\<close>

definition sample_entry :: "u16 \<Rightarrow> bytes \<Rightarrow> addr list \<Rightarrow> bytes \<Rightarrow> erofsEntry" where
  "sample_entry mode name cs data =
     \<lparr> e_mode = mode, e_uid = 0, e_gid = 0, e_mtime = 0, e_mtimeNs = 0, e_nlink = 1,
       e_size = (if mode AND StatTypeMask = StatTypeReg then of_nat (length data) else 0), e_rdev = 0,
       e_name = name, e_path = name, e_children = cs, e_symTarget = [], e_chunks = [], e_contiguous = False,
       e_chunkBits = 0, e_metadataOnly = False, e_tail = [], e_tailBlkAddr = 0,
       e_data = (if data = [] then None else Some \<lparr> src_bytes = data, src_err = None \<rparr>), e_xattrs = [],
       e_aliasOf = None, e_nid = 0, e_parentNid = 0, e_erofsFileType = modeToFileType mode, e_layout = 0,
       e_compact = False, e_xattrSize = 0, e_chunkPad = 0, e_trailingSize = 0, e_direntSize = 0, e_dataBlkAddr = 0 \<rparr>"

definition sample_store :: store where
  "sample_store a =
     (if a = 0 then sample_entry 0x41ED [] [1, 2] []
      else if a = 1 then sample_entry 0x81A4 [97] [] [104, 105]
      else sample_entry 0x81A4 [98] [] (replicate 600 7))"

definition sample_writer :: erofsWriter where
  "sample_writer =
     \<lparr> w_store = sample_store, w_entries = [0, 1, 2], w_rootNid = 0, w_metaBlkAddr = 0, w_totalInodes = 3, w_buildTime = 0,
       w_buildTimeNs = 0, w_devices = [], w_blockSize = 512, w_noInlineData = False, w_chunkBits = 0 \<rparr>"

lemma sample_dir_sizes: "calcDirentBlocks 512 [[46], [46, 46], [97], [98]] = 53"
proof -
  have "direntBlock 512 [[46], [46, 46], [97], [98]] = (4, 53)" by (simp add: direntBlock_def Let_def)
  then show ?thesis by (subst calcDirentBlocks.simps) (simp add: calcDirentBlocks.simps)
qed

lemmas plan_defs = planEntry_eq planned_def setTrailing_def chooseLayout_def fitsCompact_def inodeFileSize_def
  direntDataSize_def calcDirentDataSize_def direntNames_def sample_dir_sizes inodeCoreSize_def place_off_def inodeSlotSize_def
  inodeSlotAlign_def calcTrailingSize_def chunkIndexPad_def sample_store_def sample_entry_def sample_writer_def Let_def
  calcXattrSize_def

lemma sample_plan:
  "planEntry sample_writer 0 (sample_store 0) =
     (96, (sample_store 0)\<lparr>e_compact := True, e_layout := 2, e_direntSize := 53, e_trailingSize := 53\<rparr>)"
  "planEntry (sample_writer\<lparr>w_store := st\<rparr>) 96 (sample_store 1) =
     (160, (sample_store 1)\<lparr>e_nid := 3, e_compact := True, e_layout := 2, e_trailingSize := 2\<rparr>)"
  "planEntry (sample_writer\<lparr>w_store := st\<rparr>) 160 (sample_store 2) =
     (192, (sample_store 2)\<lparr>e_nid := 5, e_compact := True\<rparr>)"
  by (simp_all add: plan_defs)

lemma sample_planned:
  "planEntries sample_writer 0 [0, 1, 2] = sample_writer\<lparr>w_store := sample_store
     (0 := (sample_store 0)\<lparr>e_compact := True, e_layout := 2, e_direntSize := 53, e_trailingSize := 53\<rparr>,
      1 := (sample_store 1)\<lparr>e_nid := 3, e_compact := True, e_layout := 2, e_trailingSize := 2\<rparr>,
      2 := (sample_store 2)\<lparr>e_nid := 5, e_compact := True\<rparr>)\<rparr>"
  "planOff sample_writer 0 [0, 1, 2] = 192"
proof -
  have w: "w_store sample_writer = sample_store" by (simp add: sample_writer_def)
  show "planEntries sample_writer 0 [0, 1, 2] = sample_writer\<lparr>w_store := sample_store
     (0 := (sample_store 0)\<lparr>e_compact := True, e_layout := 2, e_direntSize := 53, e_trailingSize := 53\<rparr>,
      1 := (sample_store 1)\<lparr>e_nid := 3, e_compact := True, e_layout := 2, e_trailingSize := 2\<rparr>,
      2 := (sample_store 2)\<lparr>e_nid := 5, e_compact := True\<rparr>)\<rparr>"
    "planOff sample_writer 0 [0, 1, 2] = 192"
    by (simp_all add: w sample_plan sample_plan [unfolded One_nat_def])
qed

theorem planEntries_keeps_slots_apart_witness:
  "expectedOff (w_store (planEntries sample_writer 0 [0, 1, 2]) 1) +
     inodeSlotSize (w_store (planEntries sample_writer 0 [0, 1, 2]) 1)
   \<le> expectedOff (w_store (planEntries sample_writer 0 [0, 1, 2]) 2)"
proof -
  have b: "block_size (w_blockSize sample_writer)"
    unfolding block_size_def sample_writer_def by (auto intro: exI [of _ 9])
  have "planOff sample_writer 0 [0, 1, 2] < 2 ^ 63" unfolding sample_planned(2) by simp
  note p = conjunct1 [OF planEntries_keeps_slots_apart [OF b _ this], THEN spec, THEN spec, THEN mp, of 1 2]
  show ?thesis using p by (simp del: planEntries.simps)
qed

end
