(* ===== verification/Write_Meta.thy ===== *)
theory Write_Meta
  imports Write_Layout
begin

text \<open>
  The metadata area as it is written: for entries that have been placed, \<open>writeMetadataInodes\<close>
  neither overruns a slot nor fails, and every inode, with its attributes and the data behind it,
  begins at the offset its nid names.
\<close>

section \<open>Lengths of the parts\<close>

lemma length_writeInode [simp]: "length (writeInode w e) = inodeCoreSize e"
  by (simp add: writeInode_def Let_def inodeCoreSize_def)

lemma length_writeXattr: "length (writeXattr name value) = xattrEntrySize name value"
proof -
  obtain idx sfx where s: "xattrSplit name = (idx, sfx)" by fastforce
  define n where "n = 4 + length sfx + length value"
  have a: "n + (if n mod 4 \<noteq> 0 then 4 - n mod 4 else 0) = (if n mod 4 \<noteq> 0 then (n + 3) div 4 * 4 else n)"
    by simp arith
  have "length (writeXattr name value) = n + (if n mod 4 \<noteq> 0 then 4 - n mod 4 else 0)"
    unfolding writeXattr_def s Let_def prod.case n_def [symmetric] by (simp add: n_def)
  then show ?thesis unfolding a xattrEntrySize_def s Let_def prod.case n_def [symmetric] .
qed

definition xattrs_ok :: "xattr_map \<Rightarrow> bool" where
  "xattrs_ok m \<longleftrightarrow> distinct (map fst m)"

lemma sum_sorted_keys:
  fixes f :: "bytes \<Rightarrow> bytes \<Rightarrow> nat"
  assumes "xattrs_ok m"
  shows "sum_list (map (\<lambda>name. f name (the (map_of m name))) (sortedXattrKeys m)) = sum_list (map (\<lambda>(n, v). f n v) m)"
proof -
  have "mset (map (\<lambda>name. f name (the (map_of m name))) (sortedXattrKeys m)) =
      mset (map (\<lambda>name. f name (the (map_of m name))) (map fst m))"
    by (simp only: sortedXattrKeys_def mset_map mset_sort)
  also have "map (\<lambda>name. f name (the (map_of m name))) (map fst m) = map (\<lambda>(n, v). f n v) m"
    unfolding map_map
  proof (rule map_cong [OF refl])
    fix x assume "x \<in> set m"
    then have "map_of m (fst x) = Some (snd x)" using assms by (simp add: xattrs_ok_def)
    then show "((\<lambda>name. f name (the (map_of m name))) \<circ> fst) x = (case x of (n, v) \<Rightarrow> f n v)" by (simp add: split_beta)
  qed
  finally show ?thesis by (metis (no_types) sum_mset_sum_list)
qed

lemma length_writeXattrs:
  assumes "xattrs_ok (e_xattrs e)" and "e_xattrs e \<noteq> []"
  shows "length (writeXattrs e) = calcXattrSize (e_xattrs e)"
  using sum_sorted_keys [OF assms(1), of xattrEntrySize] assms(2)
  by (simp add: writeXattrs_def calcXattrSize_def length_concat comp_def length_writeXattr)

lemma calcXattrSize_0 [simp]: "calcXattrSize m = 0 \<longleftrightarrow> m = []" "calcXattrSize [] = 0"
  by (simp_all add: calcXattrSize_def)

lemma length_nullIdx [simp]: "length nullIdx = 8"
  by (simp add: nullIdx_def)

lemma length_chunkIndexes [simp]: "length (chunkIndexes bpc n coff cs) = n * 8"
  by (induction bpc n coff cs rule: chunkIndexes.induct) (auto split: list.split prod.split)

lemma length_concat_replicate: "length (concat (replicate n b)) = n * length b"
  by (induction n) auto

lemma length_writeChunkIndexes [simp]: "length (writeChunkIndexes w e) = chunkCount w e * 8"
  by (simp add: writeChunkIndexes_def Let_def length_concat_replicate)

lemma zeros_ok [simp]: "n \<le> w_blockSize w \<Longrightarrow> zeros w n = Inr (replicate n 0)"
  by (simp add: zeros_def window_def)

section \<open>Trailing data\<close>

text \<open>What an entry must bring: the content of a file whose data is in the image, a directory whose
  names fit.\<close>

definition file_bytes :: "erofsEntry \<Rightarrow> bytes" where
  "file_bytes e = (case e_data e of None \<Rightarrow> [] | Some s \<Rightarrow> take (unat (e_size e)) (src_bytes s))"

definition content_ok :: "erofsWriter \<Rightarrow> erofsEntry \<Rightarrow> bool" where
  "content_ok w e \<longleftrightarrow>
     xattrs_ok (e_xattrs e) \<and>
     (e_type e = StatTypeReg \<and> e_layout e \<noteq> LayoutChunkBased \<longrightarrow>
        length (file_bytes e) = unat (e_size e) \<and> uint (e_size e) \<le> MaxInt64) \<and>
     (is_dir e \<longrightarrow> dir_fits w e \<and> memo_ok w e)"

definition trail :: "erofsWriter \<Rightarrow> erofsEntry \<Rightarrow> bytes" where
  "trail w e =
     (if e_type e = StatTypeReg then
        (if e_layout e = LayoutChunkBased then
           (if e_size e > 0 \<or> e_chunks e \<noteq> [] then replicate (e_chunkPad e) 0 @ writeChunkIndexes w e else [])
         else if e_layout e = LayoutFlatInline then file_bytes e else [])
      else if is_dir e then (if e_layout e = LayoutFlatInline then dirData w e else [])
      else if e_type e = StatTypeSymlink then (if e_layout e = LayoutFlatInline then e_symTarget e else [])
      else [])"

lemma file_bytes_some:
  assumes "length (file_bytes e) = unat (e_size e)" and "e_size e > 0"
  shows "\<exists>s. e_data e = Some s \<and> unat (e_size e) \<le> length (src_bytes s)"
proof -
  have "0 < unat (e_size e)" using assms(2) by (simp add: unat_gt_0)
  with assms(1) show ?thesis by (auto simp: file_bytes_def split: option.splits)
qed

lemma copyLimited_file:
  assumes "length (file_bytes e) = unat (e_size e)" and "e_size e > 0" and "uint (e_size e) \<le> MaxInt64"
  shows "\<exists>s. e_data e = Some s \<and> copyLimited s (i64 (uint (e_size e))) = (file_bytes e, None)"
    and "int (length (file_bytes e)) = i64 (uint (e_size e))"
proof -
  have i: "i64 (uint (e_size e)) = uint (e_size e)" by (rule i64_id_nonneg) (use assms(3) in simp_all)
  obtain s where s: "e_data e = Some s" "unat (e_size e) \<le> length (src_bytes s)"
    using file_bytes_some [OF assms(1,2)] by blast
  then show "\<exists>s. e_data e = Some s \<and> copyLimited s (i64 (uint (e_size e))) = (file_bytes e, None)"
    by (simp add: copyLimited_def i file_bytes_def)
  show "int (length (file_bytes e)) = i64 (uint (e_size e))" using assms(1) by (simp add: i)
qed

lemma chunkPad_le: "placed w e \<Longrightarrow> e_chunkPad e \<le> 8"
  by (simp add: placed_def chunkIndexPad_def Let_def)

lemma chunkPad_flat:
  assumes "placed w e" and "e_layout e \<noteq> LayoutChunkBased \<or> e_trailingSize e = 0"
  shows "e_chunkPad e = 0"
proof -
  have "e_chunkPad e = chunkIndexPad e" using assms(1) by (simp add: placed_def)
  with assms(2) show ?thesis unfolding chunkIndexPad_def by simp
qed

lemma trailingData_ok:
  assumes "placed w e" "content_ok w e" "512 \<le> w_blockSize w"
  shows "trailingData w e = Inr (trail w e, length (trail w e))"
    and "length (trail w e) = e_chunkPad e + e_trailingSize e"
proof -
  have ts: "e_trailingSize e = calcTrailingSize w e" using assms(1) by (simp add: placed_def)
  note pd = chunkPad_flat [OF assms(1)] and pl = chunkPad_le [OF assms(1)]
  have c: "xattrs_ok (e_xattrs e)" "is_dir e \<Longrightarrow> dir_fits w e \<and> memo_ok w e"
    "e_type e = StatTypeReg \<Longrightarrow> e_layout e \<noteq> LayoutChunkBased \<Longrightarrow>
       length (file_bytes e) = unat (e_size e) \<and> uint (e_size e) \<le> MaxInt64"
    using assms(2) by (simp_all add: content_ok_def)
  have "trailingData w e = Inr (trail w e, length (trail w e)) \<and> length (trail w e) = e_chunkPad e + e_trailingSize e"
  proof (cases "e_type e = StatTypeReg")
    case reg: True
    show ?thesis
    proof (cases "e_layout e = LayoutChunkBased")
      case True
      show ?thesis
      proof (cases "e_size e > 0 \<or> e_chunks e \<noteq> []")
        case some: True
        have z: "(if e_chunkPad e > 0 then zeros w (e_chunkPad e) else Inr []) = Inr (replicate (e_chunkPad e) 0)"
          using pl assms(3) by auto
        have t: "e_trailingSize e = chunkCount w e * 8"
          using some reg True ts by (auto simp: calcTrailingSize_def)
        show ?thesis using some reg True z t by (simp add: trailingData_def trail_def)
      next
        case False
        then have "e_trailingSize e = 0" using reg True ts by (simp add: calcTrailingSize_def word_gt_0)
        then show ?thesis using False reg True pd by (simp add: trailingData_def trail_def)
      qed
    next
      case nc: False
      note f = c(3) [OF reg nc]
      show ?thesis
      proof (cases "e_layout e = LayoutFlatInline")
        case True
        have t: "e_trailingSize e = unat (e_size e)" using reg nc True ts by (simp add: calcTrailingSize_def)
        show ?thesis
        proof (cases "e_size e > 0")
          case pos: True
          obtain s where s: "e_data e = Some s" "copyLimited s (i64 (uint (e_size e))) = (file_bytes e, None)"
            using copyLimited_file(1) [OF _ pos] f by blast
          have l: "int (length (file_bytes e)) = i64 (uint (e_size e))" using copyLimited_file(2) [OF _ pos] f by blast
          then have "trailingData w e = Inr (file_bytes e, length (file_bytes e))"
            using reg True pos s by (simp add: trailingData_def)
          then show ?thesis using reg True t f pd by (simp add: trail_def)
        next
          case False
          then have z: "e_size e = 0" by (simp add: word_gt_0)
          then have "file_bytes e = []" using f by simp
          then show ?thesis using reg True t z pd by (simp add: trailingData_def trail_def)
        qed
      next
        case False
        then show ?thesis using reg nc ts pd by (simp add: trailingData_def trail_def calcTrailingSize_def)
      qed
    qed
  next
    case nr: False
    have nc: "e_layout e \<noteq> LayoutChunkBased" using nr assms(1) by (auto simp: placed_def)
    show ?thesis
    proof (cases "is_dir e")
      case True
      have d: "writeDirents w e = Inr (dirData w e)" "length (dirData w e) = direntDataSize w e"
        using c(2) [OF True] writeDirents_laid calcDirentDataSize_length memo_ok_size by (simp_all add: dirData_def)
      show ?thesis using nr nc True d ts pd by (simp add: trailingData_def trail_def calcTrailingSize_def)
    next
      case False
      then show ?thesis using nr nc ts pd by (simp add: trailingData_def trail_def calcTrailingSize_def)
    qed
  qed
  then show "trailingData w e = Inr (trail w e, length (trail w e))"
    "length (trail w e) = e_chunkPad e + e_trailingSize e" by auto
qed

section \<open>The bytes of a slot\<close>

definition slot_bytes :: "erofsWriter \<Rightarrow> erofsEntry \<Rightarrow> bytes" where
  "slot_bytes w e = writeInode w e @ (if e_xattrSize e > 0 then writeXattrs e else []) @ trail w e"

lemma length_slot_bytes:
  assumes "placed w e" "content_ok w e" "512 \<le> w_blockSize w"
  shows "length (slot_bytes w e) = inodeCoreSize e + e_xattrSize e + e_chunkPad e + e_trailingSize e"
proof -
  have "e_xattrSize e = calcXattrSize (e_xattrs e)" "xattrs_ok (e_xattrs e)"
    using assms(1,2) by (simp_all add: placed_def content_ok_def)
  then have "length (if e_xattrSize e > 0 then writeXattrs e else []) = e_xattrSize e"
    using length_writeXattrs [of e] by (cases "e_xattrs e = []") simp_all
  with trailingData_ok(2) [OF assms] show ?thesis by (simp add: slot_bytes_def)
qed

lemma writeMetadataInode_ok:
  assumes "placed w e" "content_ok w e" "512 \<le> w_blockSize w" "m \<le> expectedOff e" "expectedOff e - m \<le> w_blockSize w"
  shows "writeMetadataInode w m e =
    Inr (replicate (expectedOff e - m) 0 @ slot_bytes w e @ replicate (inodeSlotSize e - length (slot_bytes w e)) 0,
      expectedOff e + inodeSlotSize e)"
proof -
  let ?t = "inodeCoreSize e + e_xattrSize e + e_chunkPad e + e_trailingSize e"
  note l = length_slot_bytes [OF assms(1-3)] and t = trailingData_ok [OF assms(1-3)]
  have gap: "(if expectedOff e > m then zeros w (expectedOff e - m) else Inr []) = Inr (replicate (expectedOff e - m) 0)"
    using assms(4,5) by auto
  have x: "(if e_xattrSize e > 0 then e_xattrSize e else 0) = e_xattrSize e" by simp
  have sz: "inodeSlotSize e = ?t + (if ?t mod 32 \<noteq> 0 then 32 - ?t mod 32 else 0)"
    by (simp add: inodeSlotSize_def inodeSlotAlign_pad)
  have nl: "(expectedOff e < m) = False" using assms(4) by simp
  show ?thesis
  proof (cases "?t mod 32 = 0")
    case True
    then show ?thesis
      unfolding writeMetadataInode_def nl if_False gap bindE_simps Let_def x t(1) prod.case
      using l t(2) sz by (simp add: slot_bytes_def)
  next
    case False
    have z: "zeros w (32 - ?t mod 32) = Inr (replicate (32 - ?t mod 32) 0)" by (rule zeros_ok) (use assms(3) in simp)
    show ?thesis
      unfolding writeMetadataInode_def nl if_False gap bindE_simps Let_def x t(1) prod.case if_P [OF False] z
      using l t(2) sz False by (simp add: slot_bytes_def)
  qed
qed

section \<open>The metadata area\<close>

lemma metadataBytes_slot:
  assumes "curOff \<le> expectedOff (st a)"
  shows "metadataBytes_from st curOff (a # as) = metadataBytes_from st (expectedOff (st a) + inodeSlotSize (st a)) as"
proof -
  let ?e = "st a"
  let ?t = "inodeCoreSize ?e + e_xattrSize ?e + e_chunkPad ?e + e_trailingSize ?e"
  have o: "(if curOff < expectedOff ?e then expectedOff ?e else curOff) = expectedOff ?e" using assms by simp
  have s: "(if ?t mod 32 \<noteq> 0 then ?t + (32 - ?t mod 32) else ?t) = inodeSlotSize ?e"
    by (simp add: inodeSlotSize_def inodeSlotAlign_pad)
  show ?thesis unfolding metadataBytes_from.simps Let_def o s ..
qed

lemma metadataBytes_mono: "off \<le> metadataBytes_from st off as"
proof (induction as arbitrary: off)
  case (Cons a as)
  let ?o = "(if off < expectedOff (st a) then expectedOff (st a) else off)"
  have "\<exists>n. metadataBytes_from st off (a # as) = metadataBytes_from st (?o + n) as"
    unfolding metadataBytes_from.simps Let_def by (rule exI, rule refl)
  then obtain n where n: "metadataBytes_from st off (a # as) = metadataBytes_from st (?o + n) as" by blast
  have "off \<le> ?o + n" by simp
  also have "\<dots> \<le> metadataBytes_from st (?o + n) as" by (rule Cons.IH)
  finally show ?case unfolding n .
qed simp

lemma writeMetadataInodes_from_ok:
  assumes "slots w (w_store w) off as" "\<forall>a \<in> set as. content_ok w (w_store w a)" "512 \<le> w_blockSize w"
  shows "\<exists>b. writeMetadataInodes_from w off as = Inr (b, metadataBytes_from (w_store w) off as) \<and>
    length b = metadataBytes_from (w_store w) off as - off \<and>
    (\<forall>a \<in> set as. off \<le> expectedOff (w_store w a) \<and>
       expectedOff (w_store w a) + inodeSlotSize (w_store w a) \<le> metadataBytes_from (w_store w) off as \<and>
       window b (expectedOff (w_store w a) - off) (length (slot_bytes w (w_store w a))) = slot_bytes w (w_store w a))"
  using assms(1,2)
proof (induction as arbitrary: off)
  case (Cons a as)
  let ?e = "w_store w a"
  let ?next = "expectedOff ?e + inodeSlotSize ?e"
  let ?s = "slot_bytes w ?e"
  let ?pad = "replicate (inodeSlotSize ?e - length ?s) 0"
  let ?gap = "replicate (expectedOff ?e - off) 0"
  have p: "placed w ?e" "content_ok w ?e" "off \<le> expectedOff ?e" "expectedOff ?e < off + 64" "slots w (w_store w) ?next as"
    using Cons.prems by auto
  have wm: "writeMetadataInode w off ?e = Inr (?gap @ ?s @ ?pad, ?next)"
    by (rule writeMetadataInode_ok [OF p(1,2) assms(3) p(3)]) (use p(4) assms(3) in simp)
  have ls: "length ?s \<le> inodeSlotSize ?e"
    unfolding length_slot_bytes [OF p(1,2) assms(3)] inodeSlotSize_def by (rule inodeSlotAlign_props)
  obtain b where b: "writeMetadataInodes_from w ?next as = Inr (b, metadataBytes_from (w_store w) ?next as)"
    "length b = metadataBytes_from (w_store w) ?next as - ?next"
    "\<forall>a \<in> set as. ?next \<le> expectedOff (w_store w a) \<and>
       expectedOff (w_store w a) + inodeSlotSize (w_store w a) \<le> metadataBytes_from (w_store w) ?next as \<and>
       window b (expectedOff (w_store w a) - ?next) (length (slot_bytes w (w_store w a))) = slot_bytes w (w_store w a)"
    using Cons.IH [OF p(5)] Cons.prems(2) by auto
  note mb = metadataBytes_slot [where st = "w_store w" and a = a and as = as and curOff = off, OF p(3)]
  have mono: "?next \<le> metadataBytes_from (w_store w) ?next as" by (rule metadataBytes_mono)
  let ?h = "?gap @ ?s @ ?pad"
  have lh: "length ?h = ?next - off" using ls p(3) by simp
  have "window (?h @ b) (expectedOff ?e - off) (length ?s) = ?s"
    using window_append_exact [of ?gap "expectedOff ?e - off" ?s "length ?s" "?pad @ b"] by simp
  moreover have "window (?h @ b) (expectedOff (w_store w c) - off) n = window b (expectedOff (w_store w c) - ?next) n"
    if "c \<in> set as" for c n
  proof -
    have "?next \<le> expectedOff (w_store w c)" using b(3) that by blast
    then show ?thesis using window_append_right [of ?h "expectedOff (w_store w c) - off" b n] p(3) by (simp only: lh) simp
  qed
  ultimately show ?case
    using wm b p(3) mono lh unfolding mb by (auto simp del: append_assoc)
qed simp

text \<open>The whole area: every slot where its nid says, padded to a block.\<close>

lemma writeMetadataInodes_ok:
  assumes "slots w (w_store w) 0 (w_entries w)" "\<forall>a \<in> set (w_entries w). content_ok w (w_store w a)" "512 \<le> w_blockSize w"
  shows "\<exists>m. writeMetadataInodes w = Inr m \<and>
    length m = (metadataBytes w + w_blockSize w - 1) div w_blockSize w * w_blockSize w \<and>
    (\<forall>a \<in> set (w_entries w).
       expectedOff (w_store w a) + inodeSlotSize (w_store w a) \<le> metadataBytes w \<and>
       window m (expectedOff (w_store w a)) (length (slot_bytes w (w_store w a))) = slot_bytes w (w_store w a))"
proof -
  let ?bsz = "w_blockSize w" and ?n = "metadataBytes w"
  obtain b where b: "writeMetadataInodes_from w 0 (w_entries w) = Inr (b, ?n)" "length b = ?n"
    "\<forall>a \<in> set (w_entries w). expectedOff (w_store w a) + inodeSlotSize (w_store w a) \<le> ?n \<and>
       window b (expectedOff (w_store w a)) (length (slot_bytes w (w_store w a))) = slot_bytes w (w_store w a)"
    using writeMetadataInodes_from_ok [OF assms] by (auto simp: metadataBytes_def)
  define pad where "pad = (if ?n mod ?bsz \<noteq> 0 then ?bsz - ?n mod ?bsz else 0)"
  have w: "writeMetadataInodes w = Inr (b @ replicate pad 0)"
    using b(1) by (simp add: writeMetadataInodes_def pad_def)
  have "length (b @ replicate pad 0) = (?n + ?bsz - 1) div ?bsz * ?bsz"
    using round_pad [of ?bsz ?n] assms(3) b(2) by (simp add: pad_def)
  moreover have "window (b @ replicate pad 0) (expectedOff (w_store w a)) (length (slot_bytes w (w_store w a))) = slot_bytes w (w_store w a)"
    if a: "a \<in> set (w_entries w)" for a
  proof -
    have e: "expectedOff (w_store w a) + inodeSlotSize (w_store w a) \<le> ?n"
      "window b (expectedOff (w_store w a)) (length (slot_bytes w (w_store w a))) = slot_bytes w (w_store w a)"
      using b(3) a by auto
    have "length (slot_bytes w (w_store w a)) \<le> length b - expectedOff (w_store w a)"
      using arg_cong [OF e(2), of length] by simp
    then show ?thesis using window_append_left [of "expectedOff (w_store w a)" "length (slot_bytes w (w_store w a))" b] e b(2)
      by simp
  qed
  ultimately show ?thesis using w b(3) by blast
qed

end
