(* ===== verification/Spec2Isabelle.thy ===== *)
theory Spec2Isabelle
  imports Inode Data_Map Spec_Reader Refine Refine_Read Refine_Open Prefix_Table Refine_Prefix Dir Spec_Dir Refine_Dir Path Layout Writer
    Write_Dir Write_Layout Write_Meta
begin

text \<open>
  A verification development for the EROFS image library: a reader that serves an image as a file
  system, a writer that plans and serializes one, and a second, plain implementation of the format
  the tests hold the reader to.

  \<^bold>\<open>The program.\<close> The reader (\<open>src/erofs.go\<close>) opens an image from an \<open>io.ReaderAt\<close>, decodes its
  superblock, device table and long prefixes, and resolves a path to a nid by binary searches over directory
  blocks; a nid is an address, where the inode is decoded and checked, and the inode's layout says
  where its blocks are. The reference (\<open>src/internal/erofsspec\<close>) does the same over a byte slice,
  following the kernel. The writer takes a tree of entries, plans the slot and the layout of every
  inode (\<open>src/layout.go\<close>) and writes superblock, data blocks and metadata (\<open>src/writer.go\<close>). Both
  sides share the structures of \<open>src/internal/disk\<close> and the encodings of \<open>src/format.go\<close>.

  \<^bold>\<open>The theories.\<close>
  \<^item> \<open>Prelude\<close>: bytes, Go's integers at their width, error values with \<open>errors.Is\<close>, results.
  \<^item> \<open>Disk\<close>, \<open>Format\<close>: \<open>internal/disk\<close>, \<open>block.go\<close>, \<open>format.go\<close>; the codecs as lists of stores
    at offsets. Round trips of the superblock, of device slots and of modes.
  \<^item> \<open>Image\<close>: opening (\<open>openSuper\<close>), \<open>checkNid\<close>, \<open>locateRange\<close>. An image that opens satisfies the
    invariant \<open>image_ok\<close>; the bounds are exact and no address leaves its device. The locale
    \<open>reader_at\<close> is the contract of \<open>io.ReaderAt\<close>.
  \<^item> \<open>Inode\<close>: \<open>readInfo\<close> with the cache of an open file, and what a decoded inode satisfies.
  \<^item> \<open>Data_Map\<close>: \<open>loadBlock\<close> for every layout, \<open>openDirect\<close>, \<open>Read\<close>, \<open>readAll\<close> and the published
    data ranges; exact lengths, independence of pooled buffers, termination.
  \<^item> \<open>Dir\<close>: \<open>ReadDir\<close> and \<open>lookup\<close>. The locale \<open>binary_search\<close> is interpreted for the search over
    blocks and for the one within a block; paging, completeness and termination of the listing.
  \<^item> \<open>Path\<close>: \<open>resolve\<close> through symbolic links, and the methods of the image that begin with it.
  \<^item> \<open>Spec_Reader\<close>, \<open>Spec_Dir\<close>: the reference. \<open>Prefix_Table\<close>: the long prefixes with which \<open>Open\<close> and
    \<open>Parse\<close> end. \<open>Refine\<close>, \<open>Refine_Read\<close>, \<open>Refine_Open\<close>, \<open>Refine_Prefix\<close> and \<open>Refine_Dir\<close> relate the
    reader to the reference: what the reader opens, decodes, reads, lists and looks up is what the
    reference does. The exceptions are in the statements: a prefix table the reference looks for in
    the packed inode, attributes it cannot decode, an inline tail across its block or under an extra
    device. Whole files and directories start from \<open>openSuper\<close> and \<open>sp_Parse_head\<close>, opening without the
    prefixes, which only the names of attributes depend on. The locale \<open>prefix_search\<close> shows that the kernel's search with
    matched prefixes is a plain search on ascending names.
  \<^item> \<open>Layout\<close>, \<open>Writer\<close>: \<open>layout.go\<close> and \<open>writer.go\<close>, over a store of entries. \<open>Write_Dir\<close> shows that
    the reader looks up every name of a written directory, \<open>Write_Layout\<close> that planned slots lie
    apart and within blocks, \<open>Write_Meta\<close> that every slot's bytes are where its nid says.

  \<^bold>\<open>State and effects.\<close> Structures are records and handlers return the structure they leave.
  Errors are values of \<open>err\<close>, a panic among them; \<open>fmt.Errorf\<close> texts are dropped and the wrapped
  error is kept. An \<open>int64\<close> is an \<open>int\<close> with \<open>i64\<close> where the code's arithmetic can wrap.

  \<^bold>\<open>Bounds and fuel.\<close> Loops whose end depends on the image (\<open>ReadFull\<close>, \<open>readDirLoop\<close>, \<open>streamFull\<close>,
  \<open>walkEntries\<close>) are partial functions in \<open>option\<close>; that the first two return is proved, and the third where
  it reads from the image. \<open>errors_Is\<close> follows three
  links, the longest chain the library builds. The doubling loop of the reference takes at most 64
  steps.

  \<^bold>\<open>Not modelled.\<close> The decoding of attribute bodies in the reader; \<open>WriteTo\<close>, \<open>statInfo\<close> and the \<open>fileInfo\<close> accessors; the tree-building interface of
  \<open>mkfs.go\<close> beyond the entry the serialization works on; \<open>mkfs_image.go\<close>, which copies the metadata
  of an image; the corpus of test images; the host's stat structures, which differ by platform.
\<close>

end
